(* ===== verification/Prelude.thy ===== *)
theory Prelude
  imports Main "HOL-Library.Word" "HOL-Library.Char_ord" "HOL-Library.List_Lexorder"
    "HOL-Library.Multiset"
begin

text \<open>
  Shared vocabulary of the development: the Go value types the model keeps at their width,
  the result type of fallible Go functions, the string functions of Go's standard library
  that the sources call (packages \<open>strings\<close>, \<open>bytes\<close>, \<open>fmt\<close> and \<open>strconv\<close>), and generic lemmas
  that the component theories use. A Go string is a sequence of bytes, hence a HOL \<open>string\<close>.
\<close>

section \<open>Go values\<close>

type_synonym goint = "64 word"
type_synonym u32 = "32 word"

text \<open>An error value is represented by what its method \<open>Error()\<close> returns.\<close>

type_synonym gerr = string

text \<open>
  The outcome of a Go call with results \<open>(T, error)\<close>: a value with a nil error, a non-nil
  error, or a run-time panic (a nil dereference or an explicit \<open>panic\<close>).
\<close>

datatype 'a res = Ok 'a | Err gerr | Panic string

fun bind_res :: "'a res \<Rightarrow> ('a \<Rightarrow> 'b res) \<Rightarrow> 'b res" where
  "bind_res (Ok x) f = f x"
| "bind_res (Err e) f = Err e"
| "bind_res (Panic p) f = Panic p"

definition nilDeref :: string where
  "nilDeref = ''invalid memory address or nil pointer dereference''"

named_theorems go_string "facts on the modelled string functions"
named_theorems fs_frame "frame facts of the file system operations"
named_theorems fs_wf_intros "operations keep the file system well formed"

lemma bind_res_eq_Ok [simp]:
  "bind_res r f = Ok y \<longleftrightarrow> (\<exists>x. r = Ok x \<and> f x = Ok y)"
  by (cases r) auto

section \<open>Package \<open>strings\<close>\<close>

abbreviation nl :: char where "nl \<equiv> CHR 0x0A"
abbreviation nul :: char where "nul \<equiv> CHR 0x00"

definition hasPrefix :: "string \<Rightarrow> string \<Rightarrow> bool" where
  "hasPrefix s p \<longleftrightarrow> take (length p) s = p"

definition trimPrefix :: "string \<Rightarrow> string \<Rightarrow> string" where
  "trimPrefix s p = (if hasPrefix s p then drop (length p) s else s)"

fun contains :: "string \<Rightarrow> string \<Rightarrow> bool" where
  "contains [] sub = (sub = [])"
| "contains (c # s) sub = (hasPrefix (c # s) sub \<or> contains s sub)"

text \<open>\<open>strings.ReplaceAll\<close> and \<open>bytes.ReplaceAll\<close>, called with a one-byte old string.\<close>

definition replaceAll :: "string \<Rightarrow> char \<Rightarrow> string \<Rightarrow> string" where
  "replaceAll s old new = concat (map (\<lambda>c. if c = old then new else [c]) s)"

fun joinWith :: "string \<Rightarrow> string list \<Rightarrow> string" where
  "joinWith sep [] = []"
| "joinWith sep [x] = x"
| "joinWith sep (x # y # ys) = x @ sep @ joinWith sep (y # ys)"

text \<open>\<open>strings.ToLower\<close> on the ASCII letters; every other byte is kept.\<close>

definition lowerByte :: "char \<Rightarrow> char" where
  "lowerByte c = (if 65 \<le> (of_char c :: nat) \<and> (of_char c :: nat) \<le> 90
                  then char_of ((of_char c :: nat) + 32) else c)"

definition toLower :: "string \<Rightarrow> string" where
  "toLower s = map lowerByte s"

text \<open>A text between single quotes.\<close>

definition quoted :: "string \<Rightarrow> string" where
  "quoted s = [CHR 0x27] @ s @ [CHR 0x27]"

lemma hasPrefix_append [simp, go_string]: "hasPrefix (p @ s) p"
  by (simp add: hasPrefix_def)

lemma hasPrefix_iff [go_string]: "hasPrefix s p \<longleftrightarrow> (\<exists>t. s = p @ t)"
  by (metis append_eq_conv_conj hasPrefix_def)

lemma trimPrefix_append [simp, go_string]: "trimPrefix (p @ s) p = s"
  by (simp add: trimPrefix_def)

lemma contains_iff [go_string]: "contains s sub \<longleftrightarrow> (\<exists>a b. s = a @ sub @ b)"
proof (induction s)
  case Nil
  then show ?case by auto
next
  case (Cons c s)
  have "(\<exists>a b. c # s = a @ sub @ b) \<longleftrightarrow>
      (\<exists>b. c # s = sub @ b) \<or> (\<exists>a b. s = a @ sub @ b)"
    by (metis append_Cons append_Nil list.exhaust list.inject)
  then show ?case by (simp add: Cons.IH hasPrefix_iff)
qed

lemma replaceAll_Nil [simp]: "replaceAll [] old new = []"
  by (simp add: replaceAll_def)

lemma replaceAll_append [simp, go_string]:
  "replaceAll (s @ t) old new = replaceAll s old new @ replaceAll t old new"
  by (simp add: replaceAll_def)

lemma replaceAll_Cons [simp, go_string]:
  "replaceAll (c # s) old new = (if c = old then new else [c]) @ replaceAll s old new"
  by (simp add: replaceAll_def)

lemma replaceAll_absent [go_string]: "old \<notin> set s \<Longrightarrow> replaceAll s old new = s"
  by (induction s) auto

lemma set_replaceAll [go_string]:
  "set (replaceAll s old new) = (set s - {old}) \<union> (if old \<in> set s then set new else {})"
  by (induction s) auto

section \<open>Decimal numbers: the verb \<open>%d\<close> of package \<open>fmt\<close>\<close>

definition digitChar :: "nat \<Rightarrow> char" where
  "digitChar d = char_of (48 + d)"

definition isDigit :: "char \<Rightarrow> bool" where
  "isDigit c \<longleftrightarrow> 48 \<le> (of_char c :: nat) \<and> (of_char c :: nat) \<le> 57"

definition digitVal :: "char \<Rightarrow> nat" where
  "digitVal c = of_char c - 48"

fun showNat :: "nat \<Rightarrow> string" where
  "showNat n = (if n < 10 then [digitChar n] else showNat (n div 10) @ [digitChar (n mod 10)])"

declare showNat.simps [simp del]

definition readNat :: "string \<Rightarrow> nat" where
  "readNat ds = foldl (\<lambda>a c. a * 10 + digitVal c) 0 ds"

definition showInt :: "int \<Rightarrow> string" where
  "showInt i = (if i < 0 then CHR ''-'' # showNat (nat (- i)) else showNat (nat i))"

text \<open>A 64-bit Go \<open>int\<close> is printed as a signed number.\<close>

definition showGoint :: "goint \<Rightarrow> string" where
  "showGoint w = showInt (sint w)"

lemma digitChar_props [simp]:
  assumes "d < 10"
  shows "isDigit (digitChar d)" "digitVal (digitChar d) = d"
  using assms by (simp_all add: digitChar_def isDigit_def digitVal_def)

lemma showNat_digits: "c \<in> set (showNat n) \<Longrightarrow> isDigit c"
proof (induction n rule: showNat.induct)
  case (1 n)
  then show ?case
    by (cases "n < 10") (auto simp: showNat.simps [of n])
qed

lemma showNat_not_Nil [simp]: "showNat n \<noteq> []"
  by (subst showNat.simps) simp

lemma readNat_snoc [simp]: "readNat (ds @ [c]) = readNat ds * 10 + digitVal c"
  by (simp add: readNat_def)

lemma readNat_showNat [simp]: "readNat (showNat n) = n"
proof (induction n rule: showNat.induct)
  case (1 n)
  show ?case
  proof (cases "n < 10")
    case True
    then show ?thesis by (subst showNat.simps) (simp add: readNat_def)
  next
    case False
    with 1 have "readNat (showNat (n div 10)) = n div 10" by simp
    with False show ?thesis by (subst showNat.simps) simp
  qed
qed

lemma showNat_inject [simp]: "showNat m = showNat n \<longleftrightarrow> m = n"
  by (metis readNat_showNat)

lemma isDigit_not_minus [simp]: "\<not> isDigit (CHR ''-'')"
  by (simp add: isDigit_def)

lemma showInt_chars: "c \<in> set (showInt i) \<Longrightarrow> isDigit c \<or> c = CHR ''-''"
  by (auto simp: showInt_def dest: showNat_digits split: if_splits)

lemma showInt_not_Nil [simp]: "showInt i \<noteq> []"
  by (simp add: showInt_def)

lemma showNat_not_minus: "showNat m \<noteq> CHR ''-'' # t"
  by (metis isDigit_not_minus list.set_intros(1) showNat_digits)

lemma showInt_inject [simp]: "showInt i = showInt j \<longleftrightarrow> i = j"
  using showNat_not_minus [of "nat i"] showNat_not_minus [of "nat j"]
    showNat_not_minus [of "nat i", symmetric] showNat_not_minus [of "nat j", symmetric]
  by (auto simp: showInt_def split: if_splits)

lemma showGoint_inject [simp]: "showGoint v = showGoint w \<longleftrightarrow> v = w"
  by (metis showGoint_def showInt_inject signed_word_eqI)

lemma length_showNat: "n < 10 ^ Suc k \<Longrightarrow> length (showNat n) \<le> Suc k"
proof (induction k arbitrary: n)
  case 0
  then show ?case by (subst showNat.simps) simp
next
  case (Suc k)
  show ?case
  proof (cases "n < 10")
    case True
    then show ?thesis by (subst showNat.simps) simp
  next
    case False
    have "n div 10 < 10 ^ Suc k" using Suc.prems by simp
    then have "length (showNat (n div 10)) \<le> Suc k" by (rule Suc.IH)
    with False show ?thesis by (subst showNat.simps) simp
  qed
qed

lemma sint_goint_range: "- (2 ^ 63) \<le> sint (w :: goint)" "sint (w :: goint) < 2 ^ 63"
  using sint_range_size [of w] by (auto simp: word_size)

lemma length_showGoint: "length (showGoint w) \<le> 20"
proof -
  have "nat (sint w) < 10 ^ Suc 18" "nat (- sint w) < 10 ^ Suc 18"
    using sint_goint_range [of w] by simp_all
  then have "length (showNat (nat (sint w))) \<le> Suc 18" "length (showNat (nat (- sint w))) \<le> Suc 18"
    by (blast intro: length_showNat)+
  then show ?thesis by (simp add: showGoint_def showInt_def)
qed

section \<open>Lists\<close>

text \<open>The non-nil errors of a list of error values.\<close>

fun somes :: "'a option list \<Rightarrow> 'a list" where
  "somes [] = []"
| "somes (None # es) = somes es"
| "somes (Some e # es) = e # somes es"

lemma set_somes [simp]: "set (somes es) = {e. Some e \<in> set es}"
  by (induction es rule: somes.induct) auto

lemma somes_append [simp]: "somes (es @ fs) = somes es @ somes fs"
  by (induction es rule: somes.induct) auto

lemma somes_shuffles: "zs \<in> shuffles xs ys \<Longrightarrow> somes zs \<in> shuffles (somes xs) (somes ys)"
proof (induction xs ys arbitrary: zs rule: shuffles.induct)
  case (3 x xs y ys)
  then consider zs' where "zs = x # zs'" "zs' \<in> shuffles xs (y # ys)"
    | zs' where "zs = y # zs'" "zs' \<in> shuffles (x # xs) ys" by auto
  then show ?case
  proof cases
    case 1
    with "3.IH"(1) have "somes zs' \<in> shuffles (somes xs) (somes (y # ys))" by blast
    with 1 show ?thesis by (cases x) (simp_all add: Cons_in_shuffles_leftI)
  next
    case 2
    with "3.IH"(2) have "somes zs' \<in> shuffles (somes (x # xs)) (somes ys)" by blast
    with 2 show ?thesis by (cases y) (simp_all add: Cons_in_shuffles_rightI)
  qed
qed simp_all

lemma takeWhile_dropWhile_split:
  assumes "\<And>x. x \<in> set xs \<Longrightarrow> P x" and "ys = [] \<or> \<not> P (hd ys)"
  shows "takeWhile P (xs @ ys) = xs" "dropWhile P (xs @ ys) = ys"
  using assms by (auto simp: takeWhile_append dropWhile_append takeWhile_eq_Nil_iff dropWhile_eq_self_iff)

text \<open>
  A text is cut at the first byte of a class uniquely: two texts over the complement of the
  class, each followed by a byte of the class, agree only if the parts agree.
\<close>

lemma split_at_class:
  assumes "xs @ c # ys = xs' @ c' # ys'"
    and "\<And>x. x \<in> set xs \<Longrightarrow> P x" "\<And>x. x \<in> set xs' \<Longrightarrow> P x" "\<not> P c" "\<not> P c'"
  shows "xs = xs'" "c = c'" "ys = ys'"
proof -
  have tw: "takeWhile P (zs @ d # ws) = zs"
    if "\<And>x. x \<in> set zs \<Longrightarrow> P x" "\<not> P d" for zs d ws
    using that by (intro takeWhile_dropWhile_split) auto
  show "xs = xs'" using tw [of xs c ys] tw [of xs' c' ys'] assms by simp
  with assms(1) show "c = c'" "ys = ys'" by simp_all
qed

end
