(* ===== verification/OrderedSet.thy ===== *)
theory OrderedSet
  imports Prelude "HOL-Library.AList"
begin

text \<open>
  The type \<open>orderedSet\<close> of \<open>core/ordered_set.go\<close>. The Go map \<open>data\<close> is an association list with
  distinct keys. A \<open>range\<close> loop over a Go map visits the keys in an unspecified order that may
  differ from loop to loop: it is the parameter \<open>iter\<close> of every operation that loops, a function
  that permutes the list of keys. The interface the folder expansion relies on is the locale
  \<open>ordered_collection\<close>, whose laws are stated on the list of entries in insertion order.
\<close>

section \<open>State and operations\<close>

record orderedSet =
  data :: "(string \<times> nat) list"
  orderCount :: nat

type_synonym map_iter = "string list \<Rightarrow> string list"

text \<open>What the language promises of a loop over a map: every key is visited exactly once.\<close>

definition iterates :: "map_iter \<Rightarrow> bool" where
  "iterates iter \<longleftrightarrow> (\<forall>ks. mset (iter ks) = mset ks)"

definition newOrderedSet :: orderedSet where
  "newOrderedSet = \<lparr>data = [], orderCount = 0\<rparr>"

definition has :: "orderedSet \<Rightarrow> string \<Rightarrow> bool" where
  "has s key \<longleftrightarrow> map_of (data s) key \<noteq> None"

definition add :: "string \<Rightarrow> orderedSet \<Rightarrow> orderedSet" where
  "add key s =
     (if \<not> has s key
      then s\<lparr>data := AList.update key (orderCount s) (data s), orderCount := orderCount s + 1\<rparr>
      else s)"

definition setFromSlice :: "string list \<Rightarrow> orderedSet" where
  "setFromSlice sli = fold add sli newOrderedSet"

definition remove_key :: "string \<Rightarrow> orderedSet \<Rightarrow> orderedSet" where
  "remove_key key s = s\<lparr>data := AList.delete key (data s)\<rparr>"

definition len :: "orderedSet \<Rightarrow> nat" where
  "len s = length (data s)"

definition iterator :: "orderedSet \<Rightarrow> (string \<times> nat) list" where
  "iterator s = data s"

definition orderedEntries :: "map_iter \<Rightarrow> orderedSet \<Rightarrow> string list" where
  "orderedEntries iter s =
     (let order = map (\<lambda>key. (key, the (map_of (iterator s) key))) (iter (map fst (iterator s)))
      in map fst (sort_key snd order))"

definition union :: "map_iter \<Rightarrow> orderedSet \<Rightarrow> orderedSet \<Rightarrow> orderedSet" where
  "union iter s otherSet =
     fold (\<lambda>entry result. if has otherSet entry then add entry result else result)
       (iter (map fst (iterator s))) newOrderedSet"

definition exclusion :: "map_iter \<Rightarrow> orderedSet \<Rightarrow> orderedSet \<Rightarrow> orderedSet" where
  "exclusion iter s otherSet =
     fold (\<lambda>entry result. if \<not> has otherSet entry then add entry result else result)
       (iter (map fst (iterator s))) newOrderedSet"

definition equal_sets :: "map_iter \<Rightarrow> orderedSet \<Rightarrow> orderedSet \<Rightarrow> bool" where
  "equal_sets iter s otherSet =
     (if len s \<noteq> len otherSet then False
      else list_all (\<lambda>entry. has otherSet entry) (iter (map fst (iterator s))))"

section \<open>Representation invariant and abstraction\<close>

text \<open>
  Keys are unique, order numbers are unique and below the counter. A set is abstracted to the
  list of its keys by increasing order number.
\<close>

definition os_inv :: "orderedSet \<Rightarrow> bool" where
  "os_inv s \<longleftrightarrow> distinct (map fst (data s)) \<and> distinct (map snd (data s)) \<and>
     (\<forall>v \<in> set (map snd (data s)). v < orderCount s)"

definition entries :: "orderedSet \<Rightarrow> string list" where
  "entries s = map fst (sort_key snd (data s))"

lemma iterates_set: "iterates iter \<Longrightarrow> set (iter ks) = set ks"
  by (metis iterates_def set_mset_mset)

lemma iterates_distinct: "iterates iter \<Longrightarrow> distinct ks \<Longrightarrow> distinct (iter ks)"
  by (metis iterates_def mset_eq_imp_distinct_iff)

lemma iterates_rev [simp]: "iterates rev" and iterates_id [simp]: "iterates (\<lambda>ks. ks)"
  by (simp_all add: iterates_def)

lemma os_inv_new [simp]: "os_inv newOrderedSet"
  by (simp add: os_inv_def newOrderedSet_def)

lemma set_entries: "set (entries s) = fst ` set (data s)"
  by (simp add: entries_def)

lemma has_entries [simp]: "has s k \<longleftrightarrow> k \<in> set (entries s)"
  by (simp add: has_def map_of_eq_None_iff set_entries)

lemma entries_new [simp]: "entries newOrderedSet = []"
  by (simp add: entries_def newOrderedSet_def)

lemma distinct_entries: "os_inv s \<Longrightarrow> distinct (entries s)"
  by (simp add: entries_def os_inv_def distinct_map)

text \<open>
  Two lists of pairs with the same elements and distinct second components are sorted the same
  way, so the unspecified order in which a map is visited and the instability of \<open>sort.Slice\<close>
  cannot be observed.
\<close>

lemma sort_key_unique:
  assumes "mset ps = mset qs" and "distinct (map snd qs)" and "sorted (map snd ps)"
  shows "ps = sort_key snd qs"
proof -
  have "inj_on snd (set qs)"
    using assms(2) by (simp add: distinct_map)
  then show ?thesis
    using sort_key_inj_key_eq [of qs ps snd] assms by simp
qed

lemma lookup_pairs:
  assumes "distinct (map fst ps)" and "mset ks = mset (map fst ps)"
  shows "mset (map (\<lambda>k. (k, the (map_of ps k))) ks) = mset ps"
proof -
  have "image_mset (\<lambda>k. (k, the (map_of ps k))) (mset (map fst ps)) = mset ps"
  proof -
    have "map (\<lambda>k. (k, the (map_of ps k))) (map fst ps) = ps"
      using assms(1) by (auto intro!: map_idI)
    then show ?thesis by (metis mset_map)
  qed
  then show ?thesis using assms(2) by simp
qed

lemma orderedEntries_entries [simp]:
  assumes "os_inv s" and "iterates iter"
  shows "orderedEntries iter s = entries s"
proof -
  let ?order = "map (\<lambda>key. (key, the (map_of (data s) key))) (iter (map fst (data s)))"
  have m: "mset ?order = mset (data s)"
    using assms by (intro lookup_pairs) (auto simp: os_inv_def iterates_def)
  have "sort_key snd ?order = sort_key snd (data s)"
    using assms(1) m by (intro sort_key_unique) (auto simp: os_inv_def)
  then show ?thesis by (simp add: orderedEntries_def iterator_def entries_def Let_def)
qed

section \<open>The operations on the abstraction\<close>

lemma update_absent: "k \<notin> fst ` set ps \<Longrightarrow> AList.update k v ps = ps @ [(k, v)]"
  by (induction ps) auto

lemma data_add_absent:
  "\<not> has s k \<Longrightarrow> data (add k s) = data s @ [(k, orderCount s)]"
  "\<not> has s k \<Longrightarrow> orderCount (add k s) = orderCount s + 1"
  by (simp_all add: add_def update_absent set_entries)

lemma add_present [simp]: "has s k \<Longrightarrow> add k s = s"
  by (simp add: add_def)

lemma sort_key_snoc:
  assumes "distinct (map snd ps)" and "\<forall>v \<in> set (map snd ps). v < snd p"
  shows "sort_key snd (ps @ [p]) = sort_key snd ps @ [p]"
proof -
  have "sort_key snd ps @ [p] = sort_key snd (ps @ [p])"
    using assms by (intro sort_key_unique) (auto simp: sorted_append less_imp_le)
  then show ?thesis by simp
qed

lemma os_inv_add [simp]:
  assumes "os_inv s"
  shows "os_inv (add k s)"
proof (cases "has s k")
  case False
  then have "k \<notin> fst ` set (data s)" by (simp add: set_entries)
  with False assms show ?thesis by (fastforce simp: os_inv_def data_add_absent less_Suc_eq)
qed (use assms in simp)

lemma entries_add:
  assumes "os_inv s"
  shows "entries (add k s) = (if has s k then entries s else entries s @ [k])"
  using assms sort_key_snoc [of "data s" "(k, orderCount s)"]
  by (simp add: entries_def data_add_absent os_inv_def del: has_entries)

lemma data_remove: "data (remove_key k s) = filter (\<lambda>p. fst p \<noteq> k) (data s)"
  by (simp add: remove_key_def AList.delete_eq case_prod_unfold eq_commute)

lemma os_inv_remove [simp]: "os_inv s \<Longrightarrow> os_inv (remove_key k s)"
  by (auto simp: os_inv_def data_remove distinct_map_filter) (auto simp: remove_key_def)

lemma entries_remove:
  "os_inv s \<Longrightarrow> entries (remove_key k s) = filter (\<lambda>x. x \<noteq> k) (entries s)"
  by (simp add: entries_def data_remove filter_map comp_def flip: filter_sort)

lemma len_entries: "len s = length (entries s)"
  by (simp add: len_def entries_def)

section \<open>The interface of an insertion-ordered set\<close>

text \<open>
  What a client of the set may assume, on the list \<open>elems s\<close> of the elements in insertion order;
  \<open>sel\<close> and \<open>rem\<close> are the two mutations. The derived facts describe whole loops of mutations.
\<close>

locale ordered_collection =
  fixes empty_set :: 's
    and sel :: "'k \<Rightarrow> 's \<Rightarrow> 's"
    and rem :: "'k \<Rightarrow> 's \<Rightarrow> 's"
    and isin :: "'s \<Rightarrow> 'k \<Rightarrow> bool"
    and elems :: "'s \<Rightarrow> 'k list"
    and inv :: "'s \<Rightarrow> bool"
  assumes inv_empty: "inv empty_set"
    and inv_sel: "inv s \<Longrightarrow> inv (sel k s)"
    and inv_rem: "inv s \<Longrightarrow> inv (rem k s)"
    and elems_empty: "elems empty_set = []"
    and elems_distinct: "inv s \<Longrightarrow> distinct (elems s)"
    and isin_elems: "isin s k \<longleftrightarrow> k \<in> set (elems s)"
    and elems_sel: "inv s \<Longrightarrow> elems (sel k s) = (if isin s k then elems s else elems s @ [k])"
    and elems_rem: "inv s \<Longrightarrow> elems (rem k s) = filter (\<lambda>x. x \<noteq> k) (elems s)"
begin

lemma set_sel [simp]: "inv s \<Longrightarrow> set (elems (sel k s)) = insert k (set (elems s))"
  by (auto simp: elems_sel isin_elems)

lemma set_rem [simp]: "inv s \<Longrightarrow> set (elems (rem k s)) = set (elems s) - {k}"
  by (auto simp: elems_rem)

lemma fold_sel:
  "inv s \<Longrightarrow> inv (fold sel ks s) \<and> set (elems (fold sel ks s)) = set (elems s) \<union> set ks"
  by (induction ks arbitrary: s) (auto simp: inv_sel)

lemma fold_rem:
  "inv s \<Longrightarrow> inv (fold rem ks s) \<and> set (elems (fold rem ks s)) = set (elems s) - set ks"
  by (induction ks arbitrary: s) (auto simp: inv_rem)

text \<open>Selecting a list of keys one by one keeps the first occurrence of each.\<close>

lemma elems_fold_sel:
  "inv s \<Longrightarrow> rev (elems (fold sel ks s)) = fold List.insert ks (rev (elems s))"
proof (induction ks arbitrary: s)
  case (Cons k ks)
  have "rev (elems (sel k s)) = List.insert k (rev (elems s))"
    using Cons.prems by (simp add: elems_sel isin_elems List.insert_def)
  then show ?case using Cons by (simp add: inv_sel)
qed simp

corollary elems_from_empty: "elems (fold sel ks empty_set) = rev (remdups (rev ks))"
proof -
  have "fold List.insert ks [] = remdups (rev ks)" for ks :: "'k list"
    by (induction ks rule: rev_induct) (simp_all add: List.insert_def)
  then show ?thesis
    using elems_fold_sel [OF inv_empty, of ks] by (metis elems_empty rev.simps(1) rev_rev_ident)
qed

text \<open>A conditional selection loop is the selection of the filtered list.\<close>

lemma fold_sel_if:
  "fold (\<lambda>k s. if P k then sel k s else s) ks s = fold sel (filter P ks) s"
  by (induction ks arbitrary: s) auto

lemma fold_rem_if:
  "fold (\<lambda>k s. if P k then rem k s else s) ks s = fold rem (filter P ks) s"
  by (induction ks arbitrary: s) auto

lemma elems_filtered_distinct:
  assumes "distinct ks"
  shows "elems (fold (\<lambda>k s. if P k then sel k s else s) ks empty_set) = filter P ks"
  using assms by (simp add: fold_sel_if elems_from_empty remdups_id_iff_distinct distinct_remdups_id)

end

interpretation os: ordered_collection newOrderedSet add remove_key has entries os_inv
  by unfold_locales
    (auto simp: distinct_entries entries_add entries_remove)

section \<open>Set algebra\<close>

lemma setFromSlice_entries [simp]:
  "os_inv (setFromSlice sli)" "entries (setFromSlice sli) = rev (remdups (rev sli))"
  using os.fold_sel [OF os_inv_new] by (simp_all add: setFromSlice_def os.elems_from_empty)

lemma iter_keys:
  assumes "os_inv s" and "iterates iter"
  shows "set (iter (map fst (iterator s))) = set (entries s)"
    and "distinct (iter (map fst (iterator s)))"
  using assms by (simp_all add: iterator_def iterates_set iterates_distinct os_inv_def set_entries)

lemma union_entries:
  assumes "os_inv s" and "iterates iter"
  shows "os_inv (union iter s t)"
    and "set (entries (union iter s t)) = set (entries s) \<inter> set (entries t)"
    and "entries (union iter s t) = filter (has t) (iter (map fst (iterator s)))"
proof -
  let ?ks = "iter (map fst (iterator s))"
  have u: "union iter s t = fold add (filter (has t) ?ks) newOrderedSet"
    by (simp only: union_def os.fold_sel_if)
  show "os_inv (union iter s t)"
    using os.fold_sel [OF os_inv_new] by (simp add: u)
  show e: "entries (union iter s t) = filter (has t) ?ks"
    using os.elems_filtered_distinct [OF iter_keys(2) [OF assms]] by (simp only: union_def)
  show "set (entries (union iter s t)) = set (entries s) \<inter> set (entries t)"
    unfolding e using iter_keys(1) [OF assms] by auto
qed

lemma exclusion_entries:
  assumes "os_inv s" and "iterates iter"
  shows "os_inv (exclusion iter s t)"
    and "set (entries (exclusion iter s t)) = set (entries s) - set (entries t)"
proof -
  let ?ks = "iter (map fst (iterator s))"
  have x: "exclusion iter s t = fold add (filter (\<lambda>k. \<not> has t k) ?ks) newOrderedSet"
    by (simp only: exclusion_def os.fold_sel_if)
  show "os_inv (exclusion iter s t)"
    using os.fold_sel [OF os_inv_new] by (simp add: x)
  have "entries (exclusion iter s t) = filter (\<lambda>k. \<not> has t k) ?ks"
    using os.elems_filtered_distinct [OF iter_keys(2) [OF assms]] by (simp only: exclusion_def)
  then show "set (entries (exclusion iter s t)) = set (entries s) - set (entries t)"
    using iter_keys(1) [OF assms] by auto
qed

lemma equal_sets_iff:
  assumes "os_inv s" "os_inv t" "iterates iter"
  shows "equal_sets iter s t \<longleftrightarrow> set (entries s) = set (entries t)"
proof -
  have "card (set (entries s)) = len s" "card (set (entries t)) = len t"
    using assms(1,2) by (metis len_entries distinct_entries distinct_card)+
  moreover have "equal_sets iter s t \<longleftrightarrow> len s = len t \<and> set (entries s) \<subseteq> set (entries t)"
    using iter_keys(1) [OF assms(1,3)]
    by (auto simp: equal_sets_def list_all_iff subset_iff)
  ultimately show ?thesis
    by (metis List.finite_set card_subset_eq order_refl)
qed

section \<open>Properties\<close>

text \<open>
  C24: Refinement of the ordered set to lists. Whatever order the map is visited in,
  \<open>orderedEntries\<close> returns the keys in insertion order: adding a new key appends it, adding a
  present key changes nothing, removing a key deletes it and keeps the others in order, and a
  set built from a slice lists each element once, at its first occurrence.
\<close>

theorem ordered_set_refines_list:
  assumes "os_inv s" and "iterates iter"
  shows "orderedEntries iter (add k s) =
      (if k \<in> set (orderedEntries iter s) then orderedEntries iter s else orderedEntries iter s @ [k]) \<and>
    orderedEntries iter (remove_key k s) = filter (\<lambda>x. x \<noteq> k) (orderedEntries iter s) \<and>
    (has s k \<longleftrightarrow> k \<in> set (orderedEntries iter s)) \<and>
    len s = length (orderedEntries iter s) \<and>
    orderedEntries iter (setFromSlice sli) = rev (remdups (rev sli))"
  using assms by (simp add: entries_add entries_remove len_entries)

lemma ordered_set_refines_list_witness:
  "orderedEntries rev (add ''b'' (setFromSlice [''c'', ''a''])) = [''c'', ''a'', ''b''] \<and>
   orderedEntries rev (remove_key ''c'' (setFromSlice [''c'', ''a''])) = [''a'']"
proof -
  note i = iterates_rev
  have s: "os_inv (setFromSlice [''c'', ''a''])" by simp
  show ?thesis
    using ordered_set_refines_list [OF s i, of "''b''" "[''c'', ''a'']"]
      ordered_set_refines_list [OF s i, of "''c''" "[''c'', ''a'']"] by simp
qed

end
