(* ===== verification/Folder.thy ===== *)
theory Folder
  imports OrderedSet
begin

text \<open>
  The expansion of folder specifications, \<open>core/folder.go\<close>: the specs of the command line are
  interpreted in order against the folders the server offers. The abstract specification is
  \<open>verdict\<close>: what one spec says of one folder; a folder is downloaded iff the last spec that
  says anything of it selects it.
\<close>

section \<open>Model\<close>

definition allSelector :: string where "allSelector = ''_ALL_''"
definition gmailSelector :: string where "gmailSelector = ''_Gmail_''"
definition removalSelector :: string where "removalSelector = ''-''"
definition gmailPrefix1 :: string where "gmailPrefix1 = ''[Gmail]''"
definition gmailPrefix2 :: string where "gmailPrefix2 = ''[Google Mail]''"

definition isGmailDir :: "string \<Rightarrow> bool" where
  "isGmailDir dirName \<longleftrightarrow> hasPrefix dirName gmailPrefix1 \<or> hasPrefix dirName gmailPrefix2"

text \<open>The body of the loop over the folder specs; logging is left out.\<close>

definition applySpec :: "string list \<Rightarrow> string \<Rightarrow> orderedSet \<Rightarrow> orderedSet" where
  "applySpec availableFolders folderSpec foldersSet =
     (if hasPrefix folderSpec removalSelector then
        (let folderSpec = trimPrefix folderSpec removalSelector in
         if folderSpec = allSelector then
           fold (\<lambda>removeMe s. remove_key removeMe s) availableFolders foldersSet
         else if folderSpec = gmailSelector then
           fold (\<lambda>removeMeCheck s.
               if isGmailDir removeMeCheck then remove_key removeMeCheck s else s)
             availableFolders foldersSet
         else remove_key (trimPrefix folderSpec removalSelector) foldersSet)
      else
        (if folderSpec = allSelector then
           fold (\<lambda>addMe s. add addMe s) availableFolders foldersSet
         else if folderSpec = gmailSelector then
           fold (\<lambda>addMeCheck s. if isGmailDir addMeCheck then add addMeCheck s else s)
             availableFolders foldersSet
         else add folderSpec foldersSet))"

definition selectFolders :: "string list \<Rightarrow> string list \<Rightarrow> orderedSet" where
  "selectFolders folderSpecs availableFolders =
     fold (applySpec availableFolders) folderSpecs newOrderedSet"

text \<open>
  \<open>expandFolders\<close> with the folders it warns about: the requested folders the server does not have
  and the expanded list. The two loops over maps each take an iteration order.
\<close>

definition unselected :: "map_iter \<Rightarrow> map_iter \<Rightarrow> string list \<Rightarrow> string list \<Rightarrow> string list" where
  "unselected iter1 iter2 folderSpecs availableFolders =
     orderedEntries iter2
       (exclusion iter1 (selectFolders folderSpecs availableFolders) (setFromSlice availableFolders))"

definition expandFolders :: "map_iter \<Rightarrow> map_iter \<Rightarrow> string list \<Rightarrow> string list \<Rightarrow> string list" where
  "expandFolders iter1 iter2 folderSpecs availableFolders =
     sort (orderedEntries iter2
       (union iter1 (selectFolders folderSpecs availableFolders) (setFromSlice availableFolders)))"

section \<open>Specification\<close>

text \<open>
  The folders a spec without its minus names, and what a single spec says of a folder:
  \<open>Some True\<close> selects it, \<open>Some False\<close> deselects it, \<open>None\<close> leaves it.
\<close>

definition targets :: "string list \<Rightarrow> string \<Rightarrow> string set" where
  "targets avail t =
     (if t = allSelector then set avail
      else if t = gmailSelector then {f \<in> set avail. isGmailDir f}
      else {t})"

definition removedBy :: "string list \<Rightarrow> string \<Rightarrow> string set" where
  "removedBy avail t =
     (if t = allSelector \<or> t = gmailSelector then targets avail t else {trimPrefix t removalSelector})"

definition verdict :: "string list \<Rightarrow> string \<Rightarrow> string \<Rightarrow> bool option" where
  "verdict avail spec f =
     (if hasPrefix spec removalSelector
      then if f \<in> removedBy avail (trimPrefix spec removalSelector) then Some False else None
      else if f \<in> targets avail spec then Some True else None)"

definition lastVerdict :: "string list \<Rightarrow> string list \<Rightarrow> string \<Rightarrow> bool option" where
  "lastVerdict avail specs f =
     fold (\<lambda>spec v. case verdict avail spec f of None \<Rightarrow> v | Some b \<Rightarrow> Some b) specs None"

section \<open>One spec, then all of them\<close>

lemma selectors_differ [simp]:
  "allSelector \<noteq> gmailSelector" "gmailSelector \<noteq> allSelector"
  by (simp_all add: allSelector_def gmailSelector_def)

lemma applySpec_step:
  assumes "os_inv s"
  shows "os_inv (applySpec avail spec s) \<and>
    (\<forall>f. f \<in> set (entries (applySpec avail spec s)) \<longleftrightarrow>
       (case verdict avail spec f of None \<Rightarrow> f \<in> set (entries s) | Some b \<Rightarrow> b))"
proof (cases "hasPrefix spec removalSelector")
  case True
  then show ?thesis using assms os.fold_rem [OF assms]
    by (simp add: applySpec_def verdict_def removedBy_def targets_def Let_def os.fold_rem_if)
next
  case False
  then show ?thesis using assms os.fold_sel [OF assms]
    by (simp add: applySpec_def verdict_def targets_def Let_def os.fold_sel_if) blast
qed

lemma selectFolders_step:
  "os_inv s \<Longrightarrow> os_inv (fold (applySpec avail) specs s) \<and>
    (\<forall>f. f \<in> set (entries (fold (applySpec avail) specs s)) \<longleftrightarrow>
       fold (\<lambda>spec v. case verdict avail spec f of None \<Rightarrow> v | Some b \<Rightarrow> Some b) specs
         (Some (f \<in> set (entries s))) = Some True)"
proof (induction specs arbitrary: s)
  case (Cons spec specs)
  have "(case verdict avail spec f of None \<Rightarrow> Some (f \<in> set (entries s)) | Some b \<Rightarrow> Some b)
      = Some (f \<in> set (entries (applySpec avail spec s)))" for f
    using applySpec_step [OF Cons.prems] by (auto split: option.splits)
  then show ?case
    using applySpec_step [OF Cons.prems] Cons.IH by simp
qed simp

lemma lastVerdict_start:
  "fold (\<lambda>spec v. case verdict avail spec f of None \<Rightarrow> v | Some b \<Rightarrow> Some b) specs (Some False)
     = Some True \<longleftrightarrow> lastVerdict avail specs f = Some True"
  by (induction specs rule: rev_induct) (auto simp: lastVerdict_def split: option.splits)

lemma selectFolders_spec:
  "os_inv (selectFolders specs avail)"
  "f \<in> set (entries (selectFolders specs avail)) \<longleftrightarrow> lastVerdict avail specs f = Some True"
  using selectFolders_step [OF os_inv_new] lastVerdict_start
  by (simp_all add: selectFolders_def)

lemma expandFolders_facts:
  assumes "iterates iter1" and "iterates iter2"
  shows "sorted (expandFolders iter1 iter2 specs avail)"
    and "distinct (expandFolders iter1 iter2 specs avail)"
    and "f \<in> set (expandFolders iter1 iter2 specs avail) \<longleftrightarrow>
      f \<in> set avail \<and> lastVerdict avail specs f = Some True"
proof -
  let ?u = "union iter1 (selectFolders specs avail) (setFromSlice avail)"
  have u: "os_inv ?u" and e: "set (entries ?u) =
      set (entries (selectFolders specs avail)) \<inter> set (entries (setFromSlice avail))"
    by (rule union_entries [OF selectFolders_spec(1) assms(1)])+
  have r: "expandFolders iter1 iter2 specs avail = sort (entries ?u)"
    by (simp only: expandFolders_def orderedEntries_entries [OF u assms(2)])
  show "sorted (expandFolders iter1 iter2 specs avail)" by (simp only: r sorted_sort)
  show "distinct (expandFolders iter1 iter2 specs avail)"
    using distinct_entries [OF u] by (simp only: r distinct_sort)
  show "f \<in> set (expandFolders iter1 iter2 specs avail) \<longleftrightarrow>
      f \<in> set avail \<and> lastVerdict avail specs f = Some True"
    using selectFolders_spec(2) by (auto simp: r e)
qed

lemmas selector_defs = allSelector_def gmailSelector_def removalSelector_def gmailPrefix1_def
  gmailPrefix2_def isGmailDir_def hasPrefix_def trimPrefix_def targets_def removedBy_def

lemma lastVerdict_snoc:
  "lastVerdict avail (specs @ [spec]) f =
     (case verdict avail spec f of None \<Rightarrow> lastVerdict avail specs f | Some b \<Rightarrow> Some b)"
  by (simp add: lastVerdict_def split: option.splits)

lemma verdict_double_minus:
  "verdict avail (''--'' @ g) f = (if f = g then Some False else None)"
  by (simp add: verdict_def selector_defs)

lemma expandFolders_ALL:
  assumes "iterates iter1" and "iterates iter2"
  shows "set (expandFolders iter1 iter2 [''_ALL_''] avail) = set avail"
  using expandFolders_facts(3) [OF assms]
  by (auto simp: lastVerdict_def verdict_def selector_defs)

section \<open>Properties\<close>



text \<open>
  The removal branch strips the minus twice. A spec made of a minus and the name of a folder
  that itself begins with a minus therefore leaves that folder selected, and deselects the folder
  named without the minus instead.
\<close>

theorem removal_trims_minus_twice:
  assumes "iterates iter1" and "iterates iter2"
  shows "(''-'' @ g \<in> set (expandFolders iter1 iter2 (specs @ [''-'' @ ''-'' @ g]) avail) \<longleftrightarrow>
      ''-'' @ g \<in> set (expandFolders iter1 iter2 specs avail)) \<and>
    g \<notin> set (expandFolders iter1 iter2 (specs @ [''-'' @ ''-'' @ g]) avail)"
  using verdict_double_minus [of avail g]
  by (simp add: expandFolders_facts(3) [OF assms] lastVerdict_snoc)

lemma removal_trims_minus_twice_witness:
  "''-foo'' \<in> set (expandFolders rev (\<lambda>ks. ks) [''_ALL_'', ''--foo''] [''-foo'', ''foo'']) \<and>
   ''foo'' \<notin> set (expandFolders rev (\<lambda>ks. ks) [''_ALL_'', ''--foo''] [''-foo'', ''foo''])"
  using removal_trims_minus_twice [OF iterates_rev iterates_id, where g = "''foo''"
      and specs = "[''_ALL_'']" and avail = "[''-foo'', ''foo'']"]
    expandFolders_ALL [OF iterates_rev iterates_id, of "[''-foo'', ''foo'']"]
  by simp

end
