(* ===== verification/Threading.thy ===== *)
theory Threading
  imports Prelude
begin

text \<open>
  The lock-protected helpers of \<open>core/threading.go\<close>: an error collector and a counter, and the
  queryable \<open>once\<close> of \<open>core/imap_client.go\<close>. Every method holds the mutex from its first to its
  last statement, so each call is one atomic step, and concurrent use is an interleaving of such
  steps. The interface \<open>error_sink\<close> is what the download threads rely on.
\<close>

section \<open>Error collector and counter\<close>

record threadSafeErrors =
  errs :: "gerr list"
  verbose :: bool

definition errs_add :: "gerr option \<Rightarrow> threadSafeErrors \<Rightarrow> threadSafeErrors" where
  "errs_add err t = (case err of None \<Rightarrow> t | Some e \<Rightarrow> t\<lparr>errs := errs t @ [e]\<rparr>)"

definition errs_bad :: "threadSafeErrors \<Rightarrow> bool" where
  "errs_bad t \<longleftrightarrow> length (errs t) \<noteq> 0"

definition errs_err :: "threadSafeErrors \<Rightarrow> gerr option" where
  "errs_err t =
     (if length (errs t) = 0 then None
      else Some (showNat (length (errs t)) @ '' errors detected: '' @ joinWith '', '' (errs t)))"

record threadSafeCounter =
  count :: nat

definition counter_inc :: "threadSafeCounter \<Rightarrow> threadSafeCounter \<times> nat" where
  "counter_inc t = (let t = t\<lparr>count := count t + 1\<rparr> in (t, count t))"

definition counter_get :: "threadSafeCounter \<Rightarrow> nat" where
  "counter_get t = count t"

section \<open>The type \<open>once\<close>\<close>

text \<open>
  \<open>called\<close> is the queryable flag, \<open>doneBy\<close> the state of the embedded \<open>sync.Once\<close>; the hook acts on a
  state \<open>'h\<close> (for the retrieval stage, the counter of the wait group).
\<close>

record 'h once =
  called :: bool
  doneBy :: bool
  hookState :: 'h

definition newOnce :: "'h \<Rightarrow> 'h once" where
  "newOnce h = \<lparr>called = False, doneBy = False, hookState = h\<rparr>"

definition once_call :: "('h \<Rightarrow> 'h) \<Rightarrow> 'h once \<Rightarrow> 'h once" where
  "once_call hook o1 =
     (if doneBy o1 then o1
      else o1\<lparr>called := True, doneBy := True, hookState := hook (hookState o1)\<rparr>)"

section \<open>The interface of an error collector\<close>

locale error_sink =
  fixes put :: "gerr option \<Rightarrow> 's \<Rightarrow> 's"
    and isbad :: "'s \<Rightarrow> bool"
    and seen :: "'s \<Rightarrow> gerr list"
  assumes seen_None: "seen (put None s) = seen s"
    and seen_Some: "seen (put (Some e) s) = seen s @ [e]"
    and isbad_seen: "isbad s \<longleftrightarrow> seen s \<noteq> []"
begin

lemma seen_fold: "seen (fold put es s) = seen s @ somes es"
  by (induction es arbitrary: s rule: somes.induct) (simp_all add: seen_None seen_Some)

lemma bad_fold: "isbad (fold put es s) \<longleftrightarrow> isbad s \<or> (\<exists>e. Some e \<in> set es)"
  by (simp add: isbad_seen seen_fold flip: set_empty)

lemma bad_sticky: "isbad s \<Longrightarrow> isbad (fold put es s)"
  by (simp add: bad_fold)

text \<open>
  Two threads report concurrently: whatever the interleaving, the collector ends up with the
  errors of both, each thread's in its own order.
\<close>

lemma seen_interleaved:
  "zs \<in> shuffles xs ys \<Longrightarrow>
    \<exists>r \<in> shuffles (somes xs) (somes ys). seen (fold put zs s) = seen s @ r"
  by (auto simp: seen_fold dest: somes_shuffles)

end

interpretation es: error_sink errs_add errs_bad errs
  by unfold_locales (auto simp: errs_add_def errs_bad_def)

section \<open>Properties\<close>

text \<open>
  Concurrent error collection loses nothing. For any interleaving of the errors two
  goroutines add, the final error is nil iff neither reported one, and otherwise its text counts
  the reported errors and lists all of them, each goroutine's in its order.
\<close>

theorem errors_interleaving:
  assumes "zs \<in> shuffles xs ys"
  shows "\<exists>r \<in> shuffles (somes xs) (somes ys).
    errs_err (fold errs_add zs \<lparr>errs = [], verbose = v\<rparr>) =
      (if r = [] then None
       else Some (showNat (length (somes xs) + length (somes ys)) @ '' errors detected: '' @
         joinWith '', '' r))"
proof -
  obtain r where r: "r \<in> shuffles (somes xs) (somes ys)"
    "errs (fold errs_add zs \<lparr>errs = [], verbose = v\<rparr>) = r"
    using es.seen_interleaved [OF assms, of "\<lparr>errs = [], verbose = v\<rparr>"] by auto
  with length_shuffles [OF r(1)] show ?thesis
    by (intro bexI [OF _ r(1)]) (auto simp: errs_err_def)
qed

lemma errors_interleaving_witness:
  "[Some ''a'', None, Some ''b''] \<in> shuffles [Some ''a'', None] [Some ''b''] \<and>
   errs_err (fold errs_add [Some ''a'', None, Some ''b''] \<lparr>errs = [], verbose = True\<rparr>) \<noteq> None"
proof -
  have h: "[Some ''a'', None, Some ''b''] \<in> shuffles [Some ''a'', None] [Some ''b'']"
    by (simp add: Cons_in_shuffles_iff)
  show ?thesis using h errors_interleaving [OF h, of True] by (auto split: if_splits)
qed

text \<open>
  The hook of \<open>once\<close> runs exactly once however often and from whatever goroutine it is
  called, and \<open>called\<close> is set from the first call on.
\<close>

theorem once_runs_exactly_once:
  "(once_call hook ^^ n) (newOnce h) =
     (if n = 0 then newOnce h else \<lparr>called = True, doneBy = True, hookState = hook h\<rparr>)"
proof (induction n)
  case (Suc n)
  then show ?case by (simp add: once_call_def newOnce_def)
qed simp

end
