(* ===== verification/Interrupt.thy ===== *)
theory Interrupt
  imports Prelude
begin

text \<open>
  The interrupt handler of \<open>core/interrupt.go\<close>. Every method holds the mutex of the handler while
  it runs. All but \<open>wait\<close> never block while they hold it and are single steps here; \<open>wait\<close> is two
  steps, entering (it takes the mutex) and leaving (it has received a signal and releases it).
\<close>

section \<open>Model\<close>

text \<open>
  \<open>channel\<close> is nil or a channel whose buffer holds the signals not yet received; \<open>locked\<close> says that a
  goroutine blocked in \<open>wait\<close> holds the mutex.
\<close>

record interrupter =
  signals :: "string list"
  channel :: "string list option"
  locked :: bool

definition register :: "interrupter \<Rightarrow> interrupter" where
  "register i = i\<lparr>channel := Some []\<rparr>"

definition deregisterNoLock :: "interrupter \<Rightarrow> interrupter" where
  "deregisterNoLock i = i\<lparr>channel := None\<rparr>"

definition deregister :: "interrupter \<Rightarrow> interrupter" where
  "deregister i = deregisterNoLock i"

definition interrupted :: "interrupter \<Rightarrow> interrupter \<times> bool" where
  "interrupted i =
     (case channel i of
        None \<Rightarrow> (i, True)
      | Some (sig # _) \<Rightarrow> (deregisterNoLock i, True)
      | Some [] \<Rightarrow> (i, False))"

definition wait_enter :: "interrupter \<Rightarrow> interrupter" where
  "wait_enter i = i\<lparr>locked := True\<rparr>"

text \<open>Receiving from an empty channel, or from a nil one, blocks: no result.\<close>

definition wait_leave :: "interrupter \<Rightarrow> interrupter option" where
  "wait_leave i =
     (case channel i of
        Some (sig # _) \<Rightarrow> Some ((deregisterNoLock i)\<lparr>locked := False\<rparr>)
      | _ \<Rightarrow> None)"

definition newInterruptOps :: "string list \<Rightarrow> interrupter" where
  "newInterruptOps sigs = register \<lparr>signals = sigs, channel = None, locked = False\<rparr>"

text \<open>
  What package \<open>os/signal\<close> does when a signal arrives: it is put into the channel of a registered
  handler that asked for it, without ever blocking: if the buffer is full, the signal is dropped.
\<close>

definition notify :: "string \<Rightarrow> interrupter \<Rightarrow> interrupter" where
  "notify sig i =
     (case channel i of
        None \<Rightarrow> i
      | Some q \<Rightarrow> if sig \<in> set (signals i) \<and> length q < length (signals i)
                  then i\<lparr>channel := Some (q @ [sig])\<rparr> else i)"

text \<open>
  The steps several goroutines and the signal package can make on one handler. A method other than
  the one that holds the mutex can only start when the mutex is free.
\<close>

inductive istep :: "interrupter \<Rightarrow> interrupter \<Rightarrow> bool" where
  signal: "istep i (notify sig i)"
| deregister: "\<not> locked i \<Longrightarrow> istep i (deregister i)"
| interrupted: "\<not> locked i \<Longrightarrow> interrupted i = (i', b) \<Longrightarrow> istep i i'"
| wait_enter: "\<not> locked i \<Longrightarrow> istep i (wait_enter i)"
| wait_leave: "locked i \<Longrightarrow> wait_leave i = Some i' \<Longrightarrow> istep i i'"

section \<open>The interface: a source of interrupts that is polled\<close>

locale interrupt_source =
  fixes poll :: "'s \<Rightarrow> 's \<times> bool" and raised :: "'s \<Rightarrow> bool"
  assumes poll_result: "snd (poll s) = raised s"
    and poll_raised: "raised (fst (poll s)) = raised s"
    and poll_idle: "\<not> raised s \<Longrightarrow> fst (poll s) = s"
begin

fun polls :: "nat \<Rightarrow> 's \<Rightarrow> 's \<times> bool list" where
  "polls 0 s = (s, [])"
| "polls (Suc n) s = (let (s1, b) = poll s; (s2, bs) = polls n s1 in (s2, b # bs))"

lemma polls_agree: "snd (polls n s) = replicate n (raised s)"
  by (induction n arbitrary: s)
    (auto simp: Let_def case_prod_unfold poll_result poll_raised)

end

definition raisedSignal :: "interrupter \<Rightarrow> bool" where
  "raisedSignal i \<longleftrightarrow> channel i \<noteq> Some []"

lemma interrupted_simps:
  "channel i = None \<Longrightarrow> interrupted i = (i, True)"
  "channel i = Some (sig # q) \<Longrightarrow> interrupted i = (deregisterNoLock i, True)"
  "channel i = Some [] \<Longrightarrow> interrupted i = (i, False)"
  by (simp_all add: interrupted_def)

interpretation intr: interrupt_source interrupted raisedSignal
  by unfold_locales
    (auto simp: interrupted_def raisedSignal_def deregisterNoLock_def split: option.split list.split)

section \<open>Properties\<close>

lemma raised_notify: "raisedSignal i \<Longrightarrow> raisedSignal (notify sig i)"
  by (auto simp: raisedSignal_def notify_def split: option.splits if_splits)

lemma raised_step: "istep i j \<Longrightarrow> raisedSignal i \<Longrightarrow> raisedSignal j"
proof (induction rule: istep.induct)
  case (signal i sig)
  then show ?case by (rule raised_notify)
next
  case (interrupted i i' b)
  then show ?case using intr.poll_raised [of i] by simp
qed (auto simp: raisedSignal_def deregister_def deregisterNoLock_def wait_enter_def
    wait_leave_def split: option.splits list.splits)

text \<open>
  An interrupt is never lost and never taken back: from the moment one of the signals the handler
  was created for has arrived, or the handler was deregistered, every later call of
  \<open>interrupted\<close>, by whatever goroutine and after whatever other calls and signals, reports it.
\<close>

theorem interrupt_is_sticky:
  assumes "istep\<^sup>*\<^sup>* (newInterruptOps sigs) i" and "sig \<in> set sigs"
    and "istep\<^sup>*\<^sup>* (notify sig i) j"
  shows "snd (interrupted j) = True"
proof -
  have s: "signals i = sigs \<and> (\<forall>q. channel i = Some q \<longrightarrow> length q \<le> length sigs)"
    using assms(1)
  proof (induction rule: rtranclp_induct)
    case base
    show ?case by (simp add: newInterruptOps_def register_def)
  next
    case (step i j)
    from step(2,3) show ?case
      by (induction rule: istep.induct)
        (auto simp: notify_def deregister_def deregisterNoLock_def wait_enter_def wait_leave_def
          interrupted_def split: option.splits list.splits)
  qed
  have "raisedSignal (notify sig i)"
    using s assms(2) by (cases "channel i") (auto simp: raisedSignal_def notify_def)
  with assms(3) have "raisedSignal j"
    by (induction rule: rtranclp_induct) (auto intro: raised_step)
  then show ?thesis by (simp add: intr.poll_result)
qed

lemma interrupt_is_sticky_witness:
  "snd (interrupted (deregister (notify ''interrupt'' (newInterruptOps [''interrupt''])))) = True"
proof -
  let ?i = "newInterruptOps [''interrupt'']"
  have "istep (notify ''interrupt'' ?i) (deregister (notify ''interrupt'' ?i))"
    by (rule istep.deregister) (simp add: notify_def newInterruptOps_def register_def)
  then show ?thesis
    by (intro interrupt_is_sticky [of "[''interrupt'']" ?i "''interrupt''"]) auto
qed

text \<open>
  \<open>wait\<close> blocks every other method, although the comment in it says that it waits without the
  lock: while a goroutine waits and no signal has arrived, the only step left to anyone is the arrival
  of a signal, and after \<open>deregister\<close> a call of \<open>wait\<close> never returns, whatever signals arrive.
\<close>

theorem wait_holds_the_lock:
  "(\<forall>i j. channel i = Some [] \<longrightarrow> istep (wait_enter i) j \<longrightarrow> (\<exists>sig. j = notify sig (wait_enter i))) \<and>
   (\<forall>i j. istep\<^sup>*\<^sup>* (wait_enter (deregister i)) j \<longrightarrow> j = wait_enter (deregister i))"
proof (intro conjI allI impI)
  fix i j assume "channel i = Some []" "istep (wait_enter i) j"
  then show "\<exists>sig. j = notify sig (wait_enter i)"
    by (auto elim!: istep.cases simp: wait_enter_def wait_leave_def)
next
  fix i j assume "istep\<^sup>*\<^sup>* (wait_enter (deregister i)) j"
  then show "j = wait_enter (deregister i)"
    by (induction rule: rtranclp_induct)
      (auto elim!: istep.cases simp: notify_def wait_leave_def wait_enter_def deregister_def
        deregisterNoLock_def)
qed

lemma wait_holds_the_lock_witness:
  "istep (wait_enter (newInterruptOps [''interrupt''])) (notify ''interrupt'' (wait_enter (newInterruptOps [''interrupt'']))) \<and>
   (\<exists>sig. notify ''interrupt'' (wait_enter (newInterruptOps [''interrupt''])) =
      notify sig (wait_enter (newInterruptOps [''interrupt''])))"
proof -
  let ?i = "newInterruptOps [''interrupt'']"
  have s: "istep (wait_enter ?i) (notify ''interrupt'' (wait_enter ?i))" by (rule istep.signal)
  moreover have "channel ?i = Some []" by (simp add: newInterruptOps_def register_def)
  ultimately show ?thesis using wait_holds_the_lock by blast
qed

end
