(* ===== verification/Ids.thy ===== *)
theory Ids
  imports Prelude
begin

text \<open>
  Message identifiers: the types \<open>uid\<close>, \<open>uidFolder\<close>, \<open>uidExt\<close> of \<open>core/imap_client.go\<close>, the record
  \<open>oldmail\<close> of \<open>core/oldmail.go\<close>, and the decision which messages to download of \<open>core/ids.go\<close>.
  Identifiers are Go \<open>int\<close>s and kept at 64 bits.
\<close>

section \<open>Model\<close>

type_synonym uid = goint
type_synonym uidFolder = goint

record uidExt =
  ue_folder :: uidFolder
  ue_msg :: uid

record oldmail =
  om_uidFolder :: uidFolder
  om_uid :: uid
  om_timestamp :: goint

definition uidExt_String :: "uidExt \<Rightarrow> string" where
  "uidExt_String u = showGoint (ue_folder u) @ ''/'' @ showGoint (ue_msg u)"

definition inconsistentRetrieved :: gerr where
  "inconsistentRetrieved = ''inconsistent UID validity on retrieved data''"

definition inconsistentStored :: gerr where
  "inconsistentStored = ''inconsistent UID validity on stored data''"

text \<open>
  The two loops that check the UID validity return on the first disagreement; the set of known
  UIDs is a Go map used as a set.
\<close>

definition determineMissingUIDs :: "oldmail list \<Rightarrow> uidExt list \<Rightarrow> uid list res" where
  "determineMissingUIDs oldmails uids =
     (case uids of [] \<Rightarrow> Ok []
      | u0 # _ \<Rightarrow>
        let uidFolder = ue_folder u0 in
        if list_ex (\<lambda>m. ue_folder m \<noteq> uidFolder) uids then Err inconsistentRetrieved
        else if list_ex (\<lambda>m. om_uidFolder m \<noteq> uidFolder) oldmails then Err inconsistentStored
        else
          let oldmailUIDs = fold (\<lambda>m known. insert (om_uid m) known) oldmails {} in
          Ok (fold (\<lambda>m missingUIDs.
                if ue_msg m \<notin> oldmailUIDs then missingUIDs @ [ue_msg m] else missingUIDs) uids []))"

section \<open>Lemmas\<close>

lemma fold_known: "fold (\<lambda>m known. insert (om_uid m) known) oldmails S = om_uid ` set oldmails \<union> S"
  by (induction oldmails arbitrary: S) auto

lemma fold_missing:
  "fold (\<lambda>m missing. if P (ue_msg m) then missing @ [ue_msg m] else missing) uids acc
     = acc @ filter P (map ue_msg uids)"
  by (induction uids arbitrary: acc) auto

definition oneValidity :: "oldmail list \<Rightarrow> uidExt list \<Rightarrow> bool" where
  "oneValidity oldmails uids \<longleftrightarrow>
     (\<exists>v. (\<forall>u \<in> set uids. ue_folder u = v) \<and> (\<forall>m \<in> set oldmails. om_uidFolder m = v))"

lemma determineMissingUIDs_eq:
  "determineMissingUIDs oldmails uids =
     (if uids = [] then Ok []
      else if list_ex (\<lambda>u. ue_folder u \<noteq> ue_folder (hd uids)) uids then Err inconsistentRetrieved
      else if list_ex (\<lambda>m. om_uidFolder m \<noteq> ue_folder (hd uids)) oldmails then Err inconsistentStored
      else Ok (filter (\<lambda>u. u \<notin> om_uid ` set oldmails) (map ue_msg uids)))"
proof (cases uids)
  case (Cons u us)
  then show ?thesis
    using fold_missing [of "\<lambda>m. m \<notin> om_uid ` set oldmails" uids "[]"]
    by (simp add: determineMissingUIDs_def fold_known Let_def)
qed (simp add: determineMissingUIDs_def)

section \<open>Properties\<close>

text \<open>
  C18: The emails to download are exactly the server's emails that the oldmail file does not list,
  in the server's order and with its multiplicities; the call fails exactly when the folder is
  not empty and the UID validities involved do not all agree. It never panics.
\<close>

theorem determineMissingUIDs_spec:
  "(determineMissingUIDs oldmails uids = Ok ms \<longleftrightarrow>
     (uids = [] \<or> oneValidity oldmails uids) \<and>
     ms = filter (\<lambda>u. u \<notin> om_uid ` set oldmails) (map ue_msg uids)) \<and>
   ((\<exists>e. determineMissingUIDs oldmails uids = Err e) \<longleftrightarrow> uids \<noteq> [] \<and> \<not> oneValidity oldmails uids) \<and>
   determineMissingUIDs oldmails uids \<noteq> Panic p"
proof -
  have v: "oneValidity oldmails uids \<longleftrightarrow>
      \<not> list_ex (\<lambda>u. ue_folder u \<noteq> ue_folder (hd uids)) uids \<and>
      \<not> list_ex (\<lambda>m. om_uidFolder m \<noteq> ue_folder (hd uids)) oldmails" if "uids \<noteq> []"
    unfolding oneValidity_def using hd_in_set [OF that] by (auto simp: list_ex_iff)
  show ?thesis
  proof (cases "uids = []")
    case False
    then show ?thesis by (cases "oneValidity oldmails uids") (auto simp: determineMissingUIDs_eq v [OF False])
  qed (auto simp: determineMissingUIDs_eq)
qed

end
