(* ===== verification/Email.thy ===== *)
theory Email
  imports Ids
begin

text \<open>
  Extraction of an email from a server reply, \<open>core/email.go\<close>. The reply is the list of
  \<open>interface{}\<close> values \<open>Format()\<close> of the IMAP library returns; the type switch of \<open>email.set\<close>
  distinguishes the constructors of \<open>field\<close>.
\<close>

section \<open>Model\<close>

text \<open>
  \<open>FTime\<close> carries the Unix time of a \<open>time.Time\<close>; \<open>FOther\<close> any other value by what \<open>fmt.Sprint\<close>
  and the verb \<open>%s\<close> print of it.
\<close>

datatype field = FUint32 u32 | FTime goint | FRawString string | FOther string string

record email =
  em_uid :: uid
  em_timestamp :: goint
  rfc822 :: string
  setUID :: bool
  setTimestamp :: bool
  setRFC822 :: bool
  seenHeader :: bool

definition emptyEmail :: email where
  "emptyEmail = \<lparr>em_uid = 0, em_timestamp = 0, rfc822 = [], setUID = False,
     setTimestamp = False, setRFC822 = False, seenHeader = False\<rparr>"

fun email_set :: "email \<Rightarrow> field \<Rightarrow> email res" where
  "email_set e (FUint32 concrete) =
     (if setUID e then Err ''UID already set''
      else Ok (e\<lparr>em_uid := ucast concrete, setUID := True\<rparr>))"
| "email_set e (FTime concrete) =
     (if setTimestamp e then Err ''timestamp already set''
      else Ok (e\<lparr>em_timestamp := concrete, setTimestamp := True\<rparr>))"
| "email_set e (FRawString _) = Ok e"
| "email_set e (FOther sprint concrete) =
     (if \<not> seenHeader e then
        (if \<not> contains (toLower sprint) ''rfc822''
         then Err (''rfc822 header not found or with unexpected content: '' @ concrete)
         else Ok (e\<lparr>seenHeader := True\<rparr>))
      else if setRFC822 e then Err ''rfc822 already set''
      else Ok (e\<lparr>rfc822 := sprint, setRFC822 := True\<rparr>))"

definition validate :: "email \<Rightarrow> bool" where
  "validate e \<longleftrightarrow> setUID e \<and> setTimestamp e \<and> setRFC822 e"

definition email_String :: "email \<Rightarrow> string" where
  "email_String e = rfc822 e"

fun set_all :: "email \<Rightarrow> field list \<Rightarrow> email res" where
  "set_all e [] = Ok e"
| "set_all e (f # fs) =
     (case email_set e f of
        Ok e' \<Rightarrow> set_all e' fs
      | Err x \<Rightarrow> Err (''cannot extract email data: '' @ x)
      | Panic p \<Rightarrow> Panic p)"

definition rfc822ExpectedNumFields :: nat where
  "rfc822ExpectedNumFields = 6"

definition rfc822FromEmail :: "field list \<Rightarrow> uidFolder \<Rightarrow> (string \<times> oldmail) res" where
  "rfc822FromEmail fs uidFolder =
     (if length fs \<noteq> rfc822ExpectedNumFields
      then Err ''cannot extract required rfc822 fields from email''
      else case set_all emptyEmail fs of
          Err x \<Rightarrow> Err x
        | Panic p \<Rightarrow> Panic p
        | Ok e \<Rightarrow>
            if \<not> validate e then Err ''cannot extract full email from reply''
            else Ok (email_String e,
              \<lparr>om_uidFolder = uidFolder, om_uid = em_uid e, om_timestamp = em_timestamp e\<rparr>))"

section \<open>What the reply must contain\<close>

definition uints :: "field list \<Rightarrow> u32 list" where
  "uints fs = List.map_filter (\<lambda>f. case f of FUint32 u \<Rightarrow> Some u | _ \<Rightarrow> None) fs"

definition times :: "field list \<Rightarrow> goint list" where
  "times fs = List.map_filter (\<lambda>f. case f of FTime t \<Rightarrow> Some t | _ \<Rightarrow> None) fs"

definition others :: "field list \<Rightarrow> string list" where
  "others fs = List.map_filter (\<lambda>f. case f of FOther s _ \<Rightarrow> Some s | _ \<Rightarrow> None) fs"

lemma selectors_simps [simp]:
  "uints [] = []" "times [] = []" "others [] = []"
  "uints (f # fs) = (case f of FUint32 u \<Rightarrow> u # uints fs | _ \<Rightarrow> uints fs)"
  "times (f # fs) = (case f of FTime t \<Rightarrow> t # times fs | _ \<Rightarrow> times fs)"
  "others (f # fs) = (case f of FOther s _ \<Rightarrow> s # others fs | _ \<Rightarrow> others fs)"
  by (simp_all add: uints_def times_def others_def List.map_filter_simps split: field.splits)

definition isHeader :: "string \<Rightarrow> bool" where
  "isHeader s \<longleftrightarrow> contains (toLower s) ''rfc822''"

text \<open>
  What the loop still accepts from an intermediate email: at most one UID and one timestamp in
  total, a header before anything else, at most one body.
\<close>

definition accepts :: "email \<Rightarrow> field list \<Rightarrow> bool" where
  "accepts e fs \<longleftrightarrow>
     (length (uints fs) \<le> (if setUID e then 0 else 1)) \<and>
     (length (times fs) \<le> (if setTimestamp e then 0 else 1)) \<and>
     (if seenHeader e then length (others fs) \<le> (if setRFC822 e then 0 else 1)
      else others fs = [] \<or> isHeader (hd (others fs)) \<and>
        length (others fs) \<le> (if setRFC822 e then 1 else 2))"

definition result :: "email \<Rightarrow> field list \<Rightarrow> email" where
  "result e fs =
     (let bodies = (if seenHeader e then others fs else tl (others fs)) in
      e\<lparr>em_uid := (case uints fs of u # _ \<Rightarrow> ucast u | [] \<Rightarrow> em_uid e),
        em_timestamp := (case times fs of t # _ \<Rightarrow> t | [] \<Rightarrow> em_timestamp e),
        rfc822 := (case bodies of b # _ \<Rightarrow> b | [] \<Rightarrow> rfc822 e),
        setUID := setUID e \<or> uints fs \<noteq> [],
        setTimestamp := setTimestamp e \<or> times fs \<noteq> [],
        setRFC822 := setRFC822 e \<or> bodies \<noteq> [],
        seenHeader := seenHeader e \<or> others fs \<noteq> []\<rparr>)"

lemma set_all_iff: "set_all e fs = Ok e' \<longleftrightarrow> accepts e fs \<and> e' = result e fs"
proof (induction fs arbitrary: e)
  case Nil
  then show ?case by (auto simp: accepts_def result_def)
next
  case (Cons f fs)
  show ?case
    by (cases f) (auto simp: Cons.IH accepts_def result_def isHeader_def Let_def split: list.splits)
qed

lemma set_all_no_panic: "set_all e fs \<noteq> Panic p"
proof (induction fs arbitrary: e)
  case (Cons f fs)
  have "email_set e f \<noteq> Panic q" for q by (cases f) simp_all
  then show ?case using Cons.IH by (auto split: res.splits)
qed simp

lemma complete_iff:
  "accepts emptyEmail fs \<and> validate (result emptyEmail fs) \<longleftrightarrow>
    (\<exists>u tm h b. uints fs = [u] \<and> times fs = [tm] \<and> others fs = [h, b] \<and> isHeader h)"
  by (cases "uints fs"; cases "times fs"; cases "others fs"; cases "tl (others fs)")
    (auto simp: accepts_def validate_def result_def emptyEmail_def Let_def le_Suc_eq)

lemma rfc822FromEmail_iff:
  "rfc822FromEmail fs uf = Ok (t, om) \<longleftrightarrow>
     length fs = 6 \<and>
     (\<exists>u tm h. uints fs = [u] \<and> times fs = [tm] \<and> others fs = [h, t] \<and> isHeader h \<and>
       om = \<lparr>om_uidFolder = uf, om_uid = ucast u, om_timestamp = tm\<rparr>)"
proof -
  have "rfc822FromEmail fs uf = Ok (t, om) \<longleftrightarrow> length fs = 6 \<and>
      (accepts emptyEmail fs \<and> validate (result emptyEmail fs)) \<and>
      t = rfc822 (result emptyEmail fs) \<and>
      om = \<lparr>om_uidFolder = uf, om_uid = em_uid (result emptyEmail fs),
        om_timestamp = em_timestamp (result emptyEmail fs)\<rparr>"
  proof (cases "accepts emptyEmail fs")
    case True
    then have "set_all emptyEmail fs = Ok (result emptyEmail fs)" by (simp add: set_all_iff)
    with True show ?thesis
      by (auto simp: rfc822FromEmail_def rfc822ExpectedNumFields_def email_String_def)
  next
    case False
    then have "set_all emptyEmail fs \<noteq> Ok e" for e by (simp add: set_all_iff)
    with False show ?thesis by (auto simp: rfc822FromEmail_def split: res.splits)
  qed
  also have "\<dots> \<longleftrightarrow> length fs = 6 \<and>
     (\<exists>u tm h. uints fs = [u] \<and> times fs = [tm] \<and> others fs = [h, t] \<and> isHeader h \<and>
       om = \<lparr>om_uidFolder = uf, om_uid = ucast u, om_timestamp = tm\<rparr>)"
    unfolding complete_iff by (auto simp: result_def emptyEmail_def Let_def)
  finally show ?thesis .
qed

section \<open>Properties\<close>

text \<open>
  C31: An email is extracted from a reply iff the reply has exactly six values, among them exactly
  one UID, one date, a header that names RFC 822 and one body after it, in whatever order they
  are mixed; the result is the body with the oldmail entry of that UID, date and folder. The
  extraction never panics.
\<close>

theorem rfc822FromEmail_spec:
  "(rfc822FromEmail fs uf = Ok (t, om) \<longleftrightarrow>
     length fs = 6 \<and>
     (\<exists>u tm h. uints fs = [u] \<and> times fs = [tm] \<and> others fs = [h, t] \<and> isHeader h \<and>
       om = \<lparr>om_uidFolder = uf, om_uid = ucast u, om_timestamp = tm\<rparr>)) \<and>
   rfc822FromEmail fs uf \<noteq> Panic p"
proof -
  have "rfc822FromEmail fs uf \<noteq> Panic p"
    using set_all_no_panic [of emptyEmail fs] by (auto simp: rfc822FromEmail_def split: res.splits)
  then show ?thesis using rfc822FromEmail_iff by blast
qed

end
