(* ===== verification/Scan.thy ===== *)
theory Scan
  imports Prelude
begin

text \<open>
  The parts of Go's standard library that read text: \<open>fmt.Sscanf\<close> and \<open>fmt.Sprintf\<close> for formats
  made of the verb \<open>%d\<close>, literal bytes and newlines, and \<open>bufio.Scanner\<close> splitting its input
  into lines. Input beyond ASCII is treated bytewise: no such byte is a space or a digit.
\<close>

section \<open>Formats\<close>

datatype fitem = FD | FLit char | FNewline

text \<open>A format text as the list of its items; other verbs than \<open>%d\<close> do not occur.\<close>

fun parseFormat :: "string \<Rightarrow> fitem list" where
  "parseFormat [] = []"
| "parseFormat [c] = [if c = nl then FNewline else FLit c]"
| "parseFormat (c # d # cs) =
     (if c = CHR ''%'' \<and> d = CHR ''d'' then FD # parseFormat cs
      else (if c = nl then FNewline else FLit c) # parseFormat (d # cs))"

text \<open>\<open>fmt.Sprintf\<close> with 64-bit integers; missing operands do not occur.\<close>

fun sprintf :: "fitem list \<Rightarrow> goint list \<Rightarrow> string" where
  "sprintf [] vs = []"
| "sprintf (FLit c # fs) vs = c # sprintf fs vs"
| "sprintf (FNewline # fs) vs = nl # sprintf fs vs"
| "sprintf (FD # fs) (v # vs) = showGoint v @ sprintf fs vs"
| "sprintf (FD # fs) [] = ''%!d(MISSING)'' @ sprintf fs []"

section \<open>\<open>fmt.Sscanf\<close>\<close>

definition isBlank :: "char \<Rightarrow> bool" where
  "isBlank c \<longleftrightarrow> c \<in> {CHR 0x09, CHR 0x0B, CHR 0x0C, CHR 0x0D, CHR '' ''}"

text \<open>Before a number blanks are skipped; a newline there is an error.\<close>

fun skipSpace :: "string \<Rightarrow> gerr + string" where
  "skipSpace [] = Inr []"
| "skipSpace (c # s) =
     (if c = nl then Inl ''unexpected newline''
      else if isBlank c then skipSpace s
      else Inr (c # s))"

definition inRange :: "int \<Rightarrow> bool" where
  "inRange i \<longleftrightarrow> - (2 ^ 63) \<le> i \<and> i < 2 ^ 63"

text \<open>An optional sign and the longest run of digits, which has to fit 64 bits.\<close>

definition scanInt :: "string \<Rightarrow> gerr + (goint \<times> string)" where
  "scanInt s =
     (case skipSpace s of
        Inl e \<Rightarrow> Inl e
      | Inr [] \<Rightarrow> Inl ''EOF''
      | Inr (c # t) \<Rightarrow>
          let (neg, ds) = (if c = CHR ''-'' then (True, t)
                           else if c = CHR ''+'' then (False, t) else (False, c # t));
              num = takeWhile isDigit ds; rest = dropWhile isDigit ds;
              v = (if neg then - int (readNat num) else int (readNat num))
          in if num = [] then Inl ''expected integer''
             else if \<not> inRange v then Inl ''value out of range''
             else Inr (word_of_int v, rest))"

text \<open>
  The values scanned before the first failure, and that failure. Input left over when the
  format is used up is not looked at; a newline of the format also matches the end of the input.
\<close>

fun sscanf :: "fitem list \<Rightarrow> string \<Rightarrow> goint list \<times> gerr option" where
  "sscanf [] s = ([], None)"
| "sscanf (FLit c # fs) s =
     (case s of
        [] \<Rightarrow> ([], Some ''unexpected EOF'')
      | x # xs \<Rightarrow> if x = c then sscanf fs xs else ([], Some ''input does not match format''))"
| "sscanf (FNewline # fs) s =
     (case dropWhile isBlank s of
        [] \<Rightarrow> sscanf fs []
      | x # xs \<Rightarrow> if x = nl then sscanf fs xs
                  else ([], Some ''newline in format does not match input''))"
| "sscanf (FD # fs) s =
     (case scanInt s of
        Inl e \<Rightarrow> ([], Some e)
      | Inr (v, rest) \<Rightarrow> let (vs, e) = sscanf fs rest in (v # vs, e))"

section \<open>\<open>bufio.Scanner\<close>\<close>

definition maxScanTokenSize :: nat where "maxScanTokenSize = 65536"

definition errTooLong :: gerr where "errTooLong = ''bufio.Scanner: token too long''"

definition dropCR :: "string \<Rightarrow> string" where
  "dropCR l = (if l \<noteq> [] \<and> last l = CHR 0x0D then butlast l else l)"

text \<open>
  The lines the scanner delivers, in order, and the error it ends with: it gives up on a line
  that does not fit its buffer, newline included.
\<close>

function scanLines :: "string \<Rightarrow> string list \<times> gerr option" where
  "scanLines s =
     (if s = [] then ([], None)
      else let l = takeWhile (\<lambda>c. c \<noteq> nl) s; rest = dropWhile (\<lambda>c. c \<noteq> nl) s in
        if maxScanTokenSize \<le> length l then ([], Some errTooLong)
        else if rest = [] then ([dropCR l], None)
        else let (ls, e) = scanLines (tl rest) in (dropCR l # ls, e))"
  by pat_completeness auto
termination
proof (relation "measure length", goal_cases)
  case (2 s l rest)
  then have "rest \<noteq> []" by simp
  with 2 have "length (tl rest) < length rest" "length rest \<le> length s"
    by (auto simp: length_dropWhile_le)
  then show ?case by simp
qed simp

declare scanLines.simps [simp del]

section \<open>What is printed is scanned back\<close>

text \<open>A format without newline is readable if no number in it is followed by a digit or a number.\<close>

fun readable :: "fitem list \<Rightarrow> bool" where
  "readable [] = True"
| "readable (FLit c # fs) = readable fs"
| "readable (FD # fs) =
     ((case fs of [] \<Rightarrow> True | FLit c # _ \<Rightarrow> \<not> isDigit c | _ \<Rightarrow> False) \<and> readable fs)"
| "readable (FNewline # fs) = False"

fun numbers :: "fitem list \<Rightarrow> nat" where
  "numbers [] = 0"
| "numbers (FD # fs) = Suc (numbers fs)"
| "numbers (_ # fs) = numbers fs"

lemma skipSpace_id: "c \<noteq> nl \<Longrightarrow> \<not> isBlank c \<Longrightarrow> skipSpace (c # s) = Inr (c # s)"
  by simp

lemma isDigit_facts: "isDigit c \<Longrightarrow> c \<noteq> nl \<and> \<not> isBlank c \<and> c \<noteq> CHR ''-'' \<and> c \<noteq> CHR ''+''"
  by (auto simp: isDigit_def isBlank_def)

lemma inRange_goint [simp]: "inRange (sint (w :: goint))"
  using sint_goint_range [of w] by (simp add: inRange_def)

lemma scanInt_showGoint:
  assumes "rest = [] \<or> \<not> isDigit (hd rest)"
  shows "scanInt (showGoint v @ rest) = Inr (v, rest)"
proof -
  have tw: "takeWhile isDigit (showNat n @ rest) = showNat n"
    "dropWhile isDigit (showNat n @ rest) = rest" for n
    using assms by (auto intro!: takeWhile_dropWhile_split dest: showNat_digits)
  show ?thesis
  proof (cases "sint v < 0")
    case True
    then have "showGoint v = CHR ''-'' # showNat (nat (- sint v))"
      by (simp add: showGoint_def showInt_def)
    moreover have "- int (nat (- sint v)) = sint v" using True by simp
    ultimately show ?thesis
      using tw by (simp add: scanInt_def isBlank_def)
  next
    case False
    then have s: "showGoint v = showNat (nat (sint v))" "int (nat (sint v)) = sint v"
      by (simp_all add: showGoint_def showInt_def)
    obtain c t where c: "showNat (nat (sint v)) = c # t" "isDigit c"
      by (metis list.exhaust list.set_intros(1) showNat_digits showNat_not_Nil)
    have "takeWhile isDigit (c # t @ rest) = c # t" "dropWhile isDigit (c # t @ rest) = rest"
      using tw [of "nat (sint v)"] c by simp_all
    moreover have "readNat (c # t) = nat (sint v)" using c(1) readNat_showNat by metis
    ultimately show ?thesis
      using isDigit_facts [OF c(2)] s c by (simp add: scanInt_def)
  qed
qed

lemma sscanf_sprintf:
  "readable fs \<Longrightarrow> length vs = numbers fs \<Longrightarrow> sscanf (fs @ [FNewline]) (sprintf fs vs) = (vs, None)"
proof (induction fs vs rule: sprintf.induct)
  case (4 fs v vs)
  have "sprintf fs vs = [] \<or> \<not> isDigit (hd (sprintf fs vs))"
    using "4.prems"(1) by (cases fs) (auto split: fitem.splits)
  then show ?case
    using 4 by (simp add: scanInt_showGoint)
qed auto

lemma sprintf_newline: "length vs = numbers fs \<Longrightarrow> sprintf (fs @ [FNewline]) vs = sprintf fs vs @ [nl]"
  by (induction fs vs rule: sprintf.induct) auto

section \<open>Files of lines\<close>

text \<open>
  A loop over the lines of a file that decodes each line and stops at the first failure; the
  scanner's own error is looked at after the loop.
\<close>

fun decodeLines :: "(string \<Rightarrow> gerr + 'a) \<Rightarrow> string list \<Rightarrow> gerr option \<Rightarrow> 'a list res" where
  "decodeLines dec [] e = (case e of None \<Rightarrow> Ok [] | Some x \<Rightarrow> Err x)"
| "decodeLines dec (l # ls) e =
     (case dec l of
        Inl x \<Rightarrow> Err x
      | Inr a \<Rightarrow> bind_res (decodeLines dec ls e) (\<lambda>as. Ok (a # as)))"

definition decodeFile :: "(string \<Rightarrow> gerr + 'a) \<Rightarrow> string \<Rightarrow> 'a list res" where
  "decodeFile dec s = (let (ls, e) = scanLines s in decodeLines dec ls e)"

text \<open>A text that is empty or ends with a newline.\<close>

definition complete :: "string \<Rightarrow> bool" where
  "complete s \<longleftrightarrow> s = [] \<or> last s = nl"

lemma complete_append: "complete s \<Longrightarrow> complete t \<Longrightarrow> complete (s @ t)"
  by (cases "t = []") (auto simp: complete_def)

lemma scanLines_Nil [simp]: "scanLines [] = ([], None)"
  by (simp add: scanLines.simps)

lemma scanLines_line:
  assumes "nl \<notin> set l" and "length l < maxScanTokenSize"
  shows "scanLines (l @ nl # s) = (dropCR l # fst (scanLines s), snd (scanLines s))"
proof -
  have "takeWhile (\<lambda>c. c \<noteq> nl) (l @ nl # s) = l" "dropWhile (\<lambda>c. c \<noteq> nl) (l @ nl # s) = nl # s"
    using assms(1) by (intro takeWhile_dropWhile_split; auto)+
  then show ?thesis
    using assms(2) by (simp add: scanLines.simps [of "l @ nl # s"] case_prod_unfold Let_def)
qed

lemma scanLines_long:
  assumes "nl \<notin> set l" and "maxScanTokenSize \<le> length l"
  shows "scanLines (l @ nl # s) = ([], Some errTooLong)"
proof -
  have "takeWhile (\<lambda>c. c \<noteq> nl) (l @ nl # s) = l"
    using assms(1) by (intro takeWhile_dropWhile_split; auto)
  then show ?thesis
    using assms(2) by (simp add: scanLines.simps [of "l @ nl # s"] Let_def)
qed

lemma complete_cases:
  assumes "complete s"
  obtains "s = []" | l t where "s = l @ nl # t" "nl \<notin> set l" "complete t" "length t < length s"
proof (cases "s = []")
  case False
  with assms have "nl \<in> set s" by (metis complete_def last_in_set)
  then obtain l t where s: "s = l @ nl # t" "nl \<notin> set l" by (metis split_list_first)
  with assms have "complete t" by (auto simp: complete_def split: if_splits)
  with s that(2) show ?thesis by simp
qed (use that in blast)

lemma decodeFile_append:
  assumes "complete s" and "decodeFile dec s = Ok xs"
  shows "decodeFile dec (s @ t) = bind_res (decodeFile dec t) (\<lambda>ys. Ok (xs @ ys))"
  using assms
proof (induction "length s" arbitrary: s xs rule: less_induct)
  case less
  show ?case
  proof (rule complete_cases [OF less.prems(1)])
    assume "s = []"
    with less.prems(2) show ?thesis by (cases "decodeFile dec t") (auto simp: decodeFile_def)
  next
    fix l u assume s: "s = l @ nl # u" "nl \<notin> set l" "complete u" "length u < length s"
    show ?thesis
    proof (cases "length l < maxScanTokenSize")
      case True
      then have d: "decodeFile dec (l @ nl # w) =
          (case dec (dropCR l) of Inl x \<Rightarrow> Err x
           | Inr a \<Rightarrow> bind_res (decodeFile dec w) (\<lambda>as. Ok (a # as)))" for w
        using scanLines_line [OF s(2)]
        by (simp add: decodeFile_def case_prod_unfold Let_def split: sum.split)
      obtain a ys where a: "dec (dropCR l) = Inr a" "decodeFile dec u = Ok ys" "xs = a # ys"
        using less.prems(2) by (auto simp: s(1) d split: sum.splits)
      show ?thesis
        using less.hyps [OF s(4,3) a(2)] a by (cases "decodeFile dec t") (simp_all add: s(1) d)
    next
      case False
      with less.prems(2) show ?thesis
        using scanLines_long [OF s(2)] by (simp add: decodeFile_def s(1))
    qed
  qed
qed

section \<open>The interface of a line format\<close>

locale line_codec =
  fixes enc :: "'a \<Rightarrow> string" and dec :: "string \<Rightarrow> gerr + 'a"
  assumes dec_enc: "dec (enc x) = Inr x"
    and enc_no_newline: "nl \<notin> set (enc x)"
    and enc_no_cr: "enc x = [] \<or> last (enc x) \<noteq> CHR 0x0D"
    and enc_short: "length (enc x) < maxScanTokenSize"
begin

definition file_of :: "'a list \<Rightarrow> string" where
  "file_of xs = concat (map (\<lambda>x. enc x @ [nl]) xs)"

lemma file_of_simps [simp]:
  "file_of [] = []" "file_of (x # xs) = enc x @ nl # file_of xs" "file_of (xs @ ys) = file_of xs @ file_of ys"
  by (simp_all add: file_of_def)

lemma complete_file_of: "complete (file_of xs)"
  by (induction xs rule: rev_induct) (simp_all add: complete_def)

lemma dropCR_enc [simp]: "dropCR (enc x) = enc x"
  using enc_no_cr [of x] by (auto simp: dropCR_def)

lemma decode_file_of: "decodeFile dec (file_of xs) = Ok xs"
  by (induction xs)
    (simp_all add: decodeFile_def dec_enc case_prod_unfold Let_def
      scanLines_line [OF enc_no_newline enc_short])

text \<open>Appending encoded records to any readable file of complete lines adds exactly these records.\<close>

lemma decode_append:
  "complete s \<Longrightarrow> decodeFile dec s = Ok xs \<Longrightarrow> decodeFile dec (s @ file_of ys) = Ok (xs @ ys)"
  by (simp add: decodeFile_append decode_file_of)

end

end
