(* ===== verification/Paths.thy ===== *)
theory Paths
  imports Prelude
begin

text \<open>
  Paths: \<open>filepath.Clean\<close> and \<open>filepath.Join\<close> of Go's standard library (on Unix) and the type
  \<open>maildirPathT\<close> of \<open>core/maildir_path.go\<close>. A path is cleaned to a key, the list of its
  components, with an empty first component for an absolute path; the file system model is
  indexed by keys, so that two spellings of a path name the same file.
\<close>

section \<open>Package \<open>path/filepath\<close>\<close>

fun splitSlash :: "string \<Rightarrow> string list" where
  "splitSlash [] = [[]]"
| "splitSlash (c # s) =
     (if c = CHR ''/'' then [] # splitSlash s
      else (case splitSlash s of [] \<Rightarrow> [[c]] | x # xs \<Rightarrow> (c # x) # xs))"

definition rooted :: "string \<Rightarrow> bool" where
  "rooted p \<longleftrightarrow> hasPrefix p ''/''"

text \<open>One component is taken into the (reversed) list of components kept so far.\<close>

definition clean_step :: "bool \<Rightarrow> string list \<Rightarrow> string \<Rightarrow> string list" where
  "clean_step r st c =
     (if c = [] \<or> c = ''.'' then st
      else if c = ''..'' then
        (case st of [] \<Rightarrow> if r then [] else [''..'']
         | d # st' \<Rightarrow> if d = ''..'' then ''..'' # st else st')
      else c # st)"

definition path_key :: "string \<Rightarrow> string list" where
  "path_key p = (if rooted p then [[]] else []) @ rev (foldl (clean_step (rooted p)) [] (splitSlash p))"

definition render :: "string list \<Rightarrow> string" where
  "render ks = (if ks = [] then ''.'' else if ks = [[]] then ''/'' else joinWith ''/'' ks)"

definition clean :: "string \<Rightarrow> string" where
  "clean p = render (path_key p)"

fun joinPath :: "string list \<Rightarrow> string" where
  "joinPath [] = []"
| "joinPath (e # es) = (if e \<noteq> [] then clean (joinWith ''/'' (e # es)) else joinPath es)"

section \<open>The type \<open>maildirPathT\<close>\<close>

record maildirPathT =
  base :: string
  mfolder :: string

definition basePath :: "maildirPathT \<Rightarrow> string" where
  "basePath p = clean (base p)"

definition folderPath :: "maildirPathT \<Rightarrow> string" where
  "folderPath p = joinPath [clean (base p), mfolder p]"

definition folderName :: "maildirPathT \<Rightarrow> string" where
  "folderName p = mfolder p"

section \<open>Cleaning is a projection onto keys\<close>

lemma splitSlash_not_Nil [simp]: "splitSlash s \<noteq> []"
  by (cases s) (auto split: list.split)

lemma splitSlash_append: "splitSlash (p @ CHR ''/'' # s) = splitSlash p @ splitSlash s"
  by (induction p) (auto split: list.split)

lemma splitSlash_single [simp]: "CHR ''/'' \<notin> set c \<Longrightarrow> splitSlash c = [c]"
  by (induction c) auto

lemma splitSlash_join:
  "cs \<noteq> [] \<Longrightarrow> (\<And>c. c \<in> set cs \<Longrightarrow> CHR ''/'' \<notin> set c) \<Longrightarrow> splitSlash (joinWith ''/'' cs) = cs"
proof (induction cs rule: list_nonempty_induct)
  case (cons x xs)
  then have "joinWith ''/'' (x # xs) = x @ CHR ''/'' # joinWith ''/'' xs" by (cases xs) auto
  with cons show ?case by (simp add: splitSlash_append)
qed simp

lemma splitSlash_no_slash: "c \<in> set (splitSlash p) \<Longrightarrow> CHR ''/'' \<notin> set c"
proof (induction p arbitrary: c)
  case (Cons x p)
  obtain h t where "splitSlash p = h # t" by (meson list.exhaust splitSlash_not_Nil)
  with Cons show ?case by (auto split: if_splits)
qed simp

text \<open>A component that names an entry of a directory, and the stacks cleaning produces.\<close>

definition proper :: "string \<Rightarrow> bool" where
  "proper c \<longleftrightarrow> c \<noteq> [] \<and> CHR ''/'' \<notin> set c \<and> c \<noteq> ''.''"

definition plain :: "string \<Rightarrow> bool" where
  "plain c \<longleftrightarrow> proper c \<and> c \<noteq> ''..''"

fun valid_stack :: "bool \<Rightarrow> string list \<Rightarrow> bool" where
  "valid_stack r [] = True"
| "valid_stack r (c # st) = (proper c \<and> valid_stack r st \<and>
     (c = ''..'' \<longrightarrow> \<not> r \<and> (\<forall>d \<in> set st. d = ''..'')))"

lemma clean_step_valid:
  "valid_stack r st \<Longrightarrow> CHR ''/'' \<notin> set c \<Longrightarrow> valid_stack r (clean_step r st c)"
  by (auto simp: clean_step_def proper_def split: list.splits)

lemma foldl_clean_valid:
  "valid_stack r st \<Longrightarrow> (\<And>c. c \<in> set cs \<Longrightarrow> CHR ''/'' \<notin> set c) \<Longrightarrow>
    valid_stack r (foldl (clean_step r) st cs)"
  by (induction cs arbitrary: st) (auto simp: clean_step_valid)

lemma foldl_clean_rev: "valid_stack r st \<Longrightarrow> foldl (clean_step r) [] (rev st) = st"
proof (induction st)
  case (Cons c st)
  then have "foldl (clean_step r) [] (rev (c # st)) = clean_step r st c" by simp
  also have "\<dots> = c # st"
  proof (cases "c = ''..''")
    case True
    with Cons.prems have "\<not> r" and "st = [] \<or> hd st = ''..''" by (cases st; force)+
    with True show ?thesis by (cases st) (auto simp: clean_step_def)
  next
    case False
    moreover have "proper c" using Cons.prems by simp
    ultimately show ?thesis by (simp add: clean_step_def proper_def)
  qed
  finally show ?case .
qed simp

lemma valid_stack_proper: "valid_stack r st \<Longrightarrow> c \<in> set st \<Longrightarrow> proper c"
  by (induction st) auto

lemma path_key_render:
  assumes "valid_stack r st"
  shows "path_key (render ((if r then [[]] else []) @ rev st)) = (if r then [[]] else []) @ rev st"
proof (cases st)
  case Nil
  then show ?thesis
    by (simp add: render_def path_key_def rooted_def hasPrefix_def clean_step_def)
next
  case (Cons c st')
  have ns: "\<And>x. x \<in> set st \<Longrightarrow> CHR ''/'' \<notin> set x \<and> x \<noteq> []"
    using valid_stack_proper [OF assms] by (auto simp: proper_def)
  obtain d ds where d: "rev st = d # ds" "d \<noteq> []" "CHR ''/'' \<notin> set d"
    using Cons ns by (metis list.exhaust rev_is_Nil_conv list.discI list.set_intros(1) set_rev)
  have hd_join: "hd (joinWith ''/'' (d # ds)) \<noteq> CHR ''/''" "joinWith ''/'' (d # ds) \<noteq> []"
    using d by (cases ds; cases d; auto)+
  show ?thesis
  proof (cases r)
    case True
    have "joinWith ''/'' ([] # rev st) = CHR ''/'' # joinWith ''/'' (rev st)"
      using d(1) by simp
    moreover have "splitSlash (joinWith ''/'' (rev st)) = rev st"
      using Cons ns by (intro splitSlash_join) auto
    moreover have "clean_step r [] [] = []" by (simp add: clean_step_def)
    ultimately show ?thesis
      using True d(1) foldl_clean_rev [OF assms]
      by (simp add: path_key_def render_def rooted_def hasPrefix_def)
  next
    case False
    have "splitSlash (joinWith ''/'' (rev st)) = rev st"
      using Cons ns by (intro splitSlash_join) auto
    moreover have "\<not> rooted (joinWith ''/'' (rev st))"
      using hd_join d(1) by (cases "joinWith ''/'' (d # ds)") (auto simp: rooted_def hasPrefix_def)
    moreover have "render (rev st) = joinWith ''/'' (rev st)"
      using d by (auto simp: render_def)
    ultimately show ?thesis
      using False foldl_clean_rev [OF assms] by (simp add: path_key_def)
  qed
qed

lemma path_key_clean [simp]: "path_key (clean p) = path_key p"
proof -
  have "valid_stack (rooted p) (foldl (clean_step (rooted p)) [] (splitSlash p))"
    by (rule foldl_clean_valid) (auto dest: splitSlash_no_slash)
  then show ?thesis
    using path_key_render by (simp add: clean_def path_key_def [of p])
qed

lemma clean_idem [simp]: "clean (clean p) = clean p"
  by (simp add: clean_def [of "clean p"]) (simp add: clean_def)

lemma clean_not_Nil [simp]: "clean p \<noteq> []"
proof -
  have "joinWith ''/'' ks \<noteq> []" if "ks \<noteq> []" "ks \<noteq> [[]]" for ks
    using that by (cases ks; cases "tl ks") auto
  then show ?thesis by (simp add: clean_def render_def)
qed

section \<open>Joining\<close>

lemma joinPath_clean: "p \<noteq> [] \<Longrightarrow> joinPath (p # es) = clean (joinWith ''/'' (p # es))"
  by simp

lemma rooted_append [simp]: "p \<noteq> [] \<Longrightarrow> rooted (p @ s) \<longleftrightarrow> rooted p"
  by (cases p) (auto simp: rooted_def hasPrefix_def)

text \<open>Appending plain components to a path appends them to its key.\<close>

lemma foldl_clean_plain:
  "(\<And>c. c \<in> set cs \<Longrightarrow> plain c) \<Longrightarrow> foldl (clean_step r) st cs = rev cs @ st"
  by (induction cs arbitrary: st) (auto simp: clean_step_def plain_def proper_def)

lemma path_key_append:
  assumes "p \<noteq> []" and "\<And>c. c \<in> set (splitSlash s) \<Longrightarrow> plain c"
  shows "path_key (p @ CHR ''/'' # s) = path_key p @ splitSlash s"
  using assms(1) foldl_clean_plain [OF assms(2)]
  by (simp add: path_key_def splitSlash_append)

lemma joinWith_append:
  "xs \<noteq> [] \<Longrightarrow> ys \<noteq> [] \<Longrightarrow> joinWith sep (xs @ ys) = joinWith sep xs @ sep @ joinWith sep ys"
proof (induction xs rule: list_nonempty_induct)
  case (single x)
  then show ?case by (cases ys) auto
next
  case (cons x xs)
  then show ?case by (cases xs) auto
qed

lemma path_key_joinPath:
  assumes "p \<noteq> []" and "cs \<noteq> []" and "\<And>c. c \<in> set cs \<Longrightarrow> plain c"
  shows "path_key (joinPath (p # cs)) = path_key p @ cs"
proof -
  have s: "splitSlash (joinWith ''/'' cs) = cs"
    using assms(2,3) by (intro splitSlash_join) (auto simp: plain_def proper_def)
  have "joinPath (p # cs) = clean (p @ CHR ''/'' # joinWith ''/'' cs)"
    using assms(1,2) joinWith_append [of "[p]" cs "''/''"] by simp
  then show ?thesis
    using path_key_append [OF assms(1), of "joinWith ''/'' cs"] s assms(3) by simp
qed

text \<open>The components of a folder name, when none of them leads out of the base directory.\<close>

definition inside :: "string \<Rightarrow> bool" where
  "inside f \<longleftrightarrow> (\<forall>c \<in> set (splitSlash f). plain c)"

lemma path_key_folder:
  assumes "inside (mfolder p)"
  shows "path_key (folderPath p) = path_key (base p) @ splitSlash (mfolder p)"
  using path_key_append [of "clean (base p)" "mfolder p"] assms
  by (simp add: folderPath_def inside_def)

lemma path_key_basePath [simp]: "path_key (basePath p) = path_key (base p)"
  by (simp add: basePath_def)

lemma folderPath_not_Nil [simp]: "folderPath p \<noteq> []"
  by (simp add: folderPath_def)

lemma basePath_not_Nil [simp]: "basePath p \<noteq> []"
  by (simp add: basePath_def)

declare joinPath.simps [simp del]

end
