(* ===== verification/Filesys.thy ===== *)
theory Filesys
  imports Paths "HOL-Library.Sublist"
begin

text \<open>
  The part of the operating system the program uses (Go's package \<open>os\<close>) and the wrappers of
  \<open>core/fs.go\<close>. A file system maps the key of a path to a directory or a file with its content;
  the root directory and the working directory always exist. Failures of the system (missing
  permissions, a full disk, I/O errors) are given by \<open>faults\<close>: for an operation on a key, the
  error it reports and how many bytes a failing write still transfers; whether a write fails may
  depend on the size the file has before it (the third argument, 0 for the other operations).
  Links, and files that other processes change meanwhile, are not modelled. Error texts of the
  system are abbreviated.
\<close>

section \<open>State\<close>

datatype node = File string | Dir

datatype io_op = OpStat | OpMkdir | OpOpen | OpRead | OpWrite | OpClose | OpRename

record fsys =
  nodes :: "string list \<Rightarrow> node option"
  faults :: "io_op \<Rightarrow> string list \<Rightarrow> nat \<Rightarrow> (gerr \<times> nat) option"

definition look :: "fsys \<Rightarrow> string list \<Rightarrow> node option" where
  "look fs k = (if k = [] \<or> k = [[]] then Some Dir else nodes fs k)"

definition put_node :: "string list \<Rightarrow> node option \<Rightarrow> fsys \<Rightarrow> fsys" where
  "put_node k n fs = fs\<lparr>nodes := (nodes fs)(k := n)\<rparr>"

text \<open>Every node lies in a directory.\<close>

definition fs_wf :: "fsys \<Rightarrow> bool" where
  "fs_wf fs \<longleftrightarrow> (\<forall>k c. look fs (k @ [c]) \<noteq> None \<longrightarrow> look fs k = Some Dir)"

definition enoent :: gerr where "enoent = ''no such file or directory''"
definition enotdir :: gerr where "enotdir = ''not a directory''"
definition eisdir :: gerr where "eisdir = ''is a directory''"
definition eexist :: gerr where "eexist = ''file exists''"

section \<open>Package \<open>os\<close>\<close>

text \<open>
  \<open>os.Stat\<close>: the file information (here, whether it is a directory), an error that
  \<open>errors.Is(err, os.ErrNotExist)\<close> recognises, or another error. A component of the path that is
  a file gives the latter (ENOTDIR).
\<close>

datatype stat = StatInfo bool | StatNotExist | StatError gerr

definition os_Stat :: "fsys \<Rightarrow> string list \<Rightarrow> stat" where
  "os_Stat fs k =
     (case faults fs OpStat k 0 of Some (e, _) \<Rightarrow> StatError e
      | None \<Rightarrow>
         (case look fs k of
            Some Dir \<Rightarrow> StatInfo True
          | Some (File _) \<Rightarrow> StatInfo False
          | None \<Rightarrow>
              if list_ex (\<lambda>n. case look fs (take n k) of Some (File _) \<Rightarrow> True | _ \<Rightarrow> False)
                   [0..<length k]
              then StatError enotdir else StatNotExist))"

text \<open>\<open>os.MkdirAll\<close> creates the missing directories from the top.\<close>

fun mkdirs :: "string list list \<Rightarrow> fsys \<Rightarrow> fsys \<times> unit res" where
  "mkdirs [] fs = (fs, Ok ())"
| "mkdirs (k # ks) fs =
     (case look fs k of
        Some Dir \<Rightarrow> mkdirs ks fs
      | Some (File _) \<Rightarrow> (fs, Err enotdir)
      | None \<Rightarrow>
          (case faults fs OpMkdir k 0 of
             Some (e, _) \<Rightarrow> (fs, Err e)
           | None \<Rightarrow> mkdirs ks (put_node k (Some Dir) fs)))"

definition os_MkdirAll :: "string list \<Rightarrow> fsys \<Rightarrow> fsys \<times> unit res" where
  "os_MkdirAll k fs = mkdirs (map (\<lambda>n. take n k) [0..<Suc (length k)]) fs"

text \<open>
  Opening a file for writing creates it when it is missing; the directory it is in has to exist.
\<close>

definition os_Create :: "string list \<Rightarrow> fsys \<Rightarrow> fsys \<times> unit res" where
  "os_Create k fs =
     (case faults fs OpOpen k 0 of
        Some (e, _) \<Rightarrow> (fs, Err e)
      | None \<Rightarrow>
         (case look fs k of
            Some Dir \<Rightarrow> (fs, Err eisdir)
          | Some (File _) \<Rightarrow> (fs, Ok ())
          | None \<Rightarrow>
             (if look fs (butlast k) = Some Dir then (put_node k (Some (File [])) fs, Ok ())
              else (fs, Err enoent))))"

text \<open>Writing at the end of an open file; a failing write may transfer a part of the data.\<close>

definition content :: "fsys \<Rightarrow> string list \<Rightarrow> string" where
  "content fs k = (case nodes fs k of Some (File c) \<Rightarrow> c | _ \<Rightarrow> [])"

definition handle_Write :: "string list \<Rightarrow> string \<Rightarrow> fsys \<Rightarrow> fsys \<times> nat res" where
  "handle_Write k bs fs =
     (case faults fs OpWrite k (length (content fs k)) of
        Some (e, n) \<Rightarrow> (put_node k (Some (File (content fs k @ take n bs))) fs, Err e)
      | None \<Rightarrow> (put_node k (Some (File (content fs k @ bs))) fs, Ok (length bs)))"

definition handle_Close :: "string list \<Rightarrow> fsys \<Rightarrow> gerr option" where
  "handle_Close k fs = map_option fst (faults fs OpClose k 0)"

text \<open>\<open>os.WriteFile\<close> truncates an existing file, then writes and closes it.\<close>

definition os_WriteFile :: "string list \<Rightarrow> string \<Rightarrow> fsys \<Rightarrow> fsys \<times> unit res" where
  "os_WriteFile k bs fs =
     (case os_Create k fs of
        (fs1, Ok _) \<Rightarrow>
          (case handle_Write k bs (put_node k (Some (File [])) fs1) of
             (fs2, Ok _) \<Rightarrow>
               (case handle_Close k fs2 of None \<Rightarrow> (fs2, Ok ()) | Some e \<Rightarrow> (fs2, Err e))
           | (fs2, Err e) \<Rightarrow> (fs2, Err e)
           | (fs2, Panic p) \<Rightarrow> (fs2, Panic p))
      | (fs1, Err e) \<Rightarrow> (fs1, Err e)
      | (fs1, Panic p) \<Rightarrow> (fs1, Panic p))"

text \<open>\<open>os.Rename\<close> of a file; an existing file of the new name is replaced.\<close>

definition os_Rename :: "string list \<Rightarrow> string list \<Rightarrow> fsys \<Rightarrow> fsys \<times> unit res" where
  "os_Rename old new fs =
     (case faults fs OpRename old 0 of
        Some (e, _) \<Rightarrow> (fs, Err e)
      | None \<Rightarrow>
         (case look fs old of
            Some (File c) \<Rightarrow>
              if look fs new = Some Dir then (fs, Err eexist)
              else if look fs (butlast new) \<noteq> Some Dir then (fs, Err enoent)
              else (put_node new (Some (File c)) (put_node old None fs), Ok ())
          | _ \<Rightarrow> (fs, Err enoent)))"

text \<open>The bytes of a file, or the error that opening it or reading from it gives.\<close>

definition os_ReadAll :: "fsys \<Rightarrow> string list \<Rightarrow> string res" where
  "os_ReadAll fs k =
     (case faults fs OpRead k 0 of
        Some (e, _) \<Rightarrow> Err e
      | None \<Rightarrow> (case look fs k of Some (File c) \<Rightarrow> Ok c | Some Dir \<Rightarrow> Err eisdir | None \<Rightarrow> Err enoent))"

section \<open>\<open>core/fs.go\<close>\<close>

text \<open>
  \<open>isFile\<close> and \<open>isDir\<close> use the file information also when \<open>os.Stat\<close> failed for another reason
  than a missing file; it is nil then.
\<close>

definition isFile :: "fsys \<Rightarrow> string \<Rightarrow> bool res" where
  "isFile fs path =
     (case os_Stat fs (path_key path) of
        StatNotExist \<Rightarrow> Ok False
      | StatError _ \<Rightarrow> Panic nilDeref
      | StatInfo d \<Rightarrow> Ok (\<not> d))"

definition isDir :: "fsys \<Rightarrow> string \<Rightarrow> bool res" where
  "isDir fs path =
     (case os_Stat fs (path_key path) of
        StatNotExist \<Rightarrow> Ok False
      | StatError _ \<Rightarrow> Panic nilDeref
      | StatInfo d \<Rightarrow> Ok d)"

definition touch :: "string \<Rightarrow> fsys \<Rightarrow> fsys \<times> unit res" where
  "touch path fs = os_WriteFile (path_key path) [] fs"

definition openFileAppend :: "string \<Rightarrow> fsys \<Rightarrow> fsys \<times> unit res" where
  "openFileAppend name fs = os_Create (path_key name) fs"

definition errorIfExists :: "fsys \<Rightarrow> string \<Rightarrow> string \<Rightarrow> gerr option" where
  "errorIfExists fs path message =
     (case os_Stat fs (path_key path) of StatNotExist \<Rightarrow> None | _ \<Rightarrow> Some message)"

section \<open>Frames\<close>

text \<open>Two states that may differ on the keys in \<open>K\<close> only.\<close>

definition same_except :: "string list set \<Rightarrow> fsys \<Rightarrow> fsys \<Rightarrow> bool" where
  "same_except K fs fs' \<longleftrightarrow> faults fs' = faults fs \<and> (\<forall>k. k \<notin> K \<longrightarrow> nodes fs' k = nodes fs k)"

lemma look_put [simp]:
  "look (put_node k n fs) k' = (if k' = k \<and> k \<noteq> [] \<and> k \<noteq> [[]] then n else look fs k')"
  by (simp add: look_def put_node_def)

lemma nodes_put [simp]: "nodes (put_node k n fs) = (nodes fs)(k := n)"
  by (simp add: put_node_def)

lemma faults_put [simp]: "faults (put_node k n fs) = faults fs"
  by (simp add: put_node_def)

lemma put_node_put [simp]: "put_node k m (put_node k n fs) = put_node k m fs"
  by (simp add: put_node_def)

lemma put_node_None [simp]: "nodes fs k = None \<Longrightarrow> put_node k None fs = fs"
  by (simp add: put_node_def fun_upd_idem)

lemma put_node_swap: "k \<noteq> l \<Longrightarrow> put_node k m (put_node l n fs) = put_node l n (put_node k m fs)"
  by (auto simp: put_node_def fun_upd_twist)

lemma content_put [simp]:
  "content (put_node k n fs) k' = (if k' = k then (case n of Some (File c) \<Rightarrow> c | _ \<Rightarrow> []) else content fs k')"
  by (simp add: content_def)

lemma same_except_refl [simp]: "same_except K fs fs"
  by (simp add: same_except_def)

lemma same_except_trans:
  "same_except K fs fs' \<Longrightarrow> same_except L fs' fs'' \<Longrightarrow> K \<subseteq> M \<Longrightarrow> L \<subseteq> M \<Longrightarrow> same_except M fs fs''"
  unfolding same_except_def by (metis subsetD)

lemma same_except_put [fs_frame]: "k \<in> K \<Longrightarrow> same_except K fs (put_node k n fs)"
  by (auto simp: same_except_def)

lemma same_except_put2: "same_except K fs fs' \<Longrightarrow> k \<in> K \<Longrightarrow> same_except K fs (put_node k n fs')"
  by (auto simp: same_except_def)

lemma look_same: "same_except K fs fs' \<Longrightarrow> k \<notin> K \<Longrightarrow> look fs' k = look fs k"
  by (auto simp: same_except_def look_def)

lemma same_except_Create [fs_frame]: "k \<in> K \<Longrightarrow> same_except K fs (fst (os_Create k fs))"
  by (auto simp: os_Create_def fs_frame split: option.split node.split)

lemma same_except_Write [fs_frame]: "k \<in> K \<Longrightarrow> same_except K fs (fst (handle_Write k bs fs))"
  by (auto simp: handle_Write_def fs_frame split: option.split)

lemma same_except_WriteFile [fs_frame]:
  assumes "k \<in> K"
  shows "same_except K fs (fst (os_WriteFile k bs fs))"
proof -
  have "same_except K fs (fst (handle_Write k bs (put_node k (Some (File [])) (fst (os_Create k fs)))))"
    using assms same_except_Create [OF assms] same_except_Write [OF assms]
    by (meson same_except_put2 same_except_trans subset_refl)
  with same_except_Create [OF assms, of fs] show ?thesis
    by (auto simp: os_WriteFile_def split: prod.splits res.splits option.splits)
qed

lemma same_except_Rename [fs_frame]:
  "old \<in> K \<Longrightarrow> new \<in> K \<Longrightarrow> same_except K fs (fst (os_Rename old new fs))"
  by (auto simp: os_Rename_def intro!: same_except_put2 same_except_refl split: option.split node.split)

section \<open>Success of the operations\<close>

lemma os_Stat_not_exist: "os_Stat fs k = StatNotExist \<Longrightarrow> look fs k = None"
  by (auto simp: os_Stat_def split: option.splits node.splits if_splits)

lemma os_Create_no_panic [simp]: "snd (os_Create k fs) \<noteq> Panic p"
  by (simp add: os_Create_def split: option.split node.split)

lemma os_WriteFile_Ok:
  assumes "os_WriteFile k bs fs = (fs', Ok u)"
  shows "fs' = put_node k (Some (File bs)) fs" and "look fs k \<noteq> Some Dir"
proof -
  have c: "put_node k (Some (File [])) (fst (os_Create k fs)) = put_node k (Some (File [])) fs"
    by (auto simp: os_Create_def split: option.split node.split)
  show "fs' = put_node k (Some (File bs)) fs"
    using assms c
    by (auto simp: os_WriteFile_def handle_Write_def split: prod.splits res.splits option.splits)
  show "look fs k \<noteq> Some Dir"
    using assms by (auto simp: os_WriteFile_def os_Create_def split: option.splits)
qed

lemma os_WriteFile_no_panic [simp]: "snd (os_WriteFile k bs fs) \<noteq> Panic p"
  using os_Create_no_panic [of k fs]
  by (cases "os_Create k fs") (auto simp: os_WriteFile_def handle_Write_def split: prod.split res.split option.split)

lemma os_Rename_Ok:
  assumes "os_Rename old new fs = (fs', Ok u)"
  obtains c where "look fs old = Some (File c)" "look fs new \<noteq> Some Dir"
    "fs' = put_node new (Some (File c)) (put_node old None fs)"
  using assms by (auto simp: os_Rename_def split: option.splits node.splits if_splits)

lemma os_Rename_Err: "os_Rename old new fs = (fs', Err e) \<Longrightarrow> fs' = fs"
  by (auto simp: os_Rename_def split: option.splits node.splits if_splits)

lemma os_Rename_no_panic [simp]: "snd (os_Rename old new fs) \<noteq> Panic p"
  by (simp add: os_Rename_def split: option.split node.split)

section \<open>Creating directories\<close>

lemma mkdirs_Ok:
  "mkdirs ks fs = (fs', Ok u) \<Longrightarrow> faults fs' = faults fs \<and>
    (\<forall>k. look fs' k = (if k \<in> set ks then Some Dir else look fs k))"
proof (induction ks arbitrary: fs)
  case (Cons k ks)
  show ?case
  proof (cases "look fs k")
    case None
    with Cons.prems have m: "mkdirs ks (put_node k (Some Dir) fs) = (fs', Ok u)"
      by (auto split: option.splits)
    have "k \<noteq> []" "k \<noteq> [[]]" using None by (auto simp: look_def)
    with Cons.IH [OF m] show ?thesis by auto
  next
    case (Some n)
    with Cons.prems have "n = Dir" "mkdirs ks fs = (fs', Ok u)" by (auto split: node.splits)
    with Some Cons.IH show ?thesis by auto
  qed
qed simp

lemma mkdirs_no_panic [simp]: "snd (mkdirs ks fs) \<noteq> Panic p"
  by (induction ks arbitrary: fs) (auto split: option.splits node.splits)

lemma mkdirs_succeeds:
  assumes "\<And>k n. faults fs OpMkdir k n = None" and "\<And>k c. k \<in> set ks \<Longrightarrow> look fs k \<noteq> Some (File c)"
  shows "snd (mkdirs ks fs) = Ok ()"
  using assms
proof (induction ks arbitrary: fs)
  case (Cons k ks)
  show ?case
  proof (cases "look fs k")
    case None
    have "snd (mkdirs ks (put_node k (Some Dir) fs)) = Ok ()"
      by (rule Cons.IH) (use Cons.prems in auto)
    with None Cons.prems show ?thesis by simp
  next
    case (Some n)
    with Cons.prems(2) [of k] have "n = Dir" by (cases n) auto
    with Some Cons show ?thesis by auto
  qed
qed simp

definition ancestors :: "string list \<Rightarrow> string list set" where
  "ancestors k = {j. prefix j k}"

lemma os_MkdirAll_Ok:
  assumes "os_MkdirAll k fs = (fs', Ok u)"
  shows "faults fs' = faults fs"
    and "look fs' j = (if j \<in> ancestors k then Some Dir else look fs j)"
proof -
  have "set (map (\<lambda>n. take n k) [0..<Suc (length k)]) = ancestors k"
  proof (intro set_eqI iffI)
    fix j assume "j \<in> ancestors k"
    then have "length j \<le> length k" "j = take (length j) k"
      by (auto simp: ancestors_def prefix_def)
    then show "j \<in> set (map (\<lambda>n. take n k) [0..<Suc (length k)])"
      unfolding set_map set_upt
      by (intro image_eqI [where f = "\<lambda>n. take n k" and x = "length j"]) auto
  qed (auto simp: ancestors_def take_is_prefix)
  then show "faults fs' = faults fs" "look fs' j = (if j \<in> ancestors k then Some Dir else look fs j)"
    using mkdirs_Ok [of "map (\<lambda>n. take n k) [0..<Suc (length k)]" fs fs' u] assms
    by (simp_all add: os_MkdirAll_def)
qed

lemma ancestors_self [simp]: "k \<in> ancestors k"
  by (simp add: ancestors_def)

lemma ancestors_append: "ancestors (k @ [c]) = insert (k @ [c]) (ancestors k)"
  by (auto simp: ancestors_def)

lemma ancestors_butlast: "k @ [c] \<in> ancestors j \<Longrightarrow> k \<in> ancestors j"
  by (auto simp: ancestors_def append_prefixD)

section \<open>Well-formed file systems\<close>

lemma fs_wf_ancestor:
  assumes "fs_wf fs" and "look fs k \<noteq> None" and "n < length k"
  shows "look fs (take n k) = Some Dir"
  using assms(2,3)
proof (induction k arbitrary: n rule: rev_induct)
  case (snoc c k)
  have "look fs k = Some Dir"
    using snoc.prems(1) assms(1) by (auto simp: fs_wf_def)
  with snoc show ?case by (cases "n = length k") (auto simp: less_Suc_eq)
qed simp

text \<open>In a well-formed file system a missing entry of a directory is reported as missing.\<close>

lemma os_Stat_missing:
  assumes "fs_wf fs" "look fs k = Some Dir" "look fs (k @ [c]) = None" "faults fs OpStat (k @ [c]) 0 = None"
  shows "os_Stat fs (k @ [c]) = StatNotExist"
proof -
  have "look fs (take n (k @ [c])) = Some Dir" if "n < length (k @ [c])" for n
    using that assms(2) fs_wf_ancestor [OF assms(1), of k n]
    by (cases "n = length k") (auto simp: less_Suc_eq)
  then have "\<not> list_ex (\<lambda>n. case look fs (take n (k @ [c])) of Some (File _) \<Rightarrow> True | _ \<Rightarrow> False)
      [0..<length (k @ [c])]"
    using assms(2) by (simp only: list_ex_iff set_upt) (auto simp del: take_append)
  then show ?thesis
    using assms(3,4) by (simp add: os_Stat_def del: take_append)
qed

lemma os_Stat_present:
  assumes "look fs k = Some n" "faults fs OpStat k 0 = None"
  shows "os_Stat fs k = StatInfo (n = Dir)"
  using assms by (cases n) (auto simp: os_Stat_def)

lemma fs_wf_put_file:
  assumes "fs_wf fs" and "k \<noteq> [] \<Longrightarrow> look fs (butlast k) = Some Dir" and "look fs k \<noteq> Some Dir"
  shows "fs_wf (put_node k (Some (File bs)) fs)"
  unfolding fs_wf_def
proof (intro allI impI)
  fix j c assume j: "look (put_node k (Some (File bs)) fs) (j @ [c]) \<noteq> None"
  have "look fs j = Some Dir"
    using j assms(1,2) by (cases "j @ [c] = k") (auto simp: fs_wf_def)
  with assms(3) show "look (put_node k (Some (File bs)) fs) j = Some Dir" by auto
qed

lemma fs_wf_remove_file:
  assumes "fs_wf fs" and "look fs k \<noteq> Some Dir"
  shows "fs_wf (put_node k None fs)"
  unfolding fs_wf_def
proof (intro allI impI)
  fix j c assume j: "look (put_node k None fs) (j @ [c]) \<noteq> None"
  then have "look fs j = Some Dir" using assms(1) by (auto simp: fs_wf_def split: if_splits)
  with assms(2) show "look (put_node k None fs) j = Some Dir" by auto
qed

lemma look_root [simp]: "look fs [] = Some Dir"
  by (simp add: look_def)

lemma fs_wf_parent: "fs_wf fs \<Longrightarrow> look fs k \<noteq> None \<Longrightarrow> k \<noteq> [] \<Longrightarrow> look fs (butlast k) = Some Dir"
  by (metis append_butlast_last_id fs_wf_def)

lemma os_Create_parent:
  "fs_wf fs \<Longrightarrow> os_Create k fs = (fs', Ok u) \<Longrightarrow> look fs (butlast k) = Some Dir \<and> look fs k \<noteq> Some Dir"
  using fs_wf_parent [of fs k]
  by (cases "k = []") (auto simp: os_Create_def split: option.splits node.splits if_splits)

lemma fs_wf_WriteFile [fs_wf_intros]:
  assumes "fs_wf fs"
  shows "fs_wf (fst (os_WriteFile k bs fs))"
proof (cases "os_Create k fs")
  case (Pair fs1 r)
  show ?thesis
  proof (cases r)
    case (Ok u)
    note p = os_Create_parent [OF assms Pair [unfolded Ok]]
    have "put_node k n fs1 = put_node k n fs" for n
      using Pair by (auto simp: os_Create_def split: option.splits node.splits if_splits)
    moreover have "fs_wf (put_node k (Some (File w)) fs)" for w
      using assms p by (intro fs_wf_put_file) auto
    ultimately show ?thesis
      by (simp add: os_WriteFile_def Pair Ok handle_Write_def split: option.split)
  next
    case (Err e)
    with Pair have "fs1 = fs"
      by (auto simp: os_Create_def split: option.splits node.splits if_splits)
    with Pair Err assms show ?thesis by (simp add: os_WriteFile_def)
  next
    case (Panic q)
    with Pair show ?thesis using os_Create_no_panic [of k fs q] by simp
  qed
qed

lemma fs_wf_MkdirAll [fs_wf_intros]:
  assumes "fs_wf fs" and "os_MkdirAll k fs = (fs', Ok u)"
  shows "fs_wf fs'"
proof (unfold fs_wf_def, intro allI impI)
  fix j c assume "look fs' (j @ [c]) \<noteq> None"
  then show "look fs' j = Some Dir"
    using assms(1) ancestors_butlast [of j c k]
    by (auto simp: os_MkdirAll_Ok(2) [OF assms(2)] fs_wf_def split: if_splits)
qed

lemma fs_wf_Rename [fs_wf_intros]:
  assumes "fs_wf fs"
  shows "fs_wf (fst (os_Rename old new fs))"
proof (cases "os_Rename old new fs")
  case (Pair fs' r)
  show ?thesis
  proof (cases r)
    case (Ok u)
    from os_Rename_Ok [OF Pair [unfolded Ok]] obtain c where
      c: "look fs old = Some (File c)" "look fs new \<noteq> Some Dir"
      "fs' = put_node new (Some (File c)) (put_node old None fs)" by metis
    have d: "look fs (butlast new) = Some Dir"
      using Pair Ok by (auto simp: os_Rename_def split: option.splits node.splits if_splits)
    with c(1) have "butlast new \<noteq> old" by auto
    with c d assms have "fs_wf fs'"
      by (auto intro!: fs_wf_put_file fs_wf_remove_file split: if_splits)
    with Pair show ?thesis by simp
  qed (use Pair assms os_Rename_Err os_Rename_no_panic in \<open>metis fst_conv snd_conv\<close>)+
qed

end
