(* ===== verification/Oldmail.thy ===== *)
theory Oldmail
  imports Ids Scan Filesys
begin

text \<open>
  The oldmail file of \<open>core/oldmail.go\<close>: which emails have been stored by earlier runs, one line
  per email. \<open>readOldmail\<close> reads it, the writing stage of the download pipeline appends to it.
\<close>

section \<open>Model\<close>

definition oldmailFields :: nat where "oldmailFields = 3"

definition oldmailFormat :: string where
  "oldmailFormat = ''%d/%d_%d'' @ [nl]"

definition oldmailSepReplace :: char where "oldmailSepReplace = CHR ''_''"
definition oldmailFormatSep :: char where "oldmailFormatSep = nul"

record IMAPConfig =
  Server :: string
  Port :: goint
  User :: string
  Password :: string
  Insecure :: bool

definition oldmailFileName :: "IMAPConfig \<Rightarrow> string \<Rightarrow> string" where
  "oldmailFileName cfg folder =
     ''oldmail-'' @ Server cfg @ ''-'' @ showGoint (Port cfg) @ ''-'' @ User cfg @ ''-'' @ folder"

text \<open>One line of the file, as the scanner delivers it.\<close>

definition parseLine :: "string \<Rightarrow> gerr + oldmail" where
  "parseLine bs =
     (let line = replaceAll bs oldmailFormatSep [oldmailSepReplace];
          (vs, err) = sscanf (parseFormat oldmailFormat) line;
          err = (if length vs \<noteq> oldmailFields then Some (''too few fields in line '' @ line) else err)
      in case err of
           Some e \<Rightarrow> Inl e
         | None \<Rightarrow> Inr \<lparr>om_uidFolder = vs ! 0, om_uid = vs ! 1, om_timestamp = vs ! 2\<rparr>)"

definition readOldmail :: "fsys \<Rightarrow> string \<Rightarrow> oldmail list res" where
  "readOldmail fs oldmailPath =
     (case isFile fs oldmailPath of
        Panic p \<Rightarrow> Panic p
      | Err e \<Rightarrow> Err e
      | Ok False \<Rightarrow> Err (''oldmail file '' @ oldmailPath @ '' not found'')
      | Ok True \<Rightarrow>
          (case faults fs OpOpen (path_key oldmailPath) 0 of
             Some (e, _) \<Rightarrow> Err e
           | None \<Rightarrow>
               (case bind_res (os_ReadAll fs (path_key oldmailPath)) (decodeFile parseLine) of
                  Ok oldmails \<Rightarrow>
                    (case handle_Close (path_key oldmailPath) fs of
                       None \<Rightarrow> Ok oldmails
                     | Some closeErr \<Rightarrow> Err closeErr)
                | Err e \<Rightarrow> Err e
                | Panic p \<Rightarrow> Panic p)))"

text \<open>
  The writing goroutine: its local variables and the error counter it shares with the caller.
  After a write error the remaining entries are received and dropped.
\<close>

record writeout =
  wr_err :: "gerr option"
  wr_errCount :: nat

definition writeout_init :: writeout where
  "writeout_init = \<lparr>wr_err = None, wr_errCount = 0\<rparr>"

definition oldmailLine :: "oldmail \<Rightarrow> string" where
  "oldmailLine om =
     replaceAll (sprintf (parseFormat oldmailFormat) [om_uidFolder om, om_uid om, om_timestamp om])
       oldmailSepReplace [oldmailFormatSep]"

definition writeout_open :: "string \<Rightarrow> fsys \<Rightarrow> fsys \<times> unit res" where
  "writeout_open oldmailPath fs = openFileAppend oldmailPath fs"

definition writeout_step :: "string \<Rightarrow> oldmail \<Rightarrow> fsys \<times> writeout \<Rightarrow> fsys \<times> writeout" where
  "writeout_step oldmailPath om st =
     (case st of (fs, w) \<Rightarrow>
        if wr_err w = None then
          (case handle_Write (path_key oldmailPath) (oldmailLine om) fs of
             (fs', Ok _) \<Rightarrow> (fs', w)
           | (fs', Err e) \<Rightarrow> (fs', w\<lparr>wr_err := Some e, wr_errCount := wr_errCount w + 1\<rparr>)
           | (fs', Panic p) \<Rightarrow> (fs', w))
        else (fs, w))"

definition writeout_close :: "string \<Rightarrow> fsys \<times> writeout \<Rightarrow> fsys \<times> writeout" where
  "writeout_close oldmailPath st =
     (case st of (fs, w) \<Rightarrow>
        (case handle_Close (path_key oldmailPath) fs of
           None \<Rightarrow> (fs, w)
         | Some e \<Rightarrow> (fs, w\<lparr>wr_err := Some e, wr_errCount := wr_errCount w + 1\<rparr>)))"

section \<open>The line format\<close>

definition oldmailEnc :: "oldmail \<Rightarrow> string" where
  "oldmailEnc om = showGoint (om_uidFolder om) @ ''/'' @ showGoint (om_uid om) @ [nul] @
     showGoint (om_timestamp om)"

lemma parseFormat_oldmail:
  "parseFormat oldmailFormat = [FD, FLit (CHR ''/''), FD, FLit (CHR ''_''), FD] @ [FNewline]"
  by (simp add: oldmailFormat_def)

lemma showGoint_chars:
  assumes "c \<in> set (showGoint v)"
  shows "c \<noteq> nl" "c \<noteq> nul" "c \<noteq> CHR ''_''" "c \<noteq> CHR ''/''" "c \<noteq> CHR 0x0D" "c \<noteq> CHR '' ''"
  using showInt_chars [of c "sint v"] assms by (auto simp: showGoint_def isDigit_def)

lemma showGoint_absent [simp]:
  "nl \<notin> set (showGoint v)" "nul \<notin> set (showGoint v)" "CHR ''_'' \<notin> set (showGoint v)"
  "CHR ''/'' \<notin> set (showGoint v)" "CHR 0x0D \<notin> set (showGoint v)" "CHR '' '' \<notin> set (showGoint v)"
  using showGoint_chars by blast+

lemma oldmailLine_eq: "oldmailLine om = oldmailEnc om @ [nl]"
  by (simp add: oldmailLine_def parseFormat_oldmail oldmailSepReplace_def oldmailFormatSep_def
      oldmailEnc_def replaceAll_absent)

lemma parseLine_enc: "parseLine (oldmailEnc om) = Inr om"
proof -
  let ?fs = "[FD, FLit (CHR ''/''), FD, FLit (CHR ''_''), FD]"
  let ?vs = "[om_uidFolder om, om_uid om, om_timestamp om]"
  have "replaceAll (oldmailEnc om) nul ''_'' = sprintf ?fs ?vs"
    by (simp add: oldmailEnc_def replaceAll_absent)
  moreover have "sscanf (?fs @ [FNewline]) (sprintf ?fs ?vs) = (?vs, None)"
    by (rule sscanf_sprintf) (simp_all add: isDigit_def)
  ultimately show ?thesis
    by (simp add: parseLine_def parseFormat_oldmail oldmailFormatSep_def oldmailSepReplace_def
        oldmailFields_def del: sprintf.simps sscanf.simps)
qed

interpretation oc: line_codec oldmailEnc parseLine
proof
  fix x
  show "parseLine (oldmailEnc x) = Inr x" by (rule parseLine_enc)
  show "nl \<notin> set (oldmailEnc x)" by (simp add: oldmailEnc_def)
  have "CHR 0x0D \<notin> set (oldmailEnc x)" by (simp add: oldmailEnc_def)
  then show "oldmailEnc x = [] \<or> last (oldmailEnc x) \<noteq> CHR 0x0D" by (metis last_in_set)
  show "length (oldmailEnc x) < maxScanTokenSize"
    using length_showGoint [of "om_uidFolder x"] length_showGoint [of "om_uid x"]
      length_showGoint [of "om_timestamp x"]
    by (simp add: oldmailEnc_def maxScanTokenSize_def)
qed

section \<open>Reading and appending\<close>

lemma file_of_oldmails: "concat (map oldmailLine oms) = oc.file_of oms"
  by (induction oms) (simp_all add: oldmailLine_eq)

text \<open>What a successful read depends on.\<close>

lemma readOldmail_Ok:
  "readOldmail fs path = Ok oms \<longleftrightarrow>
     isFile fs path = Ok True \<and> faults fs OpOpen (path_key path) 0 = None \<and>
     handle_Close (path_key path) fs = None \<and>
     bind_res (os_ReadAll fs (path_key path)) (decodeFile parseLine) = Ok oms"
  by (auto simp: readOldmail_def split: res.split bool.split option.split)

lemma isFile_content:
  assumes "isFile fs path = Ok True"
  shows "nodes fs (path_key path) = Some (File (content fs (path_key path)))"
    "path_key path \<noteq> []" "path_key path \<noteq> [[]]" "faults fs OpStat (path_key path) 0 = None"
  using assms
  by (auto simp: isFile_def os_Stat_def look_def content_def
      split: stat.splits option.splits node.splits if_splits)

lemma isFile_put:
  assumes "isFile fs path = Ok True"
  shows "isFile (put_node (path_key path) (Some (File bs)) fs) path = Ok True"
  using isFile_content [OF assms] by (simp add: isFile_def os_Stat_def)

lemma writeout_step_cases:
  assumes "wr_err w = None"
  shows "writeout_step path om (fs, w) =
     (case faults fs OpWrite (path_key path) (length (content fs (path_key path))) of
        None \<Rightarrow> (put_node (path_key path) (Some (File (content fs (path_key path) @ oldmailLine om))) fs, w)
      | Some (e, n) \<Rightarrow>
          (put_node (path_key path) (Some (File (content fs (path_key path) @ take n (oldmailLine om)))) fs,
           w\<lparr>wr_err := Some e, wr_errCount := wr_errCount w + 1\<rparr>))"
  using assms by (auto simp: writeout_step_def handle_Write_def split: option.split)

lemma writeout_after_error: "wr_err w \<noteq> None \<Longrightarrow> fold (writeout_step path) oms (fs, w) = (fs, w)"
  by (induction oms) (auto simp: writeout_step_def)

text \<open>The whole stage: a prefix of the lines is written completely, then possibly a part of the next.\<close>

lemma writeout_all:
  assumes "wr_err w = None" and "wr_errCount w = 0"
    and "fold (writeout_step path) oms (fs, w) = (fs', w')"
  shows "same_except {path_key path} fs fs' \<and>
    (\<exists>n part. content fs' (path_key path) =
        content fs (path_key path) @ concat (map oldmailLine (take n oms)) @ part \<and>
      (if wr_err w' = None then n = length oms \<and> part = [] \<and> wr_errCount w' = 0
       else n < length oms \<and> prefix part (oldmailLine (oms ! n)) \<and> wr_errCount w' = 1))"
  using assms
proof (induction oms arbitrary: fs)
  case Nil
  then show ?case by auto
next
  case (Cons om oms)
  let ?k = "path_key path"
  show ?case
  proof (cases "faults fs OpWrite ?k (length (content fs ?k))")
    case None
    let ?fs1 = "put_node ?k (Some (File (content fs ?k @ oldmailLine om))) fs"
    have "fold (writeout_step path) oms (?fs1, w) = (fs', w')"
      using Cons.prems None by (simp add: writeout_step_cases)
    from Cons.IH [OF Cons.prems(1,2) this] obtain n part where
      n: "same_except {?k} ?fs1 fs'" "content fs' ?k =
        content fs ?k @ concat (map oldmailLine (take (Suc n) (om # oms))) @ part"
      "if wr_err w' = None then n = length oms \<and> part = [] \<and> wr_errCount w' = 0
       else n < length oms \<and> prefix part (oldmailLine (oms ! n)) \<and> wr_errCount w' = 1"
      by auto
    have "same_except {?k} fs fs'"
      using n(1) by (auto simp: same_except_def)
    with n(2,3) show ?thesis by (intro conjI exI [of _ "Suc n"] exI [of _ part]) (auto split: if_splits)
  next
    case (Some en)
    obtain e n where en: "en = (e, n)" by (cases en)
    let ?fs1 = "put_node ?k (Some (File (content fs ?k @ take n (oldmailLine om)))) fs"
    have "fs' = ?fs1" "w' = w\<lparr>wr_err := Some e, wr_errCount := wr_errCount w + 1\<rparr>"
      using Cons.prems Some en writeout_after_error [of "w\<lparr>wr_err := Some e, wr_errCount := wr_errCount w + 1\<rparr>"]
      by (simp_all add: writeout_step_cases)
    then show ?thesis
      using Cons.prems(2)
      by (intro conjI exI [of _ 0] exI [of _ "take n (oldmailLine om)"])
        (auto simp: take_is_prefix same_except_put)
  qed
qed

lemma no_fault_no_error:
  "\<forall>n. faults fs OpWrite (path_key path) n = None \<Longrightarrow>
    fold (writeout_step path) oms (fs, writeout_init) = (fs', w) \<Longrightarrow> wr_err w = None"
proof (induction oms arbitrary: fs)
  case (Cons om oms)
  then show ?case
    using Cons.IH [of "put_node (path_key path)
      (Some (File (content fs (path_key path) @ oldmailLine om))) fs"]
    by (simp add: writeout_step_cases writeout_init_def)
qed (auto simp: writeout_init_def)

lemma read_after_write:
  assumes r: "readOldmail fs path = Ok xs" and c: "complete (content fs (path_key path))"
    and f: "same_except {path_key path} fs fs'"
      "content fs' (path_key path) = content fs (path_key path) @ concat (map oldmailLine oms)"
      "nodes fs' (path_key path) = Some (File (content fs' (path_key path)))"
  shows "readOldmail fs' path = Ok (xs @ oms)"
proof -
  let ?k = "path_key path"
  note rd = r [unfolded readOldmail_Ok]
  note k = isFile_content [OF conjunct1 [OF rd]]
  have d: "decodeFile parseLine (content fs ?k) = Ok xs"
    using rd k by (auto simp: os_ReadAll_def look_def split: option.splits)
  have "decodeFile parseLine (content fs' ?k) = Ok (xs @ oms)"
    unfolding f(2) file_of_oldmails by (rule oc.decode_append [OF c d])
  then show ?thesis
    using rd k f
    by (auto simp: readOldmail_Ok isFile_def os_Stat_def os_ReadAll_def look_def same_except_def
        handle_Close_def split: option.splits)
qed

lemma writeout_file_node:
  "nodes fs (path_key path) = Some (File c) \<Longrightarrow>
    \<exists>c. nodes (fst (fold (writeout_step path) oms (fs, w))) (path_key path) = Some (File c)"
proof (induction oms arbitrary: fs w c)
  case (Cons om oms)
  obtain fs1 w1 where s: "writeout_step path om (fs, w) = (fs1, w1)" by fastforce
  have "\<exists>c. nodes fs1 (path_key path) = Some (File c)"
    using s Cons.prems by (cases "wr_err w = None")
      (auto simp: writeout_step_def handle_Write_def split: option.splits if_splits)
  with Cons.IH s show ?case by auto
qed auto

section \<open>Torn lines\<close>

lemma skipSpace_set: "skipSpace s = Inr t \<Longrightarrow> set t \<subseteq> set s"
  by (induction s) (auto split: if_splits)

lemma scanInt_set:
  assumes "scanInt s = Inr (v, rest)"
  shows "set rest \<subseteq> set s"
proof -
  obtain c t where "skipSpace s = Inr (c # t)" "set rest \<subseteq> set (c # t)"
    using assms
    by (auto simp: scanInt_def Let_def split: sum.splits list.splits if_splits dest: set_dropWhileD)
  with skipSpace_set show ?thesis by fastforce
qed

lemma parseLine_without_separator:
  assumes "nul \<notin> set l" and "CHR ''_'' \<notin> set l"
  shows "\<exists>e. parseLine l = Inl e"
proof -
  have l: "replaceAll l nul ''_'' = l" using assms(1) by (rule replaceAll_absent)
  let ?tail = "[FLit (CHR ''_''), FD, FNewline]"
  have tail: "length (fst (sscanf ?tail s)) = 0" if "CHR ''_'' \<notin> set s" for s
    using that by (auto split: list.split)
  have mid: "length (fst (sscanf (FD # ?tail) s)) \<le> 1" if "CHR ''_'' \<notin> set s" for s
    using that tail scanInt_set [of s]
    by (auto simp: case_prod_unfold Let_def simp del: sscanf.simps(2) split: sum.split)
  have slash: "length (fst (sscanf (FLit (CHR ''/'') # FD # ?tail) s)) \<le> 1" if "CHR ''_'' \<notin> set s" for s
    using that mid by (auto simp del: sscanf.simps(4) split: list.split)
  have "length (fst (sscanf (FD # FLit (CHR ''/'') # FD # ?tail) l)) \<le> 2"
    using assms(2) slash scanInt_set [of l]
    by (auto simp: case_prod_unfold Let_def simp del: sscanf.simps(2) split: sum.split)
  then show ?thesis
    by (auto simp: parseLine_def parseFormat_oldmail oldmailFormatSep_def oldmailSepReplace_def
        oldmailFields_def l case_prod_unfold Let_def split: option.split simp del: sscanf.simps)
qed

lemma decodeFile_tail:
  assumes "nl \<notin> set l" "l \<noteq> []" "length l < maxScanTokenSize" "dec (dropCR l) = Inl e"
  shows "decodeFile dec l = Err e"
proof -
  have tw: "takeWhile (\<lambda>c. c \<noteq> nl) l = l" "dropWhile (\<lambda>c. c \<noteq> nl) l = []"
    using assms(1) by (auto simp: takeWhile_eq_all_conv dropWhile_eq_Nil_conv)
  have "scanLines l = ([dropCR l], None)"
    using assms(2,3) by (simp add: scanLines.simps [of l] Let_def tw)
  then show ?thesis using assms(4) by (simp add: decodeFile_def)
qed

text \<open>
  A line torn before its separator makes the file unreadable: \<open>part\<close> is what the failing write
  left, a non-empty beginning of a line without the separator byte.
\<close>

lemma torn_line_unreadable:
  assumes c: "complete s" "decodeFile parseLine s = Ok xs"
    and p: "prefix part (oldmailLine om)" "part \<noteq> []" "nul \<notin> set part"
  shows "\<exists>e. decodeFile parseLine (s @ part) = Err e"
proof -
  obtain t where t: "oldmailEnc om @ [nl] = part @ t" using p(1) by (auto simp: prefix_def oldmailLine_eq)
  have "nul \<in> set (oldmailEnc om)" by (simp add: oldmailEnc_def)
  with p(3) have "t \<noteq> []" "\<not> length (oldmailEnc om) \<le> length part"
    using t by (metis append_self_conv append_is_Nil_conv in_set_conv_decomp last_appendR last_snoc
        set_append Un_iff append_eq_append_conv_if set_take_subset subsetD append_take_drop_id)+
  then have pre: "prefix part (oldmailEnc om)"
    using t by (metis append_eq_append_conv_if nle_le prefixI append_take_drop_id)
  then have sub: "set part \<subseteq> set (oldmailEnc om)" by (auto simp: prefix_def)
  have chars: "nl \<notin> set part" "CHR ''_'' \<notin> set part" "CHR 0x0D \<notin> set part"
    using sub by (auto simp: oldmailEnc_def)
  have len: "length part < maxScanTokenSize"
    using pre oc.enc_short [of om] prefix_length_le by fastforce
  have "last part \<noteq> CHR 0x0D" using chars(3) p(2) by (metis last_in_set)
  then have "dropCR part = part" by (simp add: dropCR_def)
  moreover obtain e where "parseLine part = Inl e"
    using parseLine_without_separator [OF p(3) chars(2)] by blast
  ultimately have "decodeFile parseLine part = Err e"
    using decodeFile_tail [OF chars(1) p(2) len] by simp
  then show ?thesis using decodeFile_append [OF c] by simp
qed

section \<open>Properties\<close>

text \<open>
  C19: Round trip of the oldmail format. What the writing stage writes for any list of emails,
  with any 64-bit identifiers and timestamps, negative ones included, reads back as that list.
\<close>

theorem oldmail_roundtrip:
  "decodeFile parseLine (concat (map oldmailLine oms)) = Ok oms"
  by (simp add: file_of_oldmails oc.decode_file_of)

text \<open>
  Appending is conservative. If the oldmail file of complete lines reads as some list and no
  write to it fails, then after the writing stage has consumed further entries the file reads as
  the list extended by exactly these entries, no error was counted, and the file again consists
  of complete lines.
\<close>

theorem writeout_then_read:
  assumes "readOldmail fs path = Ok xs" and "complete (content fs (path_key path))"
    and "\<forall>n. faults fs OpWrite (path_key path) n = None"
    and "fold (writeout_step path) oms (fs, writeout_init) = (fs', w)"
  shows "readOldmail fs' path = Ok (xs @ oms) \<and> wr_errCount w = 0 \<and>
    complete (content fs' (path_key path))"
proof -
  have "wr_err w = None"
    using assms(3,4) no_fault_no_error by blast
  with writeout_all [OF _ _ assms(4)]
  have w: "same_except {path_key path} fs fs'" "wr_errCount w = 0"
    "content fs' (path_key path) = content fs (path_key path) @ concat (map oldmailLine oms)"
    by (auto simp: writeout_init_def)
  have "isFile fs path = Ok True" using assms(1) by (simp add: readOldmail_Ok)
  then have "nodes fs' (path_key path) = Some (File (content fs' (path_key path)))"
    using writeout_file_node [OF isFile_content(1), of fs path oms writeout_init] assms(4)
    by (auto simp: content_def)
  then have "readOldmail fs' path = Ok (xs @ oms)"
    by (rule read_after_write [OF assms(1,2) w(1,3)])
  moreover have "complete (content fs' (path_key path))"
    unfolding w(3) file_of_oldmails by (rule complete_append [OF assms(2) oc.complete_file_of])
  ultimately show ?thesis using w(2) by blast
qed

definition oldmailFs :: "string \<Rightarrow> fsys" where
  "oldmailFs c = \<lparr>nodes = (\<lambda>k. if k = [''om''] then Some (File c) else None), faults = (\<lambda>op k n. None)\<rparr>"

lemma writeout_then_read_witness:
  "readOldmail (fst (fold (writeout_step ''om'') [\<lparr>om_uidFolder = 1, om_uid = 2, om_timestamp = -3\<rparr>]
      (oldmailFs [], writeout_init))) ''om'' = Ok [\<lparr>om_uidFolder = 1, om_uid = 2, om_timestamp = -3\<rparr>]"
proof -
  have k: "path_key ''om'' = [''om'']" by code_simp
  have r: "readOldmail (oldmailFs []) ''om'' = Ok []" by code_simp
  have c: "complete (content (oldmailFs []) (path_key ''om''))"
    by (simp add: k complete_def content_def oldmailFs_def)
  have f: "\<forall>n. faults (oldmailFs []) OpWrite (path_key ''om'') n = None"
    by (simp add: oldmailFs_def)
  show ?thesis
    using writeout_then_read [OF r c f prod.collapse [symmetric],
        of "[\<lparr>om_uidFolder = 1, om_uid = 2, om_timestamp = -3\<rparr>]"] by simp
qed

text \<open>
  What a failing write leaves. Whatever fails, the writing stage touches only the oldmail file
  and only appends to it: a number of complete lines for the first entries, then, if a write
  failed, a part of the next line; one error is counted then and the later entries are dropped.
\<close>

theorem writeout_appends_prefix:
  assumes "fold (writeout_step path) oms (fs, writeout_init) = (fs', w)"
  shows "same_except {path_key path} fs fs' \<and>
    (\<exists>n part. content fs' (path_key path) =
        content fs (path_key path) @ concat (map oldmailLine (take n oms)) @ part \<and>
      (if wr_err w = None then n = length oms \<and> part = [] \<and> wr_errCount w = 0
       else n < length oms \<and> prefix part (oldmailLine (oms ! n)) \<and> wr_errCount w = 1))"
  using writeout_all [OF _ _ assms] by (simp add: writeout_init_def)

lemma writeout_appends_prefix_witness:
  "\<exists>n part. content (fst (fold (writeout_step ''om'') [\<lparr>om_uidFolder = 1, om_uid = 2, om_timestamp = 3\<rparr>]
      (oldmailFs ''x'', writeout_init))) (path_key ''om'') = content (oldmailFs ''x'') (path_key ''om'') @
    concat (map oldmailLine (take n [\<lparr>om_uidFolder = 1, om_uid = 2, om_timestamp = 3\<rparr>])) @ part"
proof -
  let ?oms = "[\<lparr>om_uidFolder = 1, om_uid = 2, om_timestamp = 3\<rparr>]"
  let ?r = "fold (writeout_step ''om'') ?oms (oldmailFs ''x'', writeout_init)"
  have "?r = (fst ?r, snd ?r)" by (rule prod.collapse [symmetric])
  from writeout_appends_prefix [OF this] show ?thesis by blast
qed

text \<open>
  A torn line makes the oldmail file unreadable for good. If a failing write leaves a non-empty
  part of a line that does not reach the separator byte, every later read of the file fails, so
  that the folder can no longer be initialised.
\<close>

theorem torn_line_blocks_reading:
  assumes "readOldmail fs path = Ok xs" and "complete (content fs (path_key path))"
    and "faults fs OpWrite (path_key path) (length (content fs (path_key path))) = Some (e, n)"
    and "0 < n" and "nul \<notin> set (take n (oldmailLine om))"
  shows "\<exists>x. readOldmail (fst (writeout_step path om (fs, writeout_init))) path = Err x"
proof -
  let ?k = "path_key path" and ?part = "take n (oldmailLine om)"
  have fs': "fst (writeout_step path om (fs, writeout_init)) =
      put_node ?k (Some (File (content fs ?k @ ?part))) fs"
    using assms(3) by (simp add: writeout_step_cases writeout_init_def)
  note rd = assms(1) [unfolded readOldmail_Ok]
  note k = isFile_content [OF conjunct1 [OF rd]]
  have d: "decodeFile parseLine (content fs ?k) = Ok xs"
    using rd k by (auto simp: os_ReadAll_def look_def split: option.splits)
  have "?part \<noteq> []" using assms(4) by (simp add: oldmailLine_eq)
  then obtain x where "decodeFile parseLine (content fs ?k @ ?part) = Err x"
    using torn_line_unreadable [OF assms(2) d take_is_prefix] assms(5) by blast
  moreover have "faults fs OpRead ?k 0 = None"
    using rd by (auto simp: os_ReadAll_def split: option.splits)
  moreover note isFile_put [OF conjunct1 [OF rd], of "content fs ?k @ ?part"]
  ultimately show ?thesis
    using rd k by (simp add: fs' readOldmail_def os_ReadAll_def)
qed

lemma torn_line_blocks_reading_witness:
  "\<exists>x. readOldmail (fst (writeout_step ''om'' \<lparr>om_uidFolder = 12, om_uid = 2, om_timestamp = 3\<rparr>
      ((oldmailFs [])\<lparr>faults := (\<lambda>op k n. if op = OpWrite then Some (''disk full'', 2) else None)\<rparr>,
       writeout_init))) ''om'' = Err x"
proof -
  let ?fs = "(oldmailFs [])\<lparr>faults := (\<lambda>op k n. if op = OpWrite then Some (''disk full'', 2) else None)\<rparr>"
  let ?om = "\<lparr>om_uidFolder = 12, om_uid = 2, om_timestamp = 3\<rparr>"
  have k: "path_key ''om'' = [''om'']" by code_simp
  have r: "readOldmail ?fs ''om'' = Ok []" by code_simp
  have c: "complete (content ?fs (path_key ''om''))"
    by (simp add: k complete_def content_def oldmailFs_def)
  have f: "faults ?fs OpWrite (path_key ''om'') (length (content ?fs (path_key ''om''))) = Some (''disk full'', 2)"
    by simp
  have p: "nul \<notin> set (take 2 (oldmailLine ?om))" by code_simp
  show ?thesis by (rule torn_line_blocks_reading [OF r c f _ p]) simp
qed

end
