(* ===== verification/Maildir.thy ===== *)
theory Maildir
  imports Oldmail Threading
begin

text \<open>
  The maildir of \<open>core/maildir.go\<close>: unique file names, recognising and creating a maildir with its
  oldmail file, and the delivery of an email through \<open>tmp\<close> into \<open>new\<close>. What a process learns from
  its environment while it delivers (host name, process id, clock, random bytes) is a record of
  functions of the delivery number.
\<close>

section \<open>Model\<close>

definition curMaildir :: string where "curMaildir = ''cur''"
definition newMaildir :: string where "newMaildir = ''new''"
definition tmpMaildir :: string where "tmpMaildir = ''tmp''"

record environment =
  hostname :: "gerr + string"
  pid :: int
  clock :: "nat \<Rightarrow> int \<times> int"
  random :: "nat \<Rightarrow> gerr + string"

definition hexDigit :: "nat \<Rightarrow> char" where
  "hexDigit d = (if d < 10 then char_of (48 + d) else char_of (87 + d))"

definition hexEncode :: "string \<Rightarrow> string" where
  "hexEncode bs =
     concat (map (\<lambda>b. [hexDigit (of_char b div 16), hexDigit (of_char b mod 16)]) bs)"

text \<open>
  The name for the delivery \<open>localCount\<close>; \<open>injected\<close> is the parameter that replaces the host
  name unless it is empty. The second component of \<open>clock\<close> is in nanoseconds.
\<close>

definition uniqueName :: "environment \<Rightarrow> string \<Rightarrow> nat \<Rightarrow> string res" where
  "uniqueName env injected localCount =
     (let (timeInSecs, nanos) = clock env localCount;
          microSecsOfTime = nanos div 1000;
          (host, err) = (if injected = [] then
                           (case hostname env of Inl e \<Rightarrow> ([], Some e) | Inr h \<Rightarrow> (h, None))
                         else (injected, None));
          host = replaceAll host (CHR ''/'') (CHR 0x5C # ''057'');
          host = replaceAll host (CHR '':'') (CHR 0x5C # ''072'');
          (randomHex, err) = (if err = None then
                                (case random env localCount of
                                   Inl e \<Rightarrow> ([], Some e)
                                 | Inr bytes \<Rightarrow> (hexEncode bytes, None))
                              else ([], err));
          filename = showInt timeInSecs @ ''.M'' @ showInt microSecsOfTime @ ''P'' @ showInt (pid env) @
            ''Q'' @ showNat localCount @ ''R'' @ randomHex @ ''.'' @ host
      in case err of
           Some e \<Rightarrow> Err e
         | None \<Rightarrow>
             if CHR '' '' \<in> set filename
             then Err (''whitespace detected in unique file name '' @ filename)
             else Ok filename)"

definition newUniqueName ::
    "environment \<Rightarrow> string \<Rightarrow> threadSafeCounter \<Rightarrow> threadSafeCounter \<times> string res" where
  "newUniqueName env injected deliveryCount =
     (let (deliveryCount, localCount) = counter_inc deliveryCount
      in (deliveryCount, uniqueName env injected localCount))"

fun allDirs :: "fsys \<Rightarrow> string \<Rightarrow> string list \<Rightarrow> bool res" where
  "allDirs fs path [] = Ok True"
| "allDirs fs path (dir # dirs) =
     bind_res (isDir fs (joinPath [path, dir])) (\<lambda>d. if \<not> d then Ok False else allDirs fs path dirs)"

definition isMaildir :: "fsys \<Rightarrow> string \<Rightarrow> bool res" where
  "isMaildir fs path = allDirs fs path [newMaildir, curMaildir, tmpMaildir]"

definition initExistingMaildir ::
    "fsys \<Rightarrow> string \<Rightarrow> maildirPathT \<Rightarrow> (oldmail list \<times> string) res" where
  "initExistingMaildir fs oldmailName maildirPath =
     bind_res (isMaildir fs (folderPath maildirPath)) (\<lambda>ok.
       if \<not> ok
       then Err (''given directory '' @ folderPath maildirPath @ '' does not point to a maildir'')
       else
         let oldmailPath = joinPath [basePath maildirPath, oldmailName] in
         bind_res (readOldmail fs oldmailPath) (\<lambda>oldmails. Ok (oldmails, oldmailPath)))"

text \<open>The sequence of directory creations of \<open>initMaildir\<close>; after an error nothing more is done.\<close>

fun mkdirAlls :: "string list \<Rightarrow> fsys \<Rightarrow> fsys \<times> unit res" where
  "mkdirAlls [] fs = (fs, Ok ())"
| "mkdirAlls (p # ps) fs =
     (case os_MkdirAll (path_key p) fs of
        (fs', Ok _) \<Rightarrow> mkdirAlls ps fs'
      | (fs', Err e) \<Rightarrow> (fs', Err e)
      | (fs', Panic e) \<Rightarrow> (fs', Panic e))"

definition createMaildir :: "string \<Rightarrow> maildirPathT \<Rightarrow> fsys \<Rightarrow> fsys \<times> unit res" where
  "createMaildir oldmailName maildirPath fs =
     (let folder = folderPath maildirPath in
      case mkdirAlls (folder # map (\<lambda>dir. joinPath [folder, dir]) [newMaildir, curMaildir, tmpMaildir]) fs of
        (fs', Ok _) \<Rightarrow> touch (joinPath [basePath maildirPath, oldmailName]) fs'
      | (fs', Err e) \<Rightarrow> (fs', Err e)
      | (fs', Panic e) \<Rightarrow> (fs', Panic e))"

definition initMaildir ::
    "string \<Rightarrow> maildirPathT \<Rightarrow> fsys \<Rightarrow> fsys \<times> (oldmail list \<times> string) res" where
  "initMaildir oldmailName maildirPath fs =
     (let oldmailName = replaceAll oldmailName (CHR ''/'') ''.'' in
      case isDir fs (folderPath maildirPath) of
        Panic p \<Rightarrow> (fs, Panic p)
      | Err e \<Rightarrow> (fs, Err e)
      | Ok True \<Rightarrow> (fs, initExistingMaildir fs oldmailName maildirPath)
      | Ok False \<Rightarrow>
          (case createMaildir oldmailName maildirPath fs of
             (fs', Ok _) \<Rightarrow> (fs', initExistingMaildir fs' oldmailName maildirPath)
           | (fs', Err e) \<Rightarrow> (fs', Err e)
           | (fs', Panic p) \<Rightarrow> (fs', Panic p)))"

text \<open>
  Delivery. \<open>mbase\<close> is the path of the maildir; the state is the file system and the global
  delivery counter.
\<close>

definition deliverFile :: "string \<Rightarrow> string \<Rightarrow> string \<Rightarrow> fsys \<Rightarrow> fsys \<times> unit res" where
  "deliverFile rfc822 mbase fileName fs =
     (let tmpPath = joinPath [mbase, tmpMaildir, fileName];
          newPath = joinPath [mbase, newMaildir, fileName] in
      case errorIfExists fs tmpPath (''unique file name '' @ quoted tmpPath @ '' is not unique'') of
        Some e \<Rightarrow> (fs, Err e)
      | None \<Rightarrow>
          (case os_WriteFile (path_key tmpPath) rfc822 fs of
             (fs', Err e) \<Rightarrow> (fs', Err e)
           | (fs', Panic p) \<Rightarrow> (fs', Panic p)
           | (fs', Ok _) \<Rightarrow>
               (case errorIfExists fs' newPath (''permanent storage '' @ quoted newPath @ '' already exists'') of
                  Some e \<Rightarrow> (fs', Err e)
                | None \<Rightarrow> os_Rename (path_key tmpPath) (path_key newPath) fs')))"

definition deliverMessage ::
    "environment \<Rightarrow> string \<Rightarrow> string \<Rightarrow> fsys \<times> threadSafeCounter \<Rightarrow>
      (fsys \<times> threadSafeCounter) \<times> unit res" where
  "deliverMessage env rfc822 mbase st =
     (case st of (fs, deliveryCount) \<Rightarrow>
        (case newUniqueName env [] deliveryCount of
           (dc, Err e) \<Rightarrow> ((fs, dc), Err e)
         | (dc, Panic p) \<Rightarrow> ((fs, dc), Panic p)
         | (dc, Ok fileName) \<Rightarrow>
             (case deliverFile rfc822 mbase fileName fs of (fs', r) \<Rightarrow> ((fs', dc), r))))"

section \<open>Unique names\<close>

definition hostPart :: "environment \<Rightarrow> string \<Rightarrow> string" where
  "hostPart env injected =
     replaceAll (replaceAll (if injected = [] then (case hostname env of Inl e \<Rightarrow> [] | Inr h \<Rightarrow> h)
        else injected) (CHR ''/'') (CHR 0x5C # ''057'')) (CHR '':'') (CHR 0x5C # ''072'')"

lemma uniqueName_Ok:
  assumes "uniqueName env injected n = Ok f"
  obtains bytes where "random env n = Inr bytes" "CHR '' '' \<notin> set f"
    "f = showInt (fst (clock env n)) @ CHR ''.'' # CHR ''M'' # showInt (snd (clock env n) div 1000) @
       CHR ''P'' # showInt (pid env) @ CHR ''Q'' # showNat n @ CHR ''R'' # hexEncode bytes @
       CHR ''.'' # hostPart env injected"
  using assms
  by (auto simp: uniqueName_def hostPart_def Let_def case_prod_unfold
      split: if_splits sum.splits option.splits)

text \<open>A number is cut off at the first byte that cannot belong to it.\<close>

lemma cut_int:
  assumes "showInt i @ c # ys = showInt j @ c # ys'" and "\<not> isDigit c" and "c \<noteq> CHR ''-''"
  shows "i = j \<and> ys = ys'"
proof -
  let ?P = "\<lambda>c. isDigit c \<or> c = CHR ''-''"
  have "showInt i = showInt j" "ys = ys'"
    using assms split_at_class [of "showInt i" c ys "showInt j" c ys' ?P] showInt_chars by blast+
  then show ?thesis by simp
qed

lemma cut_nat:
  assumes "showNat m @ c # ys = showNat n @ c # ys'" and "\<not> isDigit c"
  shows "m = n \<and> ys = ys'"
proof -
  have "showNat m = showNat n" "ys = ys'"
    using assms split_at_class [of "showNat m" c ys "showNat n" c ys' isDigit] showNat_digits by blast+
  then show ?thesis by simp
qed

lemma uniqueName_determines:
  assumes "uniqueName env injected n = Ok f" and "uniqueName env' injected' n' = Ok f"
  shows "n = n'" "pid env = pid env'" "fst (clock env n) = fst (clock env' n')"
    "snd (clock env n) div 1000 = snd (clock env' n') div 1000"
proof -
  obtain b where f: "f = showInt (fst (clock env n)) @ CHR ''.'' # CHR ''M'' #
       showInt (snd (clock env n) div 1000) @ CHR ''P'' # showInt (pid env) @ CHR ''Q'' #
       showNat n @ CHR ''R'' # hexEncode b @ CHR ''.'' # hostPart env injected"
    using uniqueName_Ok [OF assms(1)] by metis
  obtain b' where f': "f = showInt (fst (clock env' n')) @ CHR ''.'' # CHR ''M'' #
       showInt (snd (clock env' n') div 1000) @ CHR ''P'' # showInt (pid env') @ CHR ''Q'' #
       showNat n' @ CHR ''R'' # hexEncode b' @ CHR ''.'' # hostPart env' injected'"
    using uniqueName_Ok [OF assms(2)] by metis
  note sep = isDigit_def
  from f f' have "showInt (fst (clock env n)) @ CHR ''.'' # CHR ''M'' #
       showInt (snd (clock env n) div 1000) @ CHR ''P'' # showInt (pid env) @ CHR ''Q'' #
       showNat n @ CHR ''R'' # hexEncode b @ CHR ''.'' # hostPart env injected =
     showInt (fst (clock env' n')) @ CHR ''.'' # CHR ''M'' #
       showInt (snd (clock env' n') div 1000) @ CHR ''P'' # showInt (pid env') @ CHR ''Q'' #
       showNat n' @ CHR ''R'' # hexEncode b' @ CHR ''.'' # hostPart env' injected'" by simp
  note 1 = cut_int [OF this]
  then have r1: "fst (clock env n) = fst (clock env' n')"
    "showInt (snd (clock env n) div 1000) @ CHR ''P'' # showInt (pid env) @ CHR ''Q'' #
       showNat n @ CHR ''R'' # hexEncode b @ CHR ''.'' # hostPart env injected =
     showInt (snd (clock env' n') div 1000) @ CHR ''P'' # showInt (pid env') @ CHR ''Q'' #
       showNat n' @ CHR ''R'' # hexEncode b' @ CHR ''.'' # hostPart env' injected'"
    by (simp_all add: sep)
  note 2 = cut_int [OF r1(2)]
  then have r2: "snd (clock env n) div 1000 = snd (clock env' n') div 1000"
    "showInt (pid env) @ CHR ''Q'' # showNat n @ CHR ''R'' # hexEncode b @ CHR ''.'' #
       hostPart env injected =
     showInt (pid env') @ CHR ''Q'' # showNat n' @ CHR ''R'' # hexEncode b' @ CHR ''.'' #
       hostPart env' injected'"
    by (simp_all add: sep)
  note 3 = cut_int [OF r2(2)]
  then have r3: "pid env = pid env'"
    "showNat n @ CHR ''R'' # hexEncode b @ CHR ''.'' # hostPart env injected =
     showNat n' @ CHR ''R'' # hexEncode b' @ CHR ''.'' # hostPart env' injected'"
    by (simp_all add: sep)
  from cut_nat [OF r3(2)] show "n = n'" by (simp add: sep)
  from r1 r2 r3 show "pid env = pid env'" "fst (clock env n) = fst (clock env' n')"
    "snd (clock env n) div 1000 = snd (clock env' n') div 1000" by simp_all
qed

lemma hexEncode_chars: "c \<in> set (hexEncode bs) \<Longrightarrow> c \<noteq> CHR ''/''"
proof -
  have d: "hexDigit d \<noteq> CHR ''/''" if "d < 16" for d
  proof
    assume "hexDigit d = CHR ''/''"
    then have "of_char (hexDigit d) = (47 :: nat)" by simp
    with that show False by (auto simp: hexDigit_def split: if_splits)
  qed
  have "of_char (b :: char) < (256 :: nat)" for b :: char by simp
  then have "(of_char b :: nat) div 16 < 16" for b :: char
    by (simp add: less_mult_imp_div_less)
  then show "c \<in> set (hexEncode bs) \<Longrightarrow> c \<noteq> CHR ''/''"
    using d by (auto simp: hexEncode_def) (metis d mod_less_divisor zero_less_numeral)+
qed

lemma uniqueName_plain:
  assumes "uniqueName env injected n = Ok f"
  shows "plain f"
proof -
  obtain b where f: "f = showInt (fst (clock env n)) @ CHR ''.'' # CHR ''M'' #
       showInt (snd (clock env n) div 1000) @ CHR ''P'' # showInt (pid env) @ CHR ''Q'' #
       showNat n @ CHR ''R'' # hexEncode b @ CHR ''.'' # hostPart env injected"
    using uniqueName_Ok [OF assms] by metis
  have "CHR ''/'' \<notin> set (showInt i)" "CHR ''/'' \<notin> set (showNat m)" for i m
    using showInt_chars [of "CHR ''/''" i] showNat_digits [of "CHR ''/''" m] by (auto simp: isDigit_def)
  moreover have "CHR ''/'' \<notin> set (hostPart env injected)"
    by (auto simp: hostPart_def set_replaceAll)
  ultimately have "CHR ''/'' \<notin> set f"
    using hexEncode_chars [of "CHR ''/''" b] unfolding f by auto
  moreover have "CHR ''M'' \<in> set f" unfolding f by simp
  ultimately show ?thesis by (auto simp: plain_def proper_def)
qed

section \<open>Delivery of one file\<close>

definition tmpKey :: "string \<Rightarrow> string \<Rightarrow> string list" where
  "tmpKey mbase f = path_key mbase @ [tmpMaildir, f]"

definition newKey :: "string \<Rightarrow> string \<Rightarrow> string list" where
  "newKey mbase f = path_key mbase @ [newMaildir, f]"

lemma maildir_plain [simp]: "plain tmpMaildir" "plain newMaildir" "plain curMaildir"
  by (simp_all add: plain_def proper_def tmpMaildir_def newMaildir_def curMaildir_def)

lemma delivery_keys [simp]:
  assumes "mbase \<noteq> []" and "plain f"
  shows "path_key (joinPath [mbase, tmpMaildir, f]) = tmpKey mbase f"
    and "path_key (joinPath [mbase, newMaildir, f]) = newKey mbase f"
  unfolding tmpKey_def newKey_def
  by (rule path_key_joinPath; use assms in auto)+

lemma delivery_keys_differ [simp]:
  "tmpKey mbase f \<noteq> newKey mbase g" "newKey mbase g \<noteq> tmpKey mbase f"
  "tmpKey mbase f \<noteq> []" "tmpKey mbase f \<noteq> [[]]" "newKey mbase f \<noteq> []" "newKey mbase f \<noteq> [[]]"
  "tmpKey mbase f = tmpKey mbase g \<longleftrightarrow> f = g" "newKey mbase f = newKey mbase g \<longleftrightarrow> f = g"
  by (auto simp: tmpKey_def newKey_def tmpMaildir_def newMaildir_def)

lemma errorIfExists_None: "errorIfExists fs p m = None \<Longrightarrow> look fs (path_key p) = None"
  by (auto simp: errorIfExists_def split: stat.splits intro: os_Stat_not_exist)

lemma deliverFile_keys:
  assumes "mbase \<noteq> []" and "plain f"
  shows "\<exists>e1 e2. deliverFile body mbase f fs =
     (if os_Stat fs (tmpKey mbase f) \<noteq> StatNotExist then (fs, Err e1)
      else case os_WriteFile (tmpKey mbase f) body fs of
          (fs', Err e) \<Rightarrow> (fs', Err e)
        | (fs', Panic p) \<Rightarrow> (fs', Panic p)
        | (fs', Ok _) \<Rightarrow>
            if os_Stat fs' (newKey mbase f) \<noteq> StatNotExist then (fs', Err e2)
            else os_Rename (tmpKey mbase f) (newKey mbase f) fs')"
  unfolding deliverFile_def errorIfExists_def delivery_keys [OF assms] Let_def
  by (intro exI) (auto split: stat.split res.split prod.split)

lemma deliverFile_Ok:
  assumes "deliverFile body mbase f fs = (fs', Ok u)" and "mbase \<noteq> []" and "plain f"
  shows "look fs (tmpKey mbase f) = None" "look fs (newKey mbase f) = None"
    "fs' = put_node (newKey mbase f) (Some (File body)) fs"
proof -
  let ?t = "tmpKey mbase f" and ?n = "newKey mbase f"
  obtain fs1 where
    e1: "os_Stat fs ?t = StatNotExist" and w: "os_WriteFile ?t body fs = (fs1, Ok ())" and
    e2: "os_Stat fs1 ?n = StatNotExist" and r: "os_Rename ?t ?n fs1 = (fs', Ok u)"
    using assms(1) deliverFile_keys [OF assms(2,3), of body fs]
    by (auto split: if_splits prod.splits res.splits)
  have fs1: "fs1 = put_node ?t (Some (File body)) fs" using os_WriteFile_Ok [OF w] by simp
  show t: "look fs ?t = None" using e1 by (rule os_Stat_not_exist)
  show "look fs ?n = None" using os_Stat_not_exist [OF e2] by (simp add: fs1)
  show "fs' = put_node ?n (Some (File body)) fs"
  proof (rule os_Rename_Ok [OF r])
    fix c assume c: "look fs1 ?t = Some (File c)" "fs' = put_node ?n (Some (File c)) (put_node ?t None fs1)"
    have "c = body" using c(1) by (simp add: fs1)
    moreover have "put_node ?t None fs1 = fs" using t by (simp add: fs1 look_def)
    ultimately show ?thesis using c(2) by simp
  qed
qed

lemma deliverFile_Err:
  assumes "deliverFile body mbase f fs = (fs', Err e)" and "mbase \<noteq> []" and "plain f"
  shows "fs' = fs \<or> look fs (tmpKey mbase f) = None \<and> same_except {tmpKey mbase f} fs fs'"
proof -
  let ?t = "tmpKey mbase f"
  have "same_except {?t} fs (fst (os_WriteFile ?t body fs))" by (simp add: same_except_WriteFile)
  then show ?thesis
    using assms(1) deliverFile_keys [OF assms(2,3), of body fs]
    by (auto dest: os_Rename_Err os_Rename_Err [OF sym] os_Stat_not_exist split: if_splits prod.splits res.splits)
qed

lemma deliverFile_no_panic:
  assumes "mbase \<noteq> []" and "plain f"
  shows "snd (deliverFile body mbase f fs) \<noteq> Panic p"
  using deliverFile_keys [OF assms, of body fs] os_WriteFile_no_panic [of "tmpKey mbase f" body fs]
    os_Rename_no_panic
  by (cases "os_WriteFile (tmpKey mbase f) body fs") (auto split: if_splits res.splits)

section \<open>Creating a maildir\<close>

lemma mkdirAlls_Ok:
  "mkdirAlls ps fs = (fs', Ok u) \<Longrightarrow> faults fs' = faults fs \<and>
    (\<forall>j. look fs' j = (if \<exists>p \<in> set ps. j \<in> ancestors (path_key p) then Some Dir else look fs j))"
proof (induction ps arbitrary: fs)
  case (Cons p ps)
  then obtain fs1 where 1: "os_MkdirAll (path_key p) fs = (fs1, Ok ())" "mkdirAlls ps fs1 = (fs', Ok u)"
    by (auto split: prod.splits res.splits)
  show ?case using os_MkdirAll_Ok [OF 1(1)] Cons.IH [OF 1(2)] by auto
qed simp

definition maildirKeys :: "maildirPathT \<Rightarrow> string list set" where
  "maildirKeys p = ancestors (path_key (folderPath p)) \<union>
     {path_key (folderPath p) @ [d] | d. d \<in> {newMaildir, curMaildir, tmpMaildir}}"

definition oldmailKey :: "maildirPathT \<Rightarrow> string \<Rightarrow> string list" where
  "oldmailKey p om = path_key (joinPath [basePath p, om])"

lemma subdir_key [simp]:
  "plain d \<Longrightarrow> path_key (joinPath [folderPath p, d]) = path_key (folderPath p) @ [d]"
  by (rule path_key_joinPath) auto

lemma createMaildir_Ok:
  assumes "createMaildir om p fs = (fs', Ok u)"
  shows "faults fs' = faults fs" and "oldmailKey p om \<notin> maildirKeys p"
    and "look fs' j = (if j = oldmailKey p om then Some (File [])
                       else if j \<in> maildirKeys p then Some Dir else look fs j)"
proof -
  let ?ps = "folderPath p # map (\<lambda>d. joinPath [folderPath p, d]) [newMaildir, curMaildir, tmpMaildir]"
  obtain fs1 where 1: "mkdirAlls ?ps fs = (fs1, Ok ())"
    and 2: "os_WriteFile (oldmailKey p om) [] fs1 = (fs', Ok u)"
    using assms by (auto simp: createMaildir_def Let_def touch_def oldmailKey_def
        split: prod.splits res.splits)
  have dirs: "(\<exists>q \<in> set ?ps. j \<in> ancestors (path_key q)) \<longleftrightarrow> j \<in> maildirKeys p" for j
    by (auto simp: maildirKeys_def ancestors_append)
  have l1: "look fs1 j = (if j \<in> maildirKeys p then Some Dir else look fs j)" for j
    using mkdirAlls_Ok [OF 1] unfolding dirs by blast
  have f1: "faults fs1 = faults fs" using mkdirAlls_Ok [OF 1] by blast
  note w = os_WriteFile_Ok [OF 2]
  show "faults fs' = faults fs" using w f1 by simp
  show "oldmailKey p om \<notin> maildirKeys p" using w(2) l1 by auto
  have "oldmailKey p om \<noteq> []" "oldmailKey p om \<noteq> [[]]" using w(2) by (auto simp: look_def)
  then show "look fs' j = (if j = oldmailKey p om then Some (File [])
      else if j \<in> maildirKeys p then Some Dir else look fs j)"
    using w(1) l1 by auto
qed

text \<open>Recognising a directory: an existing directory is recognised unless \<open>os.Stat\<close> fails on it.\<close>

lemma isDir_Ok_False: "isDir fs p = Ok False \<Longrightarrow> faults fs OpStat (path_key p) 0 = None"
  by (auto simp: isDir_def os_Stat_def split: stat.splits option.splits)

lemma isDir_True:
  "look fs (path_key p) = Some Dir \<Longrightarrow> faults fs OpStat (path_key p) 0 = None \<Longrightarrow> isDir fs p = Ok True"
  by (simp add: isDir_def os_Stat_present)

lemma isDir_TrueD: "isDir fs p = Ok True \<Longrightarrow> look fs (path_key p) = Some Dir"
  by (auto simp: isDir_def os_Stat_def split: stat.splits option.splits node.splits if_splits)

lemma isMaildir_dirs:
  assumes "isMaildir fs path = Ok True" and "path \<noteq> []" and "d \<in> {newMaildir, curMaildir, tmpMaildir}"
  shows "look fs (path_key path @ [d]) = Some Dir"
proof -
  have "isDir fs (joinPath [path, d]) = Ok True"
    using assms(1,3) by (auto simp: isMaildir_def split: if_splits)
  note this [THEN isDir_TrueD]
  moreover have "path_key (joinPath [path, d]) = path_key path @ [d]"
    using assms(2,3) by (intro path_key_joinPath) auto
  ultimately show ?thesis by simp
qed

lemma initMaildir_cases:
  assumes "initMaildir om p fs = (fs', Ok r)"
  obtains (existing) "isDir fs (folderPath p) = Ok True" "fs' = fs"
      "initExistingMaildir fs (replaceAll om (CHR ''/'') ''.'') p = Ok r"
    | (created) "isDir fs (folderPath p) = Ok False"
      "createMaildir (replaceAll om (CHR ''/'') ''.'') p fs = (fs', Ok ())"
      "initExistingMaildir fs' (replaceAll om (CHR ''/'') ''.'') p = Ok r"
  using assms by (auto simp: initMaildir_def Let_def split: res.splits bool.splits prod.splits)

lemma initMaildir_again:
  assumes "initMaildir om p fs = (fs', Ok r)"
  shows "initMaildir om p fs' = (fs', Ok r)"
proof -
  let ?om = "replaceAll om (CHR ''/'') ''.''"
  have "isDir fs' (folderPath p) = Ok True \<and> initExistingMaildir fs' ?om p = Ok r"
    using assms
  proof (cases rule: initMaildir_cases)
    case created
    have "path_key (folderPath p) \<in> maildirKeys p" by (simp add: maildirKeys_def)
    then have "look fs' (path_key (folderPath p)) = Some Dir"
      using createMaildir_Ok [OF created(2)] by metis
    with created show ?thesis
      using isDir_True isDir_Ok_False [OF created(1)] createMaildir_Ok(1) [OF created(2)] by simp
  qed simp
  then show ?thesis by (simp add: initMaildir_def)
qed

lemma initMaildir_result:
  assumes "initMaildir om p fs = (fs', Ok (oms, path))"
  shows "isMaildir fs' (folderPath p) = Ok True"
    and "path = joinPath [basePath p, replaceAll om (CHR ''/'') ''.'']"
    and "readOldmail fs' path = Ok oms"
proof -
  have "initExistingMaildir fs' (replaceAll om (CHR ''/'') ''.'') p = Ok (oms, path)"
    using assms by (cases rule: initMaildir_cases) auto
  then show "isMaildir fs' (folderPath p) = Ok True"
    "path = joinPath [basePath p, replaceAll om (CHR ''/'') ''.'']" "readOldmail fs' path = Ok oms"
    by (auto simp: initExistingMaildir_def Let_def split: if_splits)
qed

lemma mkdirAlls_wf: "fs_wf fs \<Longrightarrow> mkdirAlls ps fs = (fs', Ok u) \<Longrightarrow> fs_wf fs'"
proof (induction ps arbitrary: fs)
  case (Cons p ps)
  then obtain fs1 where "os_MkdirAll (path_key p) fs = (fs1, Ok ())" "mkdirAlls ps fs1 = (fs', Ok u)"
    by (auto split: prod.splits res.splits)
  with Cons show ?case by (blast intro: fs_wf_MkdirAll)
qed simp

lemma createMaildir_wf:
  assumes "fs_wf fs" and "createMaildir om p fs = (fs', Ok u)"
  shows "fs_wf fs'"
proof -
  let ?ps = "folderPath p # map (\<lambda>d. joinPath [folderPath p, d]) [newMaildir, curMaildir, tmpMaildir]"
  obtain fs1 where 1: "mkdirAlls ?ps fs = (fs1, Ok ())"
    and 2: "os_WriteFile (oldmailKey p om) [] fs1 = (fs', Ok u)"
    using assms(2) by (auto simp: createMaildir_def Let_def touch_def oldmailKey_def
        split: prod.splits res.splits)
  show ?thesis
    using fs_wf_WriteFile [OF mkdirAlls_wf [OF assms(1) 1], of "oldmailKey p om" "[]"] 2 by simp
qed

lemma oldmailKey_plain: "plain om \<Longrightarrow> oldmailKey p om = path_key (base p) @ [om]"
  unfolding oldmailKey_def by (subst path_key_joinPath) auto

text \<open>
  The directories above the folder are created as plain directories: if the folder is nested, the
  outer one exists afterwards without being a maildir.
\<close>

lemma outer_not_maildir:
  assumes outer: "inside f" and inner: "plain g" "g \<noteq> newMaildir"
    and om: "plain om" and wf: "fs_wf fs" and fresh: "look fs (path_key b @ splitSlash f) = None"
    and stat: "\<And>k. faults fs OpStat k 0 = None"
    and created: "createMaildir om \<lparr>base = b, mfolder = f @ CHR ''/'' # g\<rparr> fs = (fs', Ok ())"
  shows "isDir fs' (folderPath \<lparr>base = b, mfolder = f\<rparr>) = Ok True"
    and "isMaildir fs' (folderPath \<lparr>base = b, mfolder = f\<rparr>) = Ok False"
proof -
  let ?p = "\<lparr>base = b, mfolder = f @ CHR ''/'' # g\<rparr>" and ?q = "\<lparr>base = b, mfolder = f\<rparr>"
  let ?K = "path_key b @ splitSlash f"
  have gs: "splitSlash (f @ CHR ''/'' # g) = splitSlash f @ [g]"
  proof -
    have "CHR ''/'' \<notin> set g" using inner(1) by (simp add: plain_def proper_def)
    then show ?thesis using splitSlash_append [of f g] by simp
  qed
  have kp: "path_key (folderPath ?p) = ?K @ [g]"
    using outer inner(1) by (subst path_key_folder) (use gs in \<open>auto simp: inside_def\<close>)
  have kq: "path_key (folderPath ?q) = ?K"
    using outer by (simp add: path_key_folder)
  note c = createMaildir_Ok [OF created]
  have K: "?K \<in> maildirKeys ?p" "?K @ [newMaildir] \<notin> maildirKeys ?p"
    using inner(2) by (auto simp: maildirKeys_def kp ancestors_append ancestors_def prefix_def)
  have O: "oldmailKey ?p om \<noteq> ?K" "oldmailKey ?p om \<noteq> ?K @ [newMaildir]"
    using K(1) c(2) by (auto simp: oldmailKey_plain [OF om] append_eq_append_conv2 not_sym [OF splitSlash_not_Nil])
  have l: "look fs' ?K = Some Dir" using K(1) O(1) by (simp add: c(3))
  have "look fs (?K @ [newMaildir]) = None" using fresh wf unfolding fs_wf_def by (metis option.distinct(1))
  then have n: "look fs' (?K @ [newMaildir]) = None" using K(2) O(2) by (simp add: c(3))
  have stat': "faults fs' OpStat k 0 = None" for k using c(1) stat by simp
  show "isDir fs' (folderPath ?q) = Ok True" by (rule isDir_True) (simp_all add: kq l stat')
  have "os_Stat fs' (?K @ [newMaildir]) = StatNotExist"
    by (rule os_Stat_missing [OF createMaildir_wf [OF wf created] l n stat'])
  then have "isDir fs' (joinPath [folderPath ?q, newMaildir]) = Ok False"
    by (simp add: isDir_def kq)
  then show "isMaildir fs' (folderPath ?q) = Ok False" by (simp add: isMaildir_def)
qed

section \<open>A delivery succeeds\<close>

definition noFaults :: "fsys \<Rightarrow> bool" where
  "noFaults fs \<longleftrightarrow> (\<forall>op k n. faults fs op k n = None)"

lemma os_WriteFile_succeeds:
  assumes "noFaults fs" and "look fs (butlast k) = Some Dir" and "look fs k \<noteq> Some Dir"
  shows "os_WriteFile k bs fs = (put_node k (Some (File bs)) fs, Ok ())"
  using assms
  by (auto simp: os_WriteFile_def os_Create_def handle_Write_def handle_Close_def noFaults_def
      split: option.split node.split)

lemma deliverFile_succeeds:
  assumes wf: "fs_wf fs" "noFaults fs" and ne: "mb \<noteq> []" "plain f"
    and dirs: "look fs (path_key mb @ [tmpMaildir]) = Some Dir" "look fs (path_key mb @ [newMaildir]) = Some Dir"
    and free: "look fs (tmpKey mb f) = None" "look fs (newKey mb f) = None"
  shows "deliverFile body mb f fs = (put_node (newKey mb f) (Some (File body)) fs, Ok ())"
proof -
  let ?t = "tmpKey mb f" and ?n = "newKey mb f" and ?fs1 = "put_node (tmpKey mb f) (Some (File body)) fs"
  have kt: "?t = (path_key mb @ [tmpMaildir]) @ [f]" and kn: "?n = (path_key mb @ [newMaildir]) @ [f]"
    by (simp_all add: tmpKey_def newKey_def)
  have s1: "os_Stat fs ?t = StatNotExist"
    unfolding kt using wf dirs(1) free(1) by (intro os_Stat_missing) (auto simp: kt noFaults_def)
  have wf1: "fs_wf ?fs1"
    using wf(1) dirs(1) free(1) by (intro fs_wf_put_file) (auto simp: kt butlast_append)
  have d1: "look ?fs1 (path_key mb @ [newMaildir]) = Some Dir"
    using dirs(2) by (simp add: kt)
  have "look ?fs1 ((path_key mb @ [newMaildir]) @ [f]) = None"
    using free(2) unfolding kn [symmetric] by simp
  then have s2: "os_Stat ?fs1 ?n = StatNotExist"
    unfolding kn using wf(2) by (intro os_Stat_missing [OF wf1 d1]) (simp_all add: noFaults_def)
  have w: "os_WriteFile ?t body fs = (?fs1, Ok ())"
    using wf(2) dirs(1) free(1) by (intro os_WriteFile_succeeds) (auto simp: kt butlast_append)
  have bn: "butlast ?n = path_key mb @ [newMaildir]" by (simp add: kn butlast_append)
  have r: "os_Rename ?t ?n ?fs1 = (put_node ?n (Some (File body)) (put_node ?t None ?fs1), Ok ())"
    using wf(2) free(2) d1 bn by (simp add: os_Rename_def noFaults_def)
  have "put_node ?t None ?fs1 = fs" using free(1) by (simp add: look_def)
  then show ?thesis
    using deliverFile_keys [OF ne, of body fs] s1 s2 w r by auto
qed

section \<open>Properties\<close>

text \<open>A concrete backup directory for the witnesses: one maildir, no oldmail file, no failures.\<close>

definition exampleFs :: fsys where
  "exampleFs = \<lparr>nodes = (\<lambda>k. if k \<in> {[''backup''], [''backup'', ''INBOX''], [''backup'', ''INBOX'', ''new''],
       [''backup'', ''INBOX'', ''cur''], [''backup'', ''INBOX'', ''tmp'']} then Some Dir else None),
     faults = (\<lambda>op k n. None)\<rparr>"

definition exampleEnv :: environment where
  "exampleEnv = \<lparr>hostname = Inr ''host'', pid = 7, clock = (\<lambda>n. (17, 42000)),
     random = (\<lambda>n. Inr ''abcdefgh'')\<rparr>"

text \<open>
  C16: Delivery never touches what is already there. Whatever fails, every existing file and
  directory is unchanged; on success exactly one new file appears, in \<open>new\<close>, with the email as its
  content, and \<open>tmp\<close> is as before; on an error at most one new file in \<open>tmp\<close> is left behind; the
  delivery counter advances by one in any case, and there is no panic.
\<close>

theorem deliverMessage_atomic:
  assumes "deliverMessage env body mb (fs, c) = ((fs', c'), r)" and "mb \<noteq> []"
  shows "count c' = count c + 1 \<and>
    (\<forall>k n. look fs k = Some n \<longrightarrow> look fs' k = Some n) \<and>
    (case r of
       Ok _ \<Rightarrow> \<exists>f. plain f \<and> look fs (newKey mb f) = None \<and>
                fs' = put_node (newKey mb f) (Some (File body)) fs
     | Err _ \<Rightarrow> \<exists>f. same_except {tmpKey mb f} fs fs'
     | Panic _ \<Rightarrow> False)"
proof -
  obtain rn where n: "newUniqueName env [] c = (c', rn)" "count c' = count c + 1"
    "rn = uniqueName env [] (count c + 1)"
    by (simp add: newUniqueName_def counter_inc_def Let_def)
      (use assms(1) in \<open>auto simp: deliverMessage_def newUniqueName_def counter_inc_def Let_def
        split: res.splits prod.splits\<close>)
  show ?thesis
  proof (cases rn)
    case (Ok f)
    then have f: "plain f" using n(3) uniqueName_plain by metis
    have d: "deliverFile body mb f fs = (fs', r)"
      using assms(1) n(1) Ok by (auto simp: deliverMessage_def split: prod.splits)
    show ?thesis
    proof (cases r)
      case (Ok u)
      note o = deliverFile_Ok [OF d [unfolded Ok] assms(2) f]
      then have "look fs k = Some n \<longrightarrow> look fs' k = Some n" for k n by auto
      with o f n(2) Ok show ?thesis by auto
    next
      case (Err e)
      note x = deliverFile_Err [OF d [unfolded Err] assms(2) f]
      have "look fs k = Some n \<longrightarrow> look fs' k = Some n" for k n
        using x look_same [of "{tmpKey mb f}" fs fs' k] by (cases "k = tmpKey mb f") auto
      with x n(2) Err show ?thesis by auto
    next
      case (Panic p)
      with d deliverFile_no_panic [OF assms(2) f, of body fs p] show ?thesis by simp
    qed
  next
    case (Err e)
    then have "fs' = fs" "r = Err e"
      using assms(1) n(1) by (auto simp: deliverMessage_def)
    with n(2) show ?thesis by auto
  next
    case (Panic p)
    with n(3) show ?thesis by (auto simp: uniqueName_def Let_def split: if_splits prod.splits option.splits)
  qed
qed


lemma deliverMessage_atomic_witness:
  "snd (deliverMessage exampleEnv ''hello'' ''backup/INBOX'' (exampleFs, \<lparr>count = 0\<rparr>)) = Ok () \<and>
   (\<exists>f. look (fst (fst (deliverMessage exampleEnv ''hello'' ''backup/INBOX'' (exampleFs, \<lparr>count = 0\<rparr>))))
      [''backup'', ''INBOX'', ''new'', f] = Some (File ''hello''))"
proof -
  let ?d = "deliverMessage exampleEnv ''hello'' ''backup/INBOX'' (exampleFs, \<lparr>count = 0\<rparr>)"
  have ok: "snd ?d = Ok ()" by code_simp
  have k: "newKey ''backup/INBOX'' f = [''backup'', ''INBOX'', ''new'', f]" for f
    by (simp add: newKey_def newMaildir_def path_key_def rooted_def hasPrefix_def clean_step_def)
  have "?d = ((fst (fst ?d), snd (fst ?d)), snd ?d)" by simp
  from deliverMessage_atomic [OF this] ok k show ?thesis by auto
qed



text \<open>
  A delivery into an intact maildir succeeds: if the directories exist, nothing fails, a name
  could be formed and no file of that name exists yet, the email ends up in \<open>new\<close>.
\<close>

theorem deliverMessage_succeeds:
  assumes "fs_wf fs" and "noFaults fs" and "mb \<noteq> []"
    and "look fs (path_key mb @ [tmpMaildir]) = Some Dir" "look fs (path_key mb @ [newMaildir]) = Some Dir"
    and "uniqueName env [] (count c + 1) = Ok f"
    and "look fs (tmpKey mb f) = None" "look fs (newKey mb f) = None"
  shows "deliverMessage env body mb (fs, c) =
    ((put_node (newKey mb f) (Some (File body)) fs, \<lparr>count = count c + 1\<rparr>), Ok ())"
  using deliverFile_succeeds [OF assms(1-3) uniqueName_plain [OF assms(6)] assms(4,5,7,8)] assms(6)
  by (cases c) (simp add: deliverMessage_def newUniqueName_def counter_inc_def Let_def)

lemma deliverMessage_succeeds_witness:
  "\<exists>f. uniqueName exampleEnv [] 1 = Ok f \<and>
     deliverMessage exampleEnv ''hello'' ''backup/INBOX'' (exampleFs, \<lparr>count = 0\<rparr>) =
     ((put_node (newKey ''backup/INBOX'' f) (Some (File ''hello'')) exampleFs, \<lparr>count = 1\<rparr>), Ok ())"
proof -
  have "case uniqueName exampleEnv [] 1 of Ok f \<Rightarrow> True | _ \<Rightarrow> False" by code_simp
  then obtain f where f: "uniqueName exampleEnv [] 1 = Ok f" by (auto split: res.splits)
  have wf: "fs_wf exampleFs"
    by (auto simp: fs_wf_def exampleFs_def look_def append_eq_Cons_conv Cons_eq_append_conv)
  have nf: "noFaults exampleFs" by (simp add: noFaults_def exampleFs_def)
  have k: "path_key ''backup/INBOX'' = [''backup'', ''INBOX'']" by code_simp
  have "deliverMessage exampleEnv ''hello'' ''backup/INBOX'' (exampleFs, \<lparr>count = 0\<rparr>) =
    ((put_node (newKey ''backup/INBOX'' f) (Some (File ''hello'')) exampleFs,
      \<lparr>count = count \<lparr>count = 0\<rparr> + 1\<rparr>), Ok ())"
    by (rule deliverMessage_succeeds [OF wf nf])
      (simp_all add: f [unfolded One_nat_def] k exampleFs_def look_def tmpKey_def newKey_def tmpMaildir_def newMaildir_def)
  with f show ?thesis by simp
qed

text \<open>
  C33: Initialising a maildir is idempotent and establishes what a download needs: after a success
  the folder is a maildir, the oldmail file lies in the base directory under the name with its
  slashes replaced and reads as the returned list, and initialising again changes nothing and
  returns the same.
\<close>

theorem initMaildir_establishes:
  assumes "initMaildir om p fs = (fs', Ok (oms, path))"
  shows "isMaildir fs' (folderPath p) = Ok True \<and>
    path = joinPath [basePath p, replaceAll om (CHR ''/'') ''.''] \<and>
    readOldmail fs' path = Ok oms \<and>
    initMaildir om p fs' = (fs', Ok (oms, path))"
  using initMaildir_result [OF assms] initMaildir_again [OF assms] by blast

definition emptyFs :: fsys where
  "emptyFs = \<lparr>nodes = (\<lambda>k. None), faults = (\<lambda>op k n. None)\<rparr>"

lemma initMaildir_establishes_witness:
  "snd (initMaildir ''oldmail-a/b'' \<lparr>base = ''bak'', mfolder = ''a/b''\<rparr> emptyFs) = Ok ([], ''bak/oldmail-a.b'') \<and>
   isMaildir (fst (initMaildir ''oldmail-a/b'' \<lparr>base = ''bak'', mfolder = ''a/b''\<rparr> emptyFs)) ''bak/a/b'' = Ok True"
proof -
  let ?p = "\<lparr>base = ''bak'', mfolder = ''a/b''\<rparr>"
  let ?i = "initMaildir ''oldmail-a/b'' ?p emptyFs"
  have r: "snd ?i = Ok ([], ''bak/oldmail-a.b'')" by code_simp
  have "folderPath ?p = ''bak/a/b''" by code_simp
  moreover have "?i = (fst ?i, Ok ([], ''bak/oldmail-a.b''))" using r by (metis prod.collapse)
  ultimately show ?thesis using initMaildir_establishes [of "''oldmail-a/b''" ?p emptyFs "fst ?i"] r by simp
qed

text \<open>
  A folder whose subfolder was stored first can no longer be stored: initialising the subfolder
  \<open>f/g\<close> creates the directory of \<open>f\<close> without the maildir structure, and initialising \<open>f\<close> then fails
  for good, because an existing directory is only checked.
\<close>

theorem nested_folder_blocks_outer:
  assumes "inside f" and "plain g" "g \<noteq> newMaildir"
    and "plain (replaceAll om (CHR ''/'') ''.'')" and "fs_wf fs"
    and "look fs (path_key b @ splitSlash f) = None" and "\<forall>k. faults fs OpStat k 0 = None"
    and "isDir fs (folderPath \<lparr>base = b, mfolder = f @ CHR ''/'' # g\<rparr>) = Ok False"
    and "initMaildir om \<lparr>base = b, mfolder = f @ CHR ''/'' # g\<rparr> fs = (fs', Ok r)"
  shows "initMaildir om' \<lparr>base = b, mfolder = f\<rparr> fs' =
    (fs', Err (''given directory '' @ folderPath \<lparr>base = b, mfolder = f\<rparr> @ '' does not point to a maildir''))"
proof -
  have c: "createMaildir (replaceAll om (CHR ''/'') ''.'') \<lparr>base = b, mfolder = f @ CHR ''/'' # g\<rparr> fs = (fs', Ok ())"
    using assms(8,9) by (cases rule: initMaildir_cases [OF assms(9)]) auto
  have s: "\<And>k. faults fs OpStat k 0 = None" using assms(7) by blast
  note o = outer_not_maildir [OF assms(1-6) s c]
  show ?thesis by (simp add: initMaildir_def Let_def o initExistingMaildir_def)
qed

lemma nested_folder_blocks_outer_witness:
  "snd (initMaildir ''om-a'' \<lparr>base = ''bak'', mfolder = ''a''\<rparr>
     (fst (initMaildir ''om-a/b'' \<lparr>base = ''bak'', mfolder = ''a'' @ CHR ''/'' # ''b''\<rparr> emptyFs))) =
   Err ''given directory bak/a does not point to a maildir''"
proof -
  let ?p = "\<lparr>base = ''bak'', mfolder = ''a'' @ CHR ''/'' # ''b''\<rparr>"
  let ?i = "initMaildir ''om-a/b'' ?p emptyFs"
  have i: "?i = (fst ?i, Ok ([], ''bak/om-a.b''))"
  proof -
    have "snd ?i = Ok ([], ''bak/om-a.b'')" by code_simp
    then show ?thesis by (metis prod.collapse)
  qed
  have "initMaildir ''om-a'' \<lparr>base = ''bak'', mfolder = ''a''\<rparr> (fst ?i) =
    (fst ?i, Err (''given directory '' @ folderPath \<lparr>base = ''bak'', mfolder = ''a''\<rparr> @ '' does not point to a maildir''))"
  proof (rule nested_folder_blocks_outer [OF _ _ _ _ _ _ _ _ i])
    show "isDir emptyFs (folderPath ?p) = Ok False" by code_simp
    show "fs_wf emptyFs" by (auto simp: fs_wf_def emptyFs_def look_def)
    have k: "path_key ''bak'' = [''bak'']" by code_simp
    show "look emptyFs (path_key ''bak'' @ splitSlash ''a'') = None"
      unfolding k by (simp add: look_def emptyFs_def)
  qed (simp_all add: inside_def plain_def proper_def newMaildir_def replaceAll_def emptyFs_def)
  moreover have "folderPath \<lparr>base = ''bak'', mfolder = ''a''\<rparr> = ''bak/a''" by code_simp
  ultimately show ?thesis by simp
qed

end
