(* ===== verification/Pipeline.thy ===== *)
theory Pipeline
  imports Interrupt Email Maildir
begin

text \<open>
  The download pipeline: the goroutines of \<open>streamingRetrieval\<close> (\<open>core/imap_client.go\<close>),
  \<open>streamingDelivery\<close> (\<open>core/deliver.go\<close>) and \<open>streamingOldmailWriteout\<close> (\<open>core/oldmail.go\<close>) and
  the goroutine that waits for them (\<open>core/download.go\<close>), as a step relation on their program
  counters, the channels between them, the wait group, and the store they work on. One step is one
  operation on a channel, on the wait group, on \<open>already\<close>, or one loop body that does not block.
\<close>

section \<open>State\<close>

definition messageRetrievalBuffer :: nat where "messageRetrievalBuffer = 20"
definition messageDeliveryBuffer :: nat where "messageDeliveryBuffer = 10"

text \<open>
  The goroutine that calls \<open>UidFetch\<close>: the library still has messages to send (a message may be
  nil), it has returned, or the goroutine has ended.
\<close>

datatype 'm fetch_pc = FSend "'m option list" | FReturn | FDone

text \<open>The translating goroutine: at the loop condition, before \<open>interrupted()\<close>, receiving, sending.\<close>

datatype 'm trans_pc = TLoop | TPoll | TRecv | TSend 'm | TDone

text \<open>The delivering goroutine: receiving, sending an oldmail, after \<open>wg.Done\<close>, after \<open>close\<close>.\<close>

datatype deliver_pc = DRecv | DSend oldmail | DClose | DDone

datatype write_pc = WRecv | WDone

text \<open>
  The main goroutine: before \<open>startWg.Done\<close>, in \<open>wg.Wait\<close>, and after it has read the three error
  counts (retrieving, delivering, remembering).
\<close>

datatype main_pc = MSetup | MWait | MReturn nat nat nat

text \<open>
  The stages work on a store \<open>'s\<close>: extracting and delivering a message, writing an oldmail, closing
  the oldmail file, the number of errors of the last stage; \<open>fetch_err\<close> is what \<open>UidFetch\<close> returns
  and \<open>fetch_closes\<close> whether it closes the channel before it returns.
\<close>

record ('m, 's) stages =
  deliver :: "'m \<Rightarrow> 's \<Rightarrow> 's \<times> oldmail res"
  remember :: "oldmail \<Rightarrow> 's \<Rightarrow> 's"
  finish :: "'s \<Rightarrow> 's"
  rememberErrs :: "'s \<Rightarrow> nat"
  fetch_err :: "gerr option"
  fetch_closes :: bool

text \<open>\<open>already\<close> guards the wait group: its hook state is the counter of \<open>wg\<close>.\<close>

record ('m, 's) pipeline =
  mainPc :: main_pc
  sig :: interrupter
  fetchPc :: "'m fetch_pc"
  orgClosed :: bool
  already :: "int once"
  fetchErrCount :: nat
  transPc :: "'m trans_pc"
  translated :: "'m list"
  translatedClosed :: bool
  deliverPc :: deliver_pc
  deliverErrCount :: nat
  delivered :: "oldmail list"
  deliveredClosed :: bool
  writePc :: write_pc
  store :: 's

definition wgDone :: "int \<Rightarrow> int" where
  "wgDone n = n - 1"

definition wg :: "('m, 's) pipeline \<Rightarrow> int" where
  "wg st = hookState (already st)"

definition wg_Done :: "('m, 's) pipeline \<Rightarrow> ('m, 's) pipeline" where
  "wg_Done st = st\<lparr>already := (already st)\<lparr>hookState := wgDone (wg st)\<rparr>\<rparr>"

definition already_call :: "('m, 's) pipeline \<Rightarrow> ('m, 's) pipeline" where
  "already_call st = st\<lparr>already := once_call wgDone (already st)\<rparr>"

text \<open>
  The state once the three stages are set up: each has added one to \<open>wg\<close>, and all but the translating
  goroutine wait for \<open>startWg\<close>. The library will send the messages \<open>ms\<close>.
\<close>

definition setUp :: "'m option list \<Rightarrow> interrupter \<Rightarrow> 's \<Rightarrow> ('m, 's) pipeline" where
  "setUp ms i s =
     \<lparr>mainPc = MSetup, sig = i, fetchPc = FSend ms, orgClosed = False, already = newOnce 3,
      fetchErrCount = 0, transPc = TLoop, translated = [], translatedClosed = False,
      deliverPc = DRecv, deliverErrCount = 0, delivered = [], deliveredClosed = False,
      writePc = WRecv, store = s\<rparr>"

section \<open>Steps\<close>

text \<open>There is no step for a panic of \<open>deliver\<close>: it would end the program.\<close>

inductive pstep :: "('m, 's) stages \<Rightarrow> ('m, 's) pipeline \<Rightarrow> ('m, 's) pipeline \<Rightarrow> bool"
  for cfg where
  signal: "notify s (sig st) \<noteq> sig st \<Longrightarrow> pstep cfg st (st\<lparr>sig := notify s (sig st)\<rparr>)"
| start: "mainPc st = MSetup \<Longrightarrow> pstep cfg st (st\<lparr>mainPc := MWait\<rparr>)"
| fetch_send:
    "mainPc st \<noteq> MSetup \<Longrightarrow> fetchPc st = FSend (x # xs) \<Longrightarrow> transPc st = TRecv \<Longrightarrow>
     pstep cfg st (st\<lparr>fetchPc := FSend xs, transPc := (case x of None \<Rightarrow> TLoop | Some m \<Rightarrow> TSend m)\<rparr>)"
| fetch_return:
    "mainPc st \<noteq> MSetup \<Longrightarrow> fetchPc st = FSend [] \<Longrightarrow>
     pstep cfg st (st\<lparr>fetchPc := FReturn, orgClosed := fetch_closes cfg\<rparr>)"
| fetch_end:
    "fetchPc st = FReturn \<Longrightarrow>
     pstep cfg st (already_call (st\<lparr>fetchPc := FDone,
       fetchErrCount := fetchErrCount st + (if fetch_err cfg = None then 0 else 1)\<rparr>))"
| trans_loop:
    "transPc st = TLoop \<Longrightarrow> \<not> called (already st) \<Longrightarrow> pstep cfg st (st\<lparr>transPc := TPoll\<rparr>)"
| trans_end:
    "transPc st = TLoop \<Longrightarrow> called (already st) \<Longrightarrow>
     pstep cfg st (st\<lparr>transPc := TDone, translatedClosed := True\<rparr>)"
| trans_interrupted:
    "transPc st = TPoll \<Longrightarrow> interrupted (sig st) = (i, True) \<Longrightarrow>
     pstep cfg st (already_call (st\<lparr>sig := i, fetchErrCount := fetchErrCount st + 1, transPc := TLoop\<rparr>))"
| trans_not_interrupted:
    "transPc st = TPoll \<Longrightarrow> interrupted (sig st) = (i, False) \<Longrightarrow>
     pstep cfg st (st\<lparr>sig := i, transPc := TRecv\<rparr>)"
| trans_recv_closed:
    "transPc st = TRecv \<Longrightarrow> orgClosed st \<Longrightarrow> pstep cfg st (st\<lparr>transPc := TLoop\<rparr>)"
| trans_send:
    "transPc st = TSend m \<Longrightarrow> length (translated st) < messageRetrievalBuffer \<Longrightarrow>
     pstep cfg st (st\<lparr>transPc := TLoop, translated := translated st @ [m]\<rparr>)"
| deliver_ok:
    "mainPc st \<noteq> MSetup \<Longrightarrow> deliverPc st = DRecv \<Longrightarrow> translated st = m # q \<Longrightarrow>
     deliver cfg m (store st) = (s, Ok om) \<Longrightarrow>
     pstep cfg st (st\<lparr>translated := q, deliverPc := DSend om, store := s\<rparr>)"
| deliver_err:
    "mainPc st \<noteq> MSetup \<Longrightarrow> deliverPc st = DRecv \<Longrightarrow> translated st = m # q \<Longrightarrow>
     deliver cfg m (store st) = (s, Err e) \<Longrightarrow>
     pstep cfg st (st\<lparr>translated := q, deliverErrCount := deliverErrCount st + 1, store := s\<rparr>)"
| deliver_send:
    "deliverPc st = DSend om \<Longrightarrow> length (delivered st) < messageDeliveryBuffer \<Longrightarrow>
     pstep cfg st (st\<lparr>deliverPc := DRecv, delivered := delivered st @ [om]\<rparr>)"
| deliver_end:
    "mainPc st \<noteq> MSetup \<Longrightarrow> deliverPc st = DRecv \<Longrightarrow> translated st = [] \<Longrightarrow> translatedClosed st \<Longrightarrow>
     pstep cfg st (wg_Done (st\<lparr>deliverPc := DClose\<rparr>))"
| deliver_close:
    "deliverPc st = DClose \<Longrightarrow> pstep cfg st (st\<lparr>deliverPc := DDone, deliveredClosed := True\<rparr>)"
| write_recv:
    "mainPc st \<noteq> MSetup \<Longrightarrow> writePc st = WRecv \<Longrightarrow> delivered st = om # q \<Longrightarrow>
     pstep cfg st (st\<lparr>delivered := q, store := remember cfg om (store st)\<rparr>)"
| write_end:
    "mainPc st \<noteq> MSetup \<Longrightarrow> writePc st = WRecv \<Longrightarrow> delivered st = [] \<Longrightarrow> deliveredClosed st \<Longrightarrow>
     pstep cfg st (wg_Done (st\<lparr>writePc := WDone, store := finish cfg (store st)\<rparr>))"
| main_return:
    "mainPc st = MWait \<Longrightarrow> wg st = 0 \<Longrightarrow>
     pstep cfg st (st\<lparr>mainPc := MReturn (fetchErrCount st) (deliverErrCount st) (rememberErrs cfg (store st))\<rparr>)"

inductive_cases pstepE: "pstep cfg st st'"

section \<open>The sequential reference\<close>

text \<open>Deliver all messages one after the other: the store, the oldmails, the number of errors.\<close>

fun deliverAll :: "('m, 's) stages \<Rightarrow> 'm list \<Rightarrow> 's \<Rightarrow> 's \<times> oldmail list \<times> nat" where
  "deliverAll cfg [] s = (s, [], 0)"
| "deliverAll cfg (m # ms) s =
     (case deliver cfg m s of (s1, r) \<Rightarrow>
        (case deliverAll cfg ms s1 of (s2, oms, n) \<Rightarrow>
           (case r of Ok om \<Rightarrow> (s2, om # oms, n) | _ \<Rightarrow> (s2, oms, Suc n))))"

definition rememberAll :: "('m, 's) stages \<Rightarrow> oldmail list \<Rightarrow> 's \<Rightarrow> 's" where
  "rememberAll cfg oms s = fold (remember cfg) oms s"

lemma deliverAll_snoc:
  "deliverAll cfg (ms @ [m]) s =
     (case deliverAll cfg ms s of (s1, oms, n) \<Rightarrow>
        (case deliver cfg m s1 of (s2, r) \<Rightarrow>
           (case r of Ok om \<Rightarrow> (s2, oms @ [om], n) | _ \<Rightarrow> (s2, oms, Suc n))))"
  by (induction ms arbitrary: s) (auto split: prod.splits res.splits)

text \<open>The message or oldmail a goroutine holds.\<close>

fun heldMsg :: "'m trans_pc \<Rightarrow> 'm list" where
  "heldMsg (TSend m) = [m]"
| "heldMsg _ = []"

fun heldMail :: "deliver_pc \<Rightarrow> oldmail list" where
  "heldMail (DSend om) = [om]"
| "heldMail _ = []"

fun unsent :: "'m fetch_pc \<Rightarrow> 'm option list" where
  "unsent (FSend xs) = xs"
| "unsent _ = []"

section \<open>The control invariant\<close>

fun delivering :: "deliver_pc \<Rightarrow> bool" where
  "delivering DRecv = True"
| "delivering (DSend om) = True"
| "delivering _ = False"

definition wg_inv :: "('m, 's) pipeline \<Rightarrow> bool" where
  "wg_inv st \<longleftrightarrow>
     wg st = of_bool (\<not> called (already st)) + of_bool (delivering (deliverPc st)) +
       of_bool (writePc st = WRecv) \<and>
     doneBy (already st) = called (already st)"

definition close_inv :: "('m, 's) pipeline \<Rightarrow> bool" where
  "close_inv st \<longleftrightarrow>
     translatedClosed st = (transPc st = TDone) \<and>
     (transPc st = TDone \<longrightarrow> called (already st)) \<and>
     (\<not> delivering (deliverPc st) \<longrightarrow> transPc st = TDone \<and> translated st = []) \<and>
     deliveredClosed st = (deliverPc st = DDone) \<and>
     (writePc st = WDone \<longrightarrow> deliverPc st = DDone \<and> delivered st = [])"

definition buffer_inv :: "('m, 's) pipeline \<Rightarrow> bool" where
  "buffer_inv st \<longleftrightarrow> length (translated st) \<le> messageRetrievalBuffer \<and>
     length (delivered st) \<le> messageDeliveryBuffer"

definition fetch_inv :: "('m, 's) stages \<Rightarrow> ('m, 's) pipeline \<Rightarrow> bool" where
  "fetch_inv cfg st \<longleftrightarrow>
     (fetchPc st = FDone \<longrightarrow> called (already st)) \<and>
     orgClosed st = (fetch_closes cfg \<and> fetchPc st \<in> {FReturn, FDone}) \<and>
     (called (already st) \<and> fetchPc st \<noteq> FDone \<longrightarrow> fetchErrCount st > 0) \<and>
     (fetchPc st = FDone \<and> fetch_err cfg \<noteq> None \<longrightarrow> fetchErrCount st > 0)"

definition return_inv :: "('m, 's) stages \<Rightarrow> ('m, 's) pipeline \<Rightarrow> bool" where
  "return_inv cfg st \<longleftrightarrow>
     (\<forall>e d w. mainPc st = MReturn e d w \<longrightarrow>
        wg st = 0 \<and> d = deliverErrCount st \<and> w = rememberErrs cfg (store st) \<and>
        (e = 0 \<longrightarrow> unsent (fetchPc st) = [] \<and> fetch_err cfg = None))"

definition ctrl_inv :: "('m, 's) stages \<Rightarrow> ('m, 's) pipeline \<Rightarrow> bool" where
  "ctrl_inv cfg st \<longleftrightarrow> wg_inv st \<and> close_inv st \<and> buffer_inv st \<and> fetch_inv cfg st \<and> return_inv cfg st"

lemma wg_simps [simp]:
  "wg (wg_Done st) = wg st - 1" "already (wg_Done st) = (already st)\<lparr>hookState := wg st - 1\<rparr>"
  "already (already_call st) = once_call wgDone (already st)"
  by (simp_all add: wg_def wg_Done_def wgDone_def already_call_def)

lemma wg_Done_frame [simp]:
  "mainPc (wg_Done st) = mainPc st" "sig (wg_Done st) = sig st" "fetchPc (wg_Done st) = fetchPc st"
  "orgClosed (wg_Done st) = orgClosed st" "fetchErrCount (wg_Done st) = fetchErrCount st"
  "transPc (wg_Done st) = transPc st" "translated (wg_Done st) = translated st"
  "translatedClosed (wg_Done st) = translatedClosed st" "deliverPc (wg_Done st) = deliverPc st"
  "deliverErrCount (wg_Done st) = deliverErrCount st" "delivered (wg_Done st) = delivered st"
  "deliveredClosed (wg_Done st) = deliveredClosed st" "writePc (wg_Done st) = writePc st"
  "store (wg_Done st) = store st"
  by (simp_all add: wg_Done_def)

lemma already_call_frame [simp]:
  "mainPc (already_call st) = mainPc st" "sig (already_call st) = sig st"
  "fetchPc (already_call st) = fetchPc st" "orgClosed (already_call st) = orgClosed st"
  "fetchErrCount (already_call st) = fetchErrCount st" "transPc (already_call st) = transPc st"
  "translated (already_call st) = translated st"
  "translatedClosed (already_call st) = translatedClosed st"
  "deliverPc (already_call st) = deliverPc st"
  "deliverErrCount (already_call st) = deliverErrCount st" "delivered (already_call st) = delivered st"
  "deliveredClosed (already_call st) = deliveredClosed st" "writePc (already_call st) = writePc st"
  "store (already_call st) = store st"
  by (simp_all add: already_call_def)

lemma wg_already_call [simp]:
  "wg (already_call st) = (if doneBy (already st) then wg st else wg st - 1)"
  by (simp add: wg_def once_call_def wgDone_def)

lemma once_call_simps [simp]:
  "called (once_call f o1) = (\<not> doneBy o1 \<or> called o1)" "doneBy (once_call f o1)"
  by (simp_all add: once_call_def)

lemma wg_update [simp]:
  "wg (st\<lparr>mainPc := a\<rparr>) = wg st" "wg (st\<lparr>sig := b\<rparr>) = wg st" "wg (st\<lparr>fetchPc := c\<rparr>) = wg st"
  "wg (st\<lparr>orgClosed := d\<rparr>) = wg st" "wg (st\<lparr>fetchErrCount := n\<rparr>) = wg st"
  "wg (st\<lparr>transPc := e\<rparr>) = wg st" "wg (st\<lparr>translated := f\<rparr>) = wg st"
  "wg (st\<lparr>translatedClosed := d\<rparr>) = wg st" "wg (st\<lparr>deliverPc := g\<rparr>) = wg st"
  "wg (st\<lparr>deliverErrCount := n\<rparr>) = wg st" "wg (st\<lparr>delivered := h\<rparr>) = wg st"
  "wg (st\<lparr>deliveredClosed := d\<rparr>) = wg st" "wg (st\<lparr>writePc := i\<rparr>) = wg st"
  "wg (st\<lparr>store := s\<rparr>) = wg st"
  by (simp_all add: wg_def)

lemma wg_inv_step: "pstep cfg st st' \<Longrightarrow> wg_inv st \<Longrightarrow> wg_inv st'"
  by (induction rule: pstep.induct) (simp_all add: wg_inv_def wg_def wg_Done_def wgDone_def
      already_call_def once_call_def)

lemma close_inv_step: "pstep cfg st st' \<Longrightarrow> wg_inv st \<Longrightarrow> close_inv st \<Longrightarrow> close_inv st'"
  by (induction rule: pstep.induct) (auto simp: close_inv_def wg_inv_def split: option.splits)

lemma buffer_inv_step: "pstep cfg st st' \<Longrightarrow> buffer_inv st \<Longrightarrow> buffer_inv st'"
  by (induction rule: pstep.induct) (auto simp: buffer_inv_def)

lemma fetch_inv_step: "pstep cfg st st' \<Longrightarrow> wg_inv st \<Longrightarrow> fetch_inv cfg st \<Longrightarrow> fetch_inv cfg st'"
  by (induction rule: pstep.induct) (auto simp: fetch_inv_def wg_inv_def)


lemma wg_zero:
  assumes "wg_inv st" and "wg st = 0"
  shows "called (already st)" "doneBy (already st)" "\<not> delivering (deliverPc st)" "writePc st = WDone"
proof -
  have "of_bool p + of_bool q + of_bool r = (0 :: int) \<longleftrightarrow> \<not> p \<and> \<not> q \<and> \<not> r" for p q r by auto
  with assms show "called (already st)" "doneBy (already st)" "\<not> delivering (deliverPc st)" "writePc st = WDone"
    by (auto simp: wg_inv_def intro: write_pc.exhaust)
qed

text \<open>Once the main goroutine has returned, nothing it has read changes any more.\<close>

lemma returned_frame:
  assumes "pstep cfg st st'" and "doneBy (already st)" "\<not> delivering (deliverPc st)" "writePc st = WDone"
    and "mainPc st = MReturn e d w"
  shows "mainPc st' = mainPc st \<and> wg st' = wg st \<and> deliverErrCount st' = deliverErrCount st \<and>
    store st' = store st \<and> (unsent (fetchPc st) = [] \<longrightarrow> unsent (fetchPc st') = [])"
  using assms by (cases rule: pstep.cases) auto

lemma returning:
  assumes "pstep cfg st st'" and "\<forall>e d w. mainPc st \<noteq> MReturn e d w" and "mainPc st' = MReturn e d w"
  shows "wg st = 0 \<and>
    st' = st\<lparr>mainPc := MReturn (fetchErrCount st) (deliverErrCount st) (rememberErrs cfg (store st))\<rparr>"
  using assms by (cases rule: pstep.cases) auto

lemma return_inv_step:
  assumes p: "pstep cfg st st'" and i: "wg_inv st" "fetch_inv cfg st" "return_inv cfg st"
  shows "return_inv cfg st'"
proof (cases "\<exists>e d w. mainPc st = MReturn e d w")
  case True
  then obtain e d w where m: "mainPc st = MReturn e d w" by blast
  with i(3) have "wg st = 0" by (simp add: return_inv_def)
  note z = wg_zero [OF i(1) this]
  show ?thesis using returned_frame [OF p z(2-4) m] i(3) m by (simp add: return_inv_def)
next
  case False
  show ?thesis
  proof (cases "\<exists>e d w. mainPc st' = MReturn e d w")
    case True
    then have r: "wg st = 0" "st' = st\<lparr>mainPc := MReturn (fetchErrCount st) (deliverErrCount st)
        (rememberErrs cfg (store st))\<rparr>"
      using returning [OF p] False by blast+
    have "fetchErrCount st = 0 \<longrightarrow> fetchPc st = FDone \<and> fetch_err cfg = None"
      using wg_zero(1) [OF i(1) r(1)] i(2) by (auto simp: fetch_inv_def)
    with r show ?thesis by (simp add: return_inv_def)
  qed (auto simp: return_inv_def)
qed

lemma ctrl_inv_step: "pstep cfg st st' \<Longrightarrow> ctrl_inv cfg st \<Longrightarrow> ctrl_inv cfg st'"
  unfolding ctrl_inv_def
  by (intro conjI) (blast intro: wg_inv_step close_inv_step buffer_inv_step fetch_inv_step return_inv_step)+

lemma ctrl_inv_setUp: "ctrl_inv cfg (setUp ms i s)"
  by (simp add: ctrl_inv_def wg_inv_def close_inv_def buffer_inv_def fetch_inv_def return_inv_def
      setUp_def wg_def newOnce_def)

lemma ctrl_inv_reach: "(pstep cfg)\<^sup>*\<^sup>* (setUp ms i s) st \<Longrightarrow> ctrl_inv cfg st"
  by (induction rule: rtranclp_induct) (auto intro: ctrl_inv_setUp ctrl_inv_step)

section \<open>The interface between the stages\<close>

text \<open>
  What the pipeline needs of its stages: on stores that are \<open>good\<close>, remembering an oldmail and
  delivering a message do not get into each other's way, and delivering does not panic. Everything
  proved in the locale holds whatever the order in which the goroutines run.
\<close>

locale pipeline_stages =
  fixes cfg :: "('m, 's) stages" and good :: "'s \<Rightarrow> bool"
  assumes good_deliver: "good s \<Longrightarrow> good (fst (deliver cfg m s))"
    and good_remember: "good s \<Longrightarrow> good (remember cfg om s)"
    and commute: "good s \<Longrightarrow> deliver cfg m (remember cfg om s) =
      (remember cfg om (fst (deliver cfg m s)), snd (deliver cfg m s))"
    and no_panic: "good s \<Longrightarrow> snd (deliver cfg m s) \<noteq> Panic p"
begin

lemma good_rememberAll: "good s \<Longrightarrow> good (rememberAll cfg oms s)"
  by (induction oms arbitrary: s) (auto simp: rememberAll_def good_remember)

lemma commute_all:
  "good s \<Longrightarrow> deliver cfg m (rememberAll cfg oms s) =
     (rememberAll cfg oms (fst (deliver cfg m s)), snd (deliver cfg m s))"
proof (induction oms arbitrary: s)
  case (Cons om oms)
  then show ?case
    using commute [OF Cons.prems, of m om] good_remember [OF Cons.prems, of om]
    by (simp add: rememberAll_def)
qed (simp add: rememberAll_def)

lemma good_deliverAll: "good s \<Longrightarrow> deliverAll cfg ms s = (s', r) \<Longrightarrow> good s'"
proof (induction ms arbitrary: s r)
  case (Cons m ms)
  then show ?case using good_deliver [OF Cons.prems(1), of m] by (auto split: prod.splits res.splits)
qed simp

definition split_at :: "'s \<Rightarrow> 'm option list \<Rightarrow> 'm list \<Rightarrow> 's \<Rightarrow> oldmail list \<Rightarrow>
    ('m, 's) pipeline \<Rightarrow> bool" where
  "split_at s0 taken ms s1 ws st \<longleftrightarrow>
     somes taken = ms @ translated st @ heldMsg (transPc st) \<and>
     deliverAll cfg ms s0 = (s1, ws @ delivered st @ heldMail (deliverPc st), deliverErrCount st) \<and>
     store st = (if writePc st = WDone then finish cfg else id) (rememberAll cfg ws s1)"

definition data_inv :: "'m option list \<Rightarrow> 's \<Rightarrow> ('m, 's) pipeline \<Rightarrow> bool" where
  "data_inv msgs s0 st \<longleftrightarrow>
     (\<exists>taken ms s1 ws. msgs = taken @ unsent (fetchPc st) \<and> split_at s0 taken ms s1 ws st)"

lemma data_inv_setUp: "data_inv msgs s0 (setUp msgs i s0)"
  unfolding data_inv_def split_at_def
  by (intro exI [of _ "[]"] exI [of _ s0]) (simp add: setUp_def rememberAll_def)

lemma data_inv_deliver:
  assumes "good s0" "split_at s0 taken ms s1 ws st" "writePc st = WRecv" "deliverPc st = DRecv"
    and "translated st = m # q" "deliver cfg m (store st) = (s, r)"
  shows "deliverAll cfg (ms @ [m]) s0 =
      (fst (deliver cfg m s1), ws @ delivered st @ (case r of Ok om \<Rightarrow> [om] | _ \<Rightarrow> []),
       deliverErrCount st + (case r of Ok om \<Rightarrow> 0 | _ \<Rightarrow> 1))"
    and "s = rememberAll cfg ws (fst (deliver cfg m s1))"
proof -
  have d: "deliverAll cfg ms s0 = (s1, ws @ delivered st, deliverErrCount st)"
    and st: "store st = rememberAll cfg ws s1"
    using assms(2-4) by (auto simp: split_at_def)
  have "deliver cfg m (store st) = (rememberAll cfg ws (fst (deliver cfg m s1)), snd (deliver cfg m s1))"
    unfolding st by (rule commute_all [OF good_deliverAll [OF assms(1) d]])
  with assms(6) have "s = rememberAll cfg ws (fst (deliver cfg m s1))" "r = snd (deliver cfg m s1)"
    by simp_all
  with d show "deliverAll cfg (ms @ [m]) s0 =
      (fst (deliver cfg m s1), ws @ delivered st @ (case r of Ok om \<Rightarrow> [om] | _ \<Rightarrow> []),
       deliverErrCount st + (case r of Ok om \<Rightarrow> 0 | _ \<Rightarrow> 1))"
    "s = rememberAll cfg ws (fst (deliver cfg m s1))"
    by (simp_all add: deliverAll_snoc split: prod.split res.split)
qed

lemma data_inv_step:
  assumes p: "pstep cfg st st'" and g: "good s0" and c: "close_inv st" and d: "data_inv msgs s0 st"
  shows "data_inv msgs s0 st'"
proof -
  obtain taken ms s1 ws where t: "msgs = taken @ unsent (fetchPc st)" and i: "split_at s0 taken ms s1 ws st"
    using d by (auto simp: data_inv_def)
  have wd: "writePc st = WRecv" if "delivering (deliverPc st)"
    using c that by (cases "writePc st") (auto simp: close_inv_def)
  from p show ?thesis
  proof (cases rule: pstep.cases)
    case (fetch_send x xs)
    then have "msgs = (taken @ [x]) @ unsent (fetchPc st')" using t by simp
    moreover have "split_at s0 (taken @ [x]) ms s1 ws st'"
      using i fetch_send by (cases x) (auto simp: split_at_def)
    ultimately show ?thesis unfolding data_inv_def by blast
  next
    case (deliver_ok m q s om)
    note v = data_inv_deliver [OF g i wd deliver_ok(3,4,5)]
    have "split_at s0 taken (ms @ [m]) (fst (deliver cfg m s1)) ws st'"
      using i v wd deliver_ok by (auto simp: split_at_def)
    with t deliver_ok show ?thesis unfolding data_inv_def by auto
  next
    case (deliver_err m q s e)
    note v = data_inv_deliver [OF g i wd deliver_err(3,4,5)]
    have "split_at s0 taken (ms @ [m]) (fst (deliver cfg m s1)) ws st'"
      using i v wd deliver_err by (auto simp: split_at_def)
    with t deliver_err show ?thesis unfolding data_inv_def by auto
  next
    case (write_recv om q)
    then have "split_at s0 taken ms s1 (ws @ [om]) st'"
      using i by (auto simp: split_at_def rememberAll_def)
    with t write_recv show ?thesis unfolding data_inv_def by auto
  next
    case fetch_return
    have "split_at s0 taken ms s1 ws st'" using i fetch_return by (auto simp: split_at_def)
    with t fetch_return show ?thesis unfolding data_inv_def by auto
  next
    case write_end
    have "split_at s0 taken ms s1 ws st'" using i write_end by (auto simp: split_at_def)
    with t write_end show ?thesis unfolding data_inv_def by auto
  qed (use t i in \<open>auto simp: data_inv_def split_at_def\<close>)
qed

end

section \<open>Progress\<close>

text \<open>
  A measure that every step decreases except the arrival of a signal and the receipt of a nil from
  the closed channel before \<open>already\<close> was called (the translating goroutine spins there).
\<close>

fun transWeight :: "bool \<Rightarrow> 'm trans_pc \<Rightarrow> nat" where
  "transWeight c TLoop = (if c then 1 else 3)"
| "transWeight c TPoll = (if c then 3 else 2)"
| "transWeight c TRecv = (if c then 2 else 1)"
| "transWeight c (TSend m) = 8"
| "transWeight c TDone = 0"

fun fetchWeight :: "'m fetch_pc \<Rightarrow> nat" where
  "fetchWeight (FSend xs) = 10 * length xs + 6"
| "fetchWeight FReturn = 5"
| "fetchWeight FDone = 0"

fun deliverWeight :: "deliver_pc \<Rightarrow> nat" where
  "deliverWeight DRecv = 2"
| "deliverWeight (DSend om) = 4"
| "deliverWeight DClose = 1"
| "deliverWeight DDone = 0"

fun mainWeight :: "main_pc \<Rightarrow> nat" where
  "mainWeight MSetup = 2"
| "mainWeight MWait = 1"
| "mainWeight (MReturn e d w) = 0"

definition remaining :: "('m, 's) pipeline \<Rightarrow> nat" where
  "remaining st = mainWeight (mainPc st) + fetchWeight (fetchPc st) +
     transWeight (called (already st)) (transPc st) + 4 * length (translated st) +
     deliverWeight (deliverPc st) + length (delivered st) + of_bool (writePc st = WRecv)"

lemma remaining_start:
  "mainPc st = MSetup \<Longrightarrow> \<exists>st'. pstep cfg st st' \<and> remaining st' < remaining st"
  by (intro exI conjI, rule pstep.start) (auto simp: remaining_def)

lemma remaining_write:
  assumes "mainPc st = MWait" "writePc st = WRecv" "delivered st \<noteq> []"
  shows "\<exists>st'. pstep cfg st st' \<and> remaining st' < remaining st"
proof -
  obtain om q where "delivered st = om # q" using assms(3) by (meson list.exhaust)
  with assms show ?thesis
    by - (rule exI, rule conjI, rule pstep.write_recv, auto simp: remaining_def)
qed

lemma remaining_trans:
  assumes i: "wg_inv st" "close_inv st" "fetch_inv cfg st" and c: "fetch_closes cfg"
    and m: "mainPc st = MWait" and t: "transPc st \<noteq> TDone" "\<And>m. transPc st \<noteq> TSend m"
  shows "\<exists>st'. pstep cfg st st' \<and> remaining st' < remaining st"
proof (cases "transPc st")
  case TLoop
  show ?thesis
  proof (cases "called (already st)")
    case True
    with TLoop show ?thesis
      by - (rule exI, rule conjI, rule pstep.trans_end, auto simp: remaining_def)
  next
    case False
    with TLoop show ?thesis
      by - (rule exI, rule conjI, rule pstep.trans_loop, auto simp: remaining_def)
  qed
next
  case TPoll
  show ?thesis
  proof (cases "interrupted (sig st)")
    case (Pair j b)
    show ?thesis
    proof (cases b)
      case True
      with TPoll Pair i(1) show ?thesis
        by - (rule exI, rule conjI, rule pstep.trans_interrupted, auto simp: remaining_def wg_inv_def)
    next
      case False
      with TPoll Pair show ?thesis
        by - (rule exI, rule conjI, rule pstep.trans_not_interrupted, auto simp: remaining_def)
    qed
  qed
next
  case TRecv
  show ?thesis
  proof (cases "fetchPc st")
    case (FSend xs)
    show ?thesis
    proof (cases xs)
      case Nil
      with TRecv FSend m show ?thesis
        by - (rule exI, rule conjI, rule pstep.fetch_return, auto simp: remaining_def)
    next
      case (Cons x ys)
      with TRecv FSend m show ?thesis
        by - (rule exI, rule conjI, rule pstep.fetch_send, auto simp: remaining_def split: option.split)
    qed
  next
    case FReturn
    then show ?thesis
      using TRecv by - (rule exI, rule conjI, rule pstep.fetch_end, auto simp: remaining_def)
  next
    case FDone
    with i(3) c have "orgClosed st" "called (already st)" by (auto simp: fetch_inv_def)
    with TRecv show ?thesis
      by - (rule exI, rule conjI, rule pstep.trans_recv_closed, auto simp: remaining_def)
  qed
qed (use t in auto)

lemma remaining_deliver_end:
  assumes "mainPc st = MWait" "deliverPc st = DRecv" "translated st = []" "translatedClosed st"
  shows "\<exists>st'. pstep cfg st st' \<and> remaining st' < remaining st"
  using assms by - (rule exI, rule conjI, rule pstep.deliver_end, auto simp: remaining_def)

lemma remaining_last:
  assumes i: "wg_inv st" "close_inv st" and m: "mainPc st = MWait"
    and d: "\<not> delivering (deliverPc st)" "delivered st = []"
  shows "\<exists>st'. pstep cfg st st' \<and> remaining st' < remaining st"
proof (cases "deliverPc st")
  case DClose
  then show ?thesis
    by - (rule exI, rule conjI, rule pstep.deliver_close, auto simp: remaining_def)
next
  case DDone
  show ?thesis
  proof (cases "writePc st")
    case WRecv
    with DDone d m i(2) show ?thesis
      by - (rule exI, rule conjI, rule pstep.write_end, auto simp: remaining_def close_inv_def)
  next
    case WDone
    with d i have "wg st = 0" by (auto simp: wg_inv_def close_inv_def)
    with m show ?thesis
      by - (rule exI, rule conjI, rule pstep.main_return, auto simp: remaining_def)
  qed
qed (use d in auto)

context pipeline_stages
begin

lemma remaining_deliver:
  assumes "good (store st)" "mainPc st = MWait" "deliverPc st = DRecv" "translated st \<noteq> []"
  shows "\<exists>st'. pstep cfg st st' \<and> remaining st' < remaining st"
proof -
  obtain m q where t: "translated st = m # q" using assms(4) by (meson list.exhaust)
  obtain s r where d: "deliver cfg m (store st) = (s, r)" by fastforce
  show ?thesis
  proof (cases r)
    case (Ok om)
    with assms t d show ?thesis
      by - (rule exI, rule conjI, rule pstep.deliver_ok, auto simp: remaining_def)
  next
    case (Err e)
    with assms t d show ?thesis
      by - (rule exI, rule conjI, rule pstep.deliver_err, auto simp: remaining_def)
  next
    case (Panic p)
    with d no_panic [OF assms(1), of m p] show ?thesis by simp
  qed
qed

lemma store_good:
  assumes "good s0" "data_inv msgs s0 st" "writePc st = WRecv"
  shows "good (store st)"
  using assms good_rememberAll good_deliverAll by (auto simp: data_inv_def split_at_def)

text \<open>In every reachable state in which the main goroutine waits, some goroutine can proceed.\<close>

lemma progress:
  assumes c: "ctrl_inv cfg st" "fetch_closes cfg" and d: "writePc st = WRecv \<Longrightarrow> good (store st)"
    and m: "\<forall>e d w. mainPc st \<noteq> MReturn e d w"
  shows "\<exists>st'. pstep cfg st st' \<and> remaining st' < remaining st"
proof -
  have i: "wg_inv st" "close_inv st" "buffer_inv st" "fetch_inv cfg st"
    using c(1) by (auto simp: ctrl_inv_def)
  show ?thesis
  proof (cases "mainPc st")
    case MSetup
    then show ?thesis by (rule remaining_start)
  next
    case MWait
    have w: "writePc st = WRecv" if "delivering (deliverPc st)"
      using i(2) that by (cases "writePc st") (auto simp: close_inv_def)
    show ?thesis
    proof (cases "delivered st = []")
      case False
      with i(2) have "writePc st = WRecv" by (cases "writePc st") (auto simp: close_inv_def)
      with MWait False show ?thesis by (intro remaining_write)
    next
      case empty: True
      show ?thesis
      proof (cases "deliverPc st")
        case (DSend om)
        with empty show ?thesis
          by - (rule exI, rule conjI, rule pstep.deliver_send, auto simp: remaining_def messageDeliveryBuffer_def)
      next
        case DRecv
        show ?thesis
        proof (cases "translated st = []")
          case False
          with MWait DRecv show ?thesis
            by (intro remaining_deliver d w) auto
        next
          case True
          show ?thesis
          proof (cases "transPc st")
            case (TSend n)
            with True show ?thesis
              by - (rule exI, rule conjI, rule pstep.trans_send, auto simp: remaining_def messageRetrievalBuffer_def)
          next
            case TDone
            with True MWait DRecv i(2) show ?thesis
              by (intro remaining_deliver_end) (auto simp: close_inv_def)
          qed (use remaining_trans [OF i(1,2,4) c(2) MWait] in auto)
        qed
      qed (use remaining_last [OF i(1,2) MWait] empty in auto)
    qed
  qed (use m in auto)
qed

lemma data_inv_reach:
  assumes "good s0" "(pstep cfg)\<^sup>*\<^sup>* (setUp msgs i s0) st"
  shows "data_inv msgs s0 st"
  using assms(2)
proof (induction rule: rtranclp_induct)
  case base
  show ?case by (rule data_inv_setUp)
next
  case (step st st')
  then show ?case
    using data_inv_step [OF step(2) assms(1)] ctrl_inv_reach [OF step(1)] by (simp add: ctrl_inv_def)
qed

lemma can_return:
  assumes "fetch_closes cfg" "good s0" "(pstep cfg)\<^sup>*\<^sup>* (setUp msgs i s0) st"
  shows "\<exists>st' e d w. (pstep cfg)\<^sup>*\<^sup>* st st' \<and> mainPc st' = MReturn e d w"
  using assms(3)
proof (induction "remaining st" arbitrary: st rule: less_induct)
  case less
  show ?case
  proof (cases "\<exists>e d w. mainPc st = MReturn e d w")
    case False
    then obtain st' where s: "pstep cfg st st'" "remaining st' < remaining st"
      using progress [OF ctrl_inv_reach [OF less.prems] assms(1)
          store_good [OF assms(2) data_inv_reach [OF assms(2) less.prems]]] by blast
    then have "(pstep cfg)\<^sup>*\<^sup>* (setUp msgs i s0) st'" using less.prems by simp
    from less.hyps [OF s(2) this] s(1) show ?thesis by (meson converse_rtranclp_into_rtranclp)
  qed blast
qed

text \<open>When the main goroutine has returned, the store is that of a sequential run on the taken messages.\<close>

lemma returned_store:
  assumes "good s0" "(pstep cfg)\<^sup>*\<^sup>* (setUp msgs i s0) st" "mainPc st = MReturn e d w"
  shows "\<exists>taken rest s1 oms. msgs = taken @ rest \<and> deliverAll cfg (somes taken) s0 = (s1, oms, d) \<and>
    store st = finish cfg (rememberAll cfg oms s1) \<and> w = rememberErrs cfg (store st) \<and>
    (e = 0 \<longrightarrow> rest = [] \<and> fetch_err cfg = None)"
proof -
  have c: "wg_inv st" "close_inv st" "return_inv cfg st"
    using ctrl_inv_reach [OF assms(2)] by (auto simp: ctrl_inv_def)
  with assms(3) have r: "wg st = 0" "d = deliverErrCount st" "w = rememberErrs cfg (store st)"
    "e = 0 \<longrightarrow> unsent (fetchPc st) = [] \<and> fetch_err cfg = None"
    by (auto simp: return_inv_def)
  note z = wg_zero [OF c(1) r(1)]
  with c(2) have f: "deliverPc st = DDone" "transPc st = TDone" "translated st = []" "delivered st = []"
    by (auto simp: close_inv_def)
  obtain taken ms s1 ws where t: "msgs = taken @ unsent (fetchPc st)" "split_at s0 taken ms s1 ws st"
    using data_inv_reach [OF assms(1,2)] by (auto simp: data_inv_def)
  with f z(4) have "somes taken = ms" "deliverAll cfg ms s0 = (s1, ws, d)"
    "store st = finish cfg (rememberAll cfg ws s1)"
    by (auto simp: split_at_def r(2))
  with t r show ?thesis by metis
qed

text \<open>At any moment, what has been remembered is a prefix of what has been delivered.\<close>

lemma remembered_prefix:
  assumes "good s0" "(pstep cfg)\<^sup>*\<^sup>* (setUp msgs i s0) st"
  shows "\<exists>ms s1 oms ws n. prefix ms (somes msgs) \<and> deliverAll cfg ms s0 = (s1, oms, n) \<and> prefix ws oms \<and>
    store st = (if writePc st = WDone then finish cfg else id) (rememberAll cfg ws s1)"
proof -
  obtain taken ms s1 ws where t: "msgs = taken @ unsent (fetchPc st)" "split_at s0 taken ms s1 ws st"
    using data_inv_reach [OF assms] by (auto simp: data_inv_def)
  then have "prefix ms (somes msgs)"
    by (auto simp: split_at_def somes_append)
  moreover have "prefix ws (ws @ delivered st @ heldMail (deliverPc st))" by simp
  ultimately show ?thesis using t(2) unfolding split_at_def by metis
qed

end

section \<open>Concrete runs\<close>

lemmas pstep_then = converse_rtranclp_into_rtranclp [where r = "pstep cfg" for cfg]

text \<open>The states the runs go through are computed by these equations.\<close>

lemmas run_simps = setUp_def newOnce_def wg_def wg_Done_def wgDone_def already_call_def once_call_def
  messageRetrievalBuffer_def messageDeliveryBuffer_def

text \<open>One message, no interrupt, no error.\<close>

lemma one_message_run:
  assumes "channel i = Some []" "fetch_closes cfg" "fetch_err cfg = None"
    and "deliver cfg m s = (s1, Ok om)" and "s2 = finish cfg (remember cfg om s1)"
  shows "\<exists>st. (pstep cfg)\<^sup>*\<^sup>* (setUp [Some m] i s) st \<and>
    mainPc st = MReturn 0 0 (rememberErrs cfg s2) \<and> store st = s2"
proof -
  have "interrupted i = (i, False)" using assms(1) by (simp add: interrupted_def)
  note run = run_simps assms this
  show ?thesis
    apply (rule exI, rule conjI)
     apply (rule pstep.start [THEN pstep_then], (simp add: run)+)
     apply (rule pstep.trans_loop [THEN pstep_then], (simp add: run)+)
     apply (rule pstep.trans_not_interrupted [THEN pstep_then], (simp add: run)+)
     apply (rule pstep.fetch_send [THEN pstep_then], (simp add: run)+)
     apply (rule pstep.trans_send [THEN pstep_then], (simp add: run)+)
     apply (rule pstep.deliver_ok [THEN pstep_then], (simp add: run)+)
     apply (rule pstep.deliver_send [THEN pstep_then], (simp add: run)+)
     apply (rule pstep.write_recv [THEN pstep_then], (simp add: run)+)
     apply (rule pstep.trans_loop [THEN pstep_then], (simp add: run)+)
     apply (rule pstep.trans_not_interrupted [THEN pstep_then], (simp add: run)+)
     apply (rule pstep.fetch_return [THEN pstep_then], (simp add: run)+)
     apply (rule pstep.fetch_end [THEN pstep_then], (simp add: run)+)
     apply (rule pstep.trans_recv_closed [THEN pstep_then], (simp add: run)+)
     apply (rule pstep.trans_end [THEN pstep_then], (simp add: run)+)
     apply (rule pstep.deliver_end [THEN pstep_then], (simp add: run)+)
     apply (rule pstep.deliver_close [THEN pstep_then], (simp add: run)+)
     apply (rule pstep.write_end [THEN pstep_then], (simp add: run)+)
     apply (rule pstep.main_return [THEN pstep_then], (simp add: run)+)
     apply (rule rtranclp.rtrancl_refl)
    apply (simp add: run)
    done
qed

text \<open>No message, and a library that returns without closing the channel.\<close>

definition stuck :: "('m, 's) pipeline \<Rightarrow> bool" where
  "stuck st \<longleftrightarrow> mainPc st = MWait \<and> fetchPc st = FDone \<and> \<not> orgClosed st \<and> transPc st = TRecv \<and>
     translated st = [] \<and> \<not> translatedClosed st \<and> deliverPc st = DRecv \<and>
     delivered st = [] \<and> \<not> deliveredClosed st \<and> writePc st = WRecv \<and> wg st = 2"

lemma stuck_forever: "(pstep cfg)\<^sup>*\<^sup>* st st' \<Longrightarrow> stuck st \<Longrightarrow> stuck st'"
proof (induction rule: rtranclp_induct)
  case (step st st')
  then have s: "stuck st" by simp
  from step(2) show ?case by (cases rule: pstep.cases) (use s in \<open>auto simp: stuck_def\<close>)
qed

lemma reaches_stuck:
  assumes "channel i = Some []" "\<not> fetch_closes cfg" "fetch_err cfg = None"
  shows "\<exists>st. (pstep cfg)\<^sup>*\<^sup>* (setUp [] i s) st \<and> stuck st"
proof -
  have "interrupted i = (i, False)" using assms(1) by (simp add: interrupted_def)
  note run = run_simps assms this
  show ?thesis
    apply (rule exI, rule conjI)
     apply (rule pstep.start [THEN pstep_then], (simp add: run)+)
     apply (rule pstep.trans_loop [THEN pstep_then], (simp add: run)+)
     apply (rule pstep.trans_not_interrupted [THEN pstep_then], (simp add: run)+)
     apply (rule pstep.fetch_return [THEN pstep_then], (simp add: run)+)
     apply (rule pstep.fetch_end [THEN pstep_then], (simp add: run)+)
     apply (rule rtranclp.rtrancl_refl)
    apply (simp add: run stuck_def)
    done
qed

section \<open>Properties\<close>

text \<open>A store without content, for the witnesses.\<close>

definition idleStages :: "bool \<Rightarrow> (nat, unit) stages" where
  "idleStages closes =
     \<lparr>deliver = (\<lambda>m s. (s, Err ''no email'')), remember = (\<lambda>om s. s), finish = (\<lambda>s. s),
      rememberErrs = (\<lambda>s. 0), fetch_err = None, fetch_closes = closes\<rparr>"

text \<open>
  C34: The wait group and the channels stay within their bounds, for any stages and any run: the counter of
  the wait group is never negative (which would panic) and counts exactly the stages that have not
  finished, the two channels never hold more than 20 messages and 10 oldmails, and the main
  goroutine returns only after both channels are closed and empty.
\<close>

theorem pipeline_bounds:
  assumes "(pstep cfg)\<^sup>*\<^sup>* (setUp msgs i s) st"
  shows "wg st = of_bool (\<not> called (already st)) + of_bool (delivering (deliverPc st)) +
      of_bool (writePc st = WRecv) \<and>
    length (translated st) \<le> 20 \<and> length (delivered st) \<le> 10 \<and>
    (\<forall>e d w. mainPc st = MReturn e d w \<longrightarrow> translatedClosed st \<and> deliveredClosed st \<and>
       translated st = [] \<and> delivered st = [])"
proof -
  have i: "wg_inv st" "close_inv st" "buffer_inv st" "return_inv cfg st"
    using ctrl_inv_reach [OF assms] by (auto simp: ctrl_inv_def)
  have "translatedClosed st \<and> deliveredClosed st \<and> translated st = [] \<and> delivered st = []"
    if "mainPc st = MReturn e d w" for e d w
  proof -
    have "wg st = 0" using i(4) that by (simp add: return_inv_def)
    from wg_zero [OF i(1) this] i(2) show ?thesis by (auto simp: close_inv_def)
  qed
  with i show ?thesis
    by (simp add: wg_inv_def buffer_inv_def messageRetrievalBuffer_def messageDeliveryBuffer_def)
qed

lemma pipeline_bounds_witness:
  "wg (setUp [Some (7 :: nat), None] (newInterruptOps [''interrupt'']) ()) = 3"
  using pipeline_bounds [of "idleStages True" "[Some 7, None]" "newInterruptOps [''interrupt'']" "()"
      "setUp [Some 7, None] (newInterruptOps [''interrupt'']) ()"]
  by (simp add: setUp_def newOnce_def)

text \<open>
  The program relies on the IMAP library closing the channel: if \<open>UidFetch\<close> returned without closing it,
  even with a nil error and no message to send, the pipeline could get to a state from which it never
  returns, and no interrupt would change that.
\<close>

theorem unclosed_channel_hangs:
  assumes "\<not> fetch_closes cfg" and "fetch_err cfg = None" and "channel i = Some []"
  shows "\<exists>st. (pstep cfg)\<^sup>*\<^sup>* (setUp [] i s) st \<and>
    (\<forall>st'. (pstep cfg)\<^sup>*\<^sup>* st st' \<longrightarrow> mainPc st' = MWait \<and> transPc st' = TRecv)"
  using reaches_stuck [OF assms(3,1,2), of s] stuck_forever by (metis stuck_def)

lemma unclosed_channel_hangs_witness:
  "\<exists>st. (pstep (idleStages False))\<^sup>*\<^sup>* (setUp [] (newInterruptOps [''interrupt'']) ()) st \<and>
    (\<forall>st'. (pstep (idleStages False))\<^sup>*\<^sup>* st st' \<longrightarrow> mainPc st' = MWait \<and> transPc st' = TRecv)"
  by (rule unclosed_channel_hangs) (simp_all add: idleStages_def newInterruptOps_def register_def)

end
