(* ===== verification/Delivery.thy ===== *)
theory Delivery
  imports Pipeline
begin

text \<open>
  The pipeline on the program's own stages: the loop bodies of \<open>streamingDelivery\<close>
  (\<open>core/deliver.go\<close>) and of \<open>streamingOldmailWriteout\<close> (\<open>core/oldmail.go\<close>) on one file system. The
  stages do not interfere, because the oldmail file lies outside \<open>tmp\<close> and \<open>new\<close> of the maildir.
\<close>

section \<open>Model\<close>

record world =
  w_fs :: fsys
  w_dc :: threadSafeCounter
  w_out :: writeout

text \<open>The loop body of \<open>streamingDelivery\<close> up to the decision what to do with the error.\<close>

definition deliverBody ::
    "environment \<Rightarrow> uidFolder \<Rightarrow> string \<Rightarrow> field list \<Rightarrow> world \<Rightarrow> world \<times> oldmail res" where
  "deliverBody env uidFold maildirPath m w =
     (case rfc822FromEmail m uidFold of
        Err e \<Rightarrow> (w, Err e)
      | Panic p \<Rightarrow> (w, Panic p)
      | Ok (body, om) \<Rightarrow>
          (case deliverMessage env body maildirPath (w_fs w, w_dc w) of
             ((fs, dc), r) \<Rightarrow>
               (w\<lparr>w_fs := fs, w_dc := dc\<rparr>,
                case r of Ok _ \<Rightarrow> Ok om | Err e \<Rightarrow> Err e | Panic p \<Rightarrow> Panic p)))"

definition rememberBody :: "string \<Rightarrow> oldmail \<Rightarrow> world \<Rightarrow> world" where
  "rememberBody oldmailPath om w =
     (case writeout_step oldmailPath om (w_fs w, w_out w) of (fs, wo) \<Rightarrow> w\<lparr>w_fs := fs, w_out := wo\<rparr>)"

definition finishBody :: "string \<Rightarrow> world \<Rightarrow> world" where
  "finishBody oldmailPath w =
     (case writeout_close oldmailPath (w_fs w, w_out w) of (fs, wo) \<Rightarrow> w\<lparr>w_fs := fs, w_out := wo\<rparr>)"

definition mailStages ::
    "environment \<Rightarrow> uidFolder \<Rightarrow> string \<Rightarrow> string \<Rightarrow> gerr option \<Rightarrow> bool \<Rightarrow> (field list, world) stages" where
  "mailStages env uidFold maildirPath oldmailPath fetchErr closes =
     \<lparr>deliver = deliverBody env uidFold maildirPath, remember = rememberBody oldmailPath,
      finish = finishBody oldmailPath, rememberErrs = (\<lambda>w. wr_errCount (w_out w)),
      fetch_err = fetchErr, fetch_closes = closes\<rparr>"

section \<open>Operations on other files\<close>

lemma os_Stat_put_file:
  assumes "nodes fs k = Some (File c)"
  shows "os_Stat (put_node k (Some (File x)) fs) = os_Stat fs"
proof
  fix j
  have l: "look fs k = (if k = [] \<or> k = [[]] then Some Dir else Some (File c))"
    using assms by (simp add: look_def)
  have f: "(case look (put_node k (Some (File x)) fs) i of Some (File _) \<Rightarrow> True | _ \<Rightarrow> False) =
      (case look fs i of Some (File _) \<Rightarrow> True | _ \<Rightarrow> False)" for i
    using l by auto
  show "os_Stat (put_node k (Some (File x)) fs) j = os_Stat fs j"
    using l unfolding os_Stat_def f by (cases "j = k") (auto split: option.split prod.split)
qed

lemma look_put_file_Dir:
  assumes "nodes fs k = Some (File c)"
  shows "look (put_node k (Some (File x)) fs) j = Some Dir \<longleftrightarrow> look fs j = Some Dir"
  using assms by (auto simp: look_def put_node_def)

lemma look_put_other: "j \<noteq> k \<Longrightarrow> look (put_node k n fs) j = look fs j"
  by simp

lemma os_Create_put_file:
  assumes "nodes fs k = Some (File c)" "j \<noteq> k"
  shows "os_Create j (put_node k (Some (File x)) fs) = apfst (put_node k (Some (File x))) (os_Create j fs)"
  using assms(2)
  by (auto simp: os_Create_def look_put_file_Dir [OF assms(1)] look_put_other put_node_swap
      simp del: look_put split: option.split node.split)

lemma handle_Write_put_file:
  assumes "j \<noteq> k"
  shows "handle_Write j bs (put_node k n fs) = apfst (put_node k n) (handle_Write j bs fs)"
  using assms by (auto simp: handle_Write_def put_node_swap split: option.split)

lemma os_WriteFile_put_file:
  assumes "nodes fs k = Some (File c)" "j \<noteq> k"
  shows "os_WriteFile j bs (put_node k (Some (File x)) fs) =
    apfst (put_node k (Some (File x))) (os_WriteFile j bs fs)"
proof (cases "os_Create j fs")
  case (Pair fs1 r)
  have sw: "put_node j y (put_node k (Some (File x)) gs) = put_node k (Some (File x)) (put_node j y gs)" for y gs
    using assms(2) by (simp add: put_node_swap)
  show ?thesis
    using assms(2)
    by (auto simp: os_WriteFile_def os_Create_put_file [OF assms] Pair sw
        handle_Close_def handle_Write_def split: res.split prod.split option.split)
qed

lemma os_Rename_put_file:
  assumes "nodes fs k = Some (File c)" "i \<noteq> k" "j \<noteq> k"
  shows "os_Rename i j (put_node k (Some (File x)) fs) =
    apfst (put_node k (Some (File x))) (os_Rename i j fs)"
  using assms(2,3)
  by (auto simp: os_Rename_def look_put_file_Dir [OF assms(1)] look_put_other put_node_swap
      simp del: look_put split: option.split node.split)

lemma same_except_deliverFile:
  assumes "mb \<noteq> []" "plain f"
  shows "same_except {tmpKey mb f, newKey mb f} fs (fst (deliverFile body mb f fs))"
proof (cases "deliverFile body mb f fs")
  case (Pair fs' r)
  show ?thesis
  proof (cases r)
    case (Ok u)
    with deliverFile_Ok(3) [OF Pair [unfolded Ok] assms] Pair show ?thesis by (auto intro: same_except_put)
  next
    case (Err e)
    with Pair deliverFile_Err [OF _ assms] have "fs' = fs \<or> same_except {tmpKey mb f} fs fs'" by blast
    with Pair show ?thesis by (auto simp: same_except_def)
  next
    case (Panic p)
    with Pair deliverFile_no_panic [OF assms, of body fs p] show ?thesis by simp
  qed
qed

lemma deliverFile_put_file:
  assumes "mb \<noteq> []" "plain f" and k: "nodes fs k = Some (File c)" "k \<noteq> tmpKey mb f" "k \<noteq> newKey mb f"
  shows "deliverFile body mb f (put_node k (Some (File x)) fs) =
    apfst (put_node k (Some (File x))) (deliverFile body mb f fs)"
proof -
  let ?p = "put_node k (Some (File x))"
  have ks: "tmpKey mb f \<noteq> k" "newKey mb f \<noteq> k" using k by auto
  show ?thesis
  proof (cases "os_WriteFile (tmpKey mb f) body fs")
    case (Pair fs1 r)
    have "same_except {tmpKey mb f} fs fs1" using same_except_WriteFile [of "tmpKey mb f"] Pair by (metis fst_conv insertI1)
    with k have k1: "nodes fs1 k = Some (File c)" by (auto simp: same_except_def)
    show ?thesis
      unfolding deliverFile_def errorIfExists_def delivery_keys [OF assms(1,2)] Let_def
        os_Stat_put_file [OF k(1)] os_WriteFile_put_file [OF k(1) ks(1)] Pair
      by (auto simp: os_Stat_put_file [OF k1] os_Rename_put_file [OF k1 ks] split: stat.split res.split)
  qed
qed

lemma newUniqueName_no_panic: "snd (newUniqueName env injd c) \<noteq> Panic p"
  by (simp add: newUniqueName_def uniqueName_def Let_def case_prod_unfold split: option.split)

lemma newUniqueName_plain: "newUniqueName env injd c = (c', Ok f) \<Longrightarrow> plain f"
  by (auto simp: newUniqueName_def Let_def dest: uniqueName_plain split: prod.splits)

lemma deliverMessage_put_file:
  assumes "mb \<noteq> []" and k: "nodes fs k = Some (File c)" "\<forall>f. k \<noteq> tmpKey mb f \<and> k \<noteq> newKey mb f"
  shows "deliverMessage env body mb (put_node k (Some (File x)) fs, dc) =
    apfst (apfst (put_node k (Some (File x)))) (deliverMessage env body mb (fs, dc))"
proof (cases "newUniqueName env [] dc")
  case (Pair dc' r)
  show ?thesis
  proof (cases r)
    case (Ok f)
    note d = deliverFile_put_file [OF assms(1) newUniqueName_plain [OF Pair [unfolded Ok]] k(1), of body x]
    show ?thesis using k(2) by (auto simp: deliverMessage_def Pair Ok d split: prod.split)
  qed (auto simp: deliverMessage_def Pair)
qed

lemma deliverMessage_frame:
  assumes "mb \<noteq> []" "\<forall>f. k \<noteq> tmpKey mb f \<and> k \<noteq> newKey mb f"
    and "deliverMessage env body mb (fs, dc) = ((fs', dc'), r)"
  shows "nodes fs' k = nodes fs k \<and> faults fs' = faults fs \<and> (\<forall>p. r \<noteq> Panic p)"
proof (cases "newUniqueName env [] dc")
  case (Pair dc1 n)
  show ?thesis
  proof (cases n)
    case (Ok f)
    have f: "plain f" by (rule newUniqueName_plain [OF Pair [unfolded Ok]])
    have "deliverFile body mb f fs = (fs', r)"
      using assms(3) by (auto simp: deliverMessage_def Pair Ok split: prod.splits)
    with same_except_deliverFile [OF assms(1) f, of fs body] deliverFile_no_panic [OF assms(1) f, of body fs]
      assms(2) show ?thesis by (auto simp: same_except_def)
  next
    case (Err e)
    with assms(3) Pair show ?thesis by (auto simp: deliverMessage_def)
  next
    case (Panic p)
    with Pair newUniqueName_no_panic [of env "[]" dc p] show ?thesis by simp
  qed
qed

lemma rfc822FromEmail_no_panic: "rfc822FromEmail fs u \<noteq> Panic p"
  using set_all_no_panic by (auto simp: rfc822FromEmail_def split: res.split)

text \<open>A step of the last stage replaces the oldmail file, depending on its content and the failures.\<close>

lemma writeout_step_local:
  assumes "nodes fs (path_key path) = Some (File c)"
  shows "\<exists>x wo'. \<forall>gs. nodes gs (path_key path) = Some (File c) \<longrightarrow> faults gs = faults fs \<longrightarrow>
    writeout_step path om (gs, wo) = (put_node (path_key path) (Some (File x)) gs, wo')"
proof (cases "wr_err wo = None")
  case False
  have "put_node k (Some (File c)) gs = gs" if "nodes gs k = Some (File c)" for gs k
    using that by (simp add: put_node_def fun_upd_idem)
  with False show ?thesis by (intro exI [of _ c] exI [of _ wo]) (auto simp: writeout_step_def)
next
  case True
  have c: "content gs (path_key path) = c" if "nodes gs (path_key path) = Some (File c)" for gs
    using that by (simp add: content_def)
  show ?thesis
  proof (cases "faults fs OpWrite (path_key path) (length c)")
    case None
    with True c show ?thesis
      by (intro exI [of _ "c @ oldmailLine om"] exI [of _ wo]) (simp add: writeout_step_cases)
  next
    case (Some en)
    obtain e n where "en = (e, n)" by fastforce
    with Some True c show ?thesis
      by (intro exI [of _ "c @ take n (oldmailLine om)"]
          exI [of _ "wo\<lparr>wr_err := Some e, wr_errCount := wr_errCount wo + 1\<rparr>"])
        (simp add: writeout_step_cases)
  qed
qed

section \<open>The stages do not interfere\<close>

definition mailStore :: "string \<Rightarrow> string \<Rightarrow> world \<Rightarrow> bool" where
  "mailStore mb path w \<longleftrightarrow> mb \<noteq> [] \<and> (\<forall>f. path_key path \<noteq> tmpKey mb f \<and> path_key path \<noteq> newKey mb f) \<and>
     (\<exists>c. nodes (w_fs w) (path_key path) = Some (File c))"

lemma deliverBody_cases:
  assumes "mailStore mb path w"
  obtains (bad) e where "\<And>w'. deliverBody env u mb m w' = (w', Err e)"
    | (good) body om fs dc r where "rfc822FromEmail m u = Ok (body, om)"
        "deliverMessage env body mb (w_fs w, w_dc w) = ((fs, dc), r)"
        "deliverBody env u mb m w = (w\<lparr>w_fs := fs, w_dc := dc\<rparr>,
           case r of Ok _ \<Rightarrow> Ok om | Err e \<Rightarrow> Err e | Panic p \<Rightarrow> Panic p)"
        "nodes fs (path_key path) = nodes (w_fs w) (path_key path)" "faults fs = faults (w_fs w)"
        "\<And>p. r \<noteq> Panic p"
proof (cases "rfc822FromEmail m u")
  case (Ok bo)
  obtain body om where bo: "bo = (body, om)" by fastforce
  obtain fs dc r where d: "deliverMessage env body mb (w_fs w, w_dc w) = ((fs, dc), r)"
    by (metis prod.collapse)
  have "nodes fs (path_key path) = nodes (w_fs w) (path_key path) \<and> faults fs = faults (w_fs w) \<and> (\<forall>p. r \<noteq> Panic p)"
    using assms by (intro deliverMessage_frame [OF _ _ d]) (auto simp: mailStore_def)
  with Ok bo d show ?thesis by (intro good [of body om fs dc r]) (auto simp: deliverBody_def)
next
  case (Err e)
  then show ?thesis by (intro bad [of e]) (simp add: deliverBody_def)
qed (use rfc822FromEmail_no_panic in auto)

interpretation mail: pipeline_stages "mailStages env u mb path fe cl" "mailStore mb path"
  for env u mb path fe cl
proof unfold_locales
  fix s m assume g: "mailStore mb path s"
  show "mailStore mb path (fst (deliver (mailStages env u mb path fe cl) m s))"
    using g by (cases rule: deliverBody_cases [OF g, of env u m]) (auto simp: mailStages_def mailStore_def)
next
  fix s om assume g: "mailStore mb path s"
  then obtain c where c: "nodes (w_fs s) (path_key path) = Some (File c)" by (auto simp: mailStore_def)
  with writeout_step_local [OF c, of om "w_out s"] g
  show "mailStore mb path (remember (mailStages env u mb path fe cl) om s)"
    by (auto simp: mailStages_def mailStore_def rememberBody_def)
next
  fix s m p assume g: "mailStore mb path s"
  show "snd (deliver (mailStages env u mb path fe cl) m s) \<noteq> Panic p"
    by (cases rule: deliverBody_cases [OF g, of env u m]) (auto simp: mailStages_def split: res.split)
next
  fix s m om assume g: "mailStore mb path s"
  let ?k = "path_key path"
  obtain c where c: "nodes (w_fs s) ?k = Some (File c)" using g by (auto simp: mailStore_def)
  obtain x wo where w: "\<And>gs. nodes gs ?k = Some (File c) \<Longrightarrow> faults gs = faults (w_fs s) \<Longrightarrow>
      writeout_step path om (gs, w_out s) = (put_node ?k (Some (File x)) gs, wo)"
    using writeout_step_local [OF c] by metis
  show "deliver (mailStages env u mb path fe cl) m (remember (mailStages env u mb path fe cl) om s) =
    (remember (mailStages env u mb path fe cl) om (fst (deliver (mailStages env u mb path fe cl) m s)),
     snd (deliver (mailStages env u mb path fe cl) m s))"
    using g
  proof (cases rule: deliverBody_cases [where env = env and u = u and m = m])
    case (bad e)
    then show ?thesis by (simp add: mailStages_def)
  next
    case (good body om' fs dc r)
    have "deliverMessage env body mb (put_node ?k (Some (File x)) (w_fs s), w_dc s) =
        ((put_node ?k (Some (File x)) fs, dc), r)"
      using g c by (subst deliverMessage_put_file) (auto simp: mailStore_def good(2))
    then show ?thesis
      using good w [of fs] w [of "w_fs s"] c by (simp add: mailStages_def deliverBody_def rememberBody_def)
  qed
qed

section \<open>What the stages leave on disk\<close>

text \<open>The message \<open>m\<close> is stored in \<open>new\<close> and \<open>om\<close> is its entry.\<close>

definition stored :: "uidFolder \<Rightarrow> string \<Rightarrow> fsys \<Rightarrow> field list \<Rightarrow> oldmail \<Rightarrow> bool" where
  "stored u mb fs m om \<longleftrightarrow>
     (\<exists>body f. rfc822FromEmail m u = Ok (body, om) \<and> plain f \<and> look fs (newKey mb f) = Some (File body))"

lemma deliverMessage_effect:
  assumes "deliverMessage env body mb (fs, dc) = ((fs', dc'), r)" and "mb \<noteq> []"
  shows "(\<forall>k n. look fs k = Some n \<longrightarrow> look fs' k = Some n) \<and>
    (\<forall>u. r = Ok u \<longrightarrow> (\<exists>f. plain f \<and> look fs' (newKey mb f) = Some (File body)))"
proof (cases "newUniqueName env [] dc")
  case (Pair dc1 n)
  show ?thesis
  proof (cases n)
    case (Ok f)
    have f: "plain f" by (rule newUniqueName_plain [OF Pair [unfolded Ok]])
    have d: "deliverFile body mb f fs = (fs', r)"
      using assms(1) by (auto simp: deliverMessage_def Pair Ok split: prod.splits)
    show ?thesis
    proof (cases r)
      case (Ok u)
      note o = deliverFile_Ok [OF d [unfolded Ok] assms(2) f]
      from o have "look fs k = Some n \<longrightarrow> look fs' k = Some n" for k n by auto
      moreover have "look fs' (newKey mb f) = Some (File body)" using o by simp
      ultimately show ?thesis using f by blast
    next
      case (Err e)
      have "look fs k = Some n \<longrightarrow> look fs' k = Some n" for k n
        using deliverFile_Err [OF d [unfolded Err] assms(2) f] look_same [of "{tmpKey mb f}" fs fs' k]
        by (cases "k = tmpKey mb f") auto
      with Err show ?thesis by simp
    next
      case (Panic p)
      with d deliverFile_no_panic [OF assms(2) f, of body fs p] show ?thesis by simp
    qed
  next
    case (Err e)
    with assms(1) Pair show ?thesis by (auto simp: deliverMessage_def)
  next
    case (Panic p)
    with Pair newUniqueName_no_panic [of env "[]" dc p] show ?thesis by simp
  qed
qed

text \<open>Nothing the maildir holds is lost while the stages run.\<close>

definition grows :: "fsys \<Rightarrow> fsys \<Rightarrow> bool" where
  "grows fs fs' \<longleftrightarrow> (\<forall>k n. look fs k = Some n \<longrightarrow> look fs' k = Some n)"

lemma stored_grows: "stored u mb fs m om \<Longrightarrow> grows fs fs' \<Longrightarrow> stored u mb fs' m om"
  unfolding stored_def grows_def by blast

lemma deliverBody_effect:
  assumes g: "mailStore mb path w" and d: "deliverBody env u mb m w = (w', r)"
  shows "mailStore mb path w' \<and> w_out w' = w_out w \<and> faults (w_fs w') = faults (w_fs w) \<and>
    nodes (w_fs w') (path_key path) = nodes (w_fs w) (path_key path) \<and> grows (w_fs w) (w_fs w') \<and>
    (\<forall>om. r = Ok om \<longrightarrow> stored u mb (w_fs w') m om) \<and> (\<forall>p. r \<noteq> Panic p)"
  using g
proof (cases rule: deliverBody_cases [where env = env and u = u and m = m])
  case (bad e)
  with d show ?thesis using g by (auto simp: grows_def deliverBody_def split: res.splits prod.splits)
next
  case (good body om fs dc q)
  have e: "grows (w_fs w) fs" "\<forall>v. q = Ok v \<longrightarrow> stored u mb fs m om"
    using deliverMessage_effect [OF good(2)] g good(1) by (auto simp: grows_def stored_def mailStore_def)
  from good(3) d have "w' = w\<lparr>w_fs := fs, w_dc := dc\<rparr>"
    "r = (case q of Ok _ \<Rightarrow> Ok om | Err e \<Rightarrow> Err e | Panic p \<Rightarrow> Panic p)" by simp_all
  with e good(4-6) g show ?thesis by (cases q) (auto simp: mailStore_def)
qed

lemma deliverAll_effect:
  assumes "mailStore mb path w"
    and "deliverAll (mailStages env u mb path fe cl) ms w = (w', oms, n)"
  shows "mailStore mb path w' \<and> w_out w' = w_out w \<and> faults (w_fs w') = faults (w_fs w) \<and>
    nodes (w_fs w') (path_key path) = nodes (w_fs w) (path_key path) \<and> grows (w_fs w) (w_fs w') \<and>
    (\<exists>sel. subseq sel ms \<and> length sel + n = length ms \<and> list_all2 (stored u mb (w_fs w')) sel oms)"
  using assms
proof (induction ms arbitrary: w oms n)
  case Nil
  then show ?case by (auto simp: grows_def)
next
  case (Cons m ms)
  obtain w1 r where d: "deliverBody env u mb m w = (w1, r)" by fastforce
  obtain oms1 n1 where a: "deliverAll (mailStages env u mb path fe cl) ms w1 = (w', oms1, n1)"
    "(oms, n) = (case r of Ok om \<Rightarrow> (om # oms1, n1) | _ \<Rightarrow> (oms1, Suc n1))"
    using Cons.prems(2) d by (auto simp: mailStages_def split: prod.splits res.splits)
  note e = deliverBody_effect [OF Cons.prems(1) d]
  from e have "mailStore mb path w1" by blast
  from Cons.IH [OF this a(1)] obtain sel where
    i: "mailStore mb path w'" "w_out w' = w_out w1" "faults (w_fs w') = faults (w_fs w1)"
      "nodes (w_fs w') (path_key path) = nodes (w_fs w1) (path_key path)" "grows (w_fs w1) (w_fs w')"
    and sel: "subseq sel ms" "length sel + n1 = length ms" "list_all2 (stored u mb (w_fs w')) sel oms1"
    by blast
  have s: "\<exists>sel. subseq sel (m # ms) \<and> length sel + n = length (m # ms) \<and>
      list_all2 (stored u mb (w_fs w')) sel oms"
  proof (cases r)
    case (Ok om)
    with e i(5) have "stored u mb (w_fs w') m om" by (blast intro: stored_grows)
    with Ok a(2) sel show ?thesis by (intro exI [of _ "m # sel"]) auto
  next
    case (Err x)
    with a(2) sel show ?thesis by (intro exI [of _ sel]) auto
  qed (use e in auto)
  have "grows (w_fs w) (w_fs w')" using e i(5) by (auto simp: grows_def)
  with e i s show ?case by simp
qed

lemma rememberAll_mail:
  "rememberAll (mailStages env u mb path fe cl) oms w =
     (case fold (writeout_step path) oms (w_fs w, w_out w) of (fs, wo) \<Rightarrow> w\<lparr>w_fs := fs, w_out := wo\<rparr>)"
  by (induction oms arbitrary: w)
    (auto simp: rememberAll_def mailStages_def rememberBody_def split: prod.split)

lemma finish_mail [simp]:
  "w_fs (finish (mailStages env u mb path fe cl) w) = w_fs w"
  by (auto simp: mailStages_def finishBody_def writeout_close_def split: option.split)

lemma rememberErrs_mail:
  "rememberErrs (mailStages env u mb path fe cl) (finish (mailStages env u mb path fe cl) w) =
     wr_errCount (w_out w) + of_bool (handle_Close (path_key path) (w_fs w) \<noteq> None)"
  by (auto simp: mailStages_def finishBody_def writeout_close_def split: option.split)

text \<open>The oldmail file and the maildir after entries were written.\<close>

lemma rememberAll_effect:
  assumes g: "mailStore mb path w" and wo: "w_out w = writeout_init"
    and w': "w' = rememberAll (mailStages env u mb path fe cl) oms w"
  shows "\<exists>n part. content (w_fs w') (path_key path) =
        content (w_fs w) (path_key path) @ concat (map oldmailLine (take n oms)) @ part \<and>
      (if wr_errCount (w_out w') = 0 then n = length oms \<and> part = []
       else n < length oms \<and> prefix part (oldmailLine (oms ! n)))"
    and "stored u mb (w_fs w) m om \<Longrightarrow> stored u mb (w_fs w') m om"
proof -
  obtain fs wo' where f: "fold (writeout_step path) oms (w_fs w, w_out w) = (fs, wo')" by fastforce
  have w'': "w_fs w' = fs" "w_out w' = wo'" using w' f by (simp_all add: rememberAll_mail)
  have wi: "wr_err (w_out w) = None" "wr_errCount (w_out w) = 0" using wo by (simp_all add: writeout_init_def)
  note a = writeout_all [OF wi f]
  then show "\<exists>n part. content (w_fs w') (path_key path) =
        content (w_fs w) (path_key path) @ concat (map oldmailLine (take n oms)) @ part \<and>
      (if wr_errCount (w_out w') = 0 then n = length oms \<and> part = []
       else n < length oms \<and> prefix part (oldmailLine (oms ! n)))"
    unfolding w'' by (metis One_nat_def zero_neq_one)
  have "newKey mb f \<noteq> path_key path" for f using g unfolding mailStore_def by metis
  then have "look fs (newKey mb f) = look (w_fs w) (newKey mb f)" for f
    using a by (intro look_same [of "{path_key path}"]) auto
  then show "stored u mb (w_fs w) m om \<Longrightarrow> stored u mb (w_fs w') m om"
    by (simp add: stored_def w'')
qed

text \<open>What the last stage leaves alone, and the effect of a whole run without errors.\<close>

lemma rememberAll_frame:
  assumes g: "mailStore mb path w" and wo: "w_out w = writeout_init"
    and w': "w' = rememberAll (mailStages env u mb path fe cl) oms w"
  shows "same_except {path_key path} (w_fs w) (w_fs w')"
    and "nodes (w_fs w') (path_key path) = Some (File (content (w_fs w') (path_key path)))"
proof -
  obtain fs wo' where f: "fold (writeout_step path) oms (w_fs w, w_out w) = (fs, wo')" by fastforce
  have w'': "w_fs w' = fs" using w' f by (simp add: rememberAll_mail)
  have wi: "wr_err (w_out w) = None" "wr_errCount (w_out w) = 0" using wo by (simp_all add: writeout_init_def)
  show "same_except {path_key path} (w_fs w) (w_fs w')" using writeout_all [OF wi f] w'' by simp
  obtain c where "nodes (w_fs w) (path_key path) = Some (File c)" using g by (auto simp: mailStore_def)
  from writeout_file_node [OF this, of oms "w_out w"]
  show "nodes (w_fs w') (path_key path) = Some (File (content (w_fs w') (path_key path)))"
    by (auto simp: f w'' content_def)
qed

lemma errorless_run:
  assumes "mailStore mb path w0" and "w_out w0 = writeout_init"
    and "(pstep (mailStages env u mb path fe cl))\<^sup>*\<^sup>* (setUp msgs i w0) st"
    and "mainPc st = MReturn 0 0 0"
  obtains oms where "fe = None" "list_all2 (stored u mb (w_fs (store st))) (somes msgs) oms"
    "content (w_fs (store st)) (path_key path) =
      content (w_fs w0) (path_key path) @ concat (map oldmailLine oms)"
    "nodes (w_fs (store st)) (path_key path) = Some (File (content (w_fs (store st)) (path_key path)))"
    "faults (w_fs (store st)) = faults (w_fs w0)"
    "\<And>k n. k \<noteq> path_key path \<Longrightarrow> look (w_fs w0) k = Some n \<Longrightarrow> look (w_fs (store st)) k = Some n"
proof -
  let ?c = "mailStages env u mb path fe cl"
  obtain w1 oms where r: "deliverAll ?c (somes msgs) w0 = (w1, oms, 0)"
    "store st = finish ?c (rememberAll ?c oms w1)" "rememberErrs ?c (store st) = 0" "fe = None"
    using mail.returned_store [OF assms(1,3,4)] by (auto simp: mailStages_def)
  obtain w2 where w2: "w2 = rememberAll ?c oms w1" by blast
  have fs: "w_fs (store st) = w_fs w2" using r(2) by (simp add: w2)
  have ne: "wr_errCount (w_out w2) = 0" using r(2,3) by (simp add: rememberErrs_mail w2)
  note d = deliverAll_effect [OF assms(1) r(1)]
  then have g: "mailStore mb path w1" and wo: "w_out w1 = writeout_init" using assms(2) by simp_all
  obtain sel where sel: "subseq sel (somes msgs)" "length sel = length (somes msgs)"
    "list_all2 (stored u mb (w_fs w1)) sel oms" using d by auto
  then have "sel = somes msgs" by (metis subseq_same_length)
  with sel(3) have a: "list_all2 (stored u mb (w_fs w2)) (somes msgs) oms"
    using rememberAll_effect(2) [OF g wo w2] by (auto elim: list_all2_mono)
  have "content (w_fs w1) (path_key path) = content (w_fs w0) (path_key path)"
    using d by (simp add: content_def)
  then have b: "content (w_fs w2) (path_key path) =
      content (w_fs w0) (path_key path) @ concat (map oldmailLine oms)"
    using rememberAll_effect(1) [OF g wo w2] ne by auto
  note f = rememberAll_frame [OF g wo w2]
  have "faults (w_fs w2) = faults (w_fs w0)" using f(1) d by (simp add: same_except_def)
  moreover have "look (w_fs w2) k = Some n" if "k \<noteq> path_key path" "look (w_fs w0) k = Some n" for k n
    using look_same [OF f(1), of k] that d by (simp add: grows_def)
  ultimately show thesis using that a b f(2) r(4) unfolding fs by blast
qed

section \<open>Properties\<close>

text \<open>A concrete run for the witnesses: one email into a maildir with an empty oldmail file.\<close>

definition exampleWorld :: world where
  "exampleWorld = \<lparr>w_fs = put_node [''backup'', ''om''] (Some (File [])) exampleFs,
     w_dc = \<lparr>count = 0\<rparr>, w_out = writeout_init\<rparr>"

definition exampleMail :: "field list" where
  "exampleMail = [FRawString ''UID'', FUint32 5, FRawString ''INTERNALDATE'', FTime 9,
     FOther ''RFC822'' ''RFC822'', FOther ''Hi'' ''Hi'']"

definition exampleStages :: "(field list, world) stages" where
  "exampleStages = mailStages exampleEnv 1 ''backup/INBOX'' ''backup/om'' None True"

definition exampleStart :: "(field list, world) pipeline" where
  "exampleStart = setUp [Some exampleMail] (newInterruptOps [''interrupt'']) exampleWorld"

lemma exampleStore: "mailStore ''backup/INBOX'' ''backup/om'' exampleWorld" "w_out exampleWorld = writeout_init"
proof -
  have k: "path_key ''backup/om'' = [''backup'', ''om'']" "path_key ''backup/INBOX'' = [''backup'', ''INBOX'']"
    by code_simp+
  show "mailStore ''backup/INBOX'' ''backup/om'' exampleWorld"
    unfolding mailStore_def tmpKey_def newKey_def k by (simp add: exampleWorld_def)
qed (simp add: exampleWorld_def)

lemma exampleRun: "\<exists>st. (pstep exampleStages)\<^sup>*\<^sup>* exampleStart st \<and> mainPc st = MReturn 0 0 0"
proof -
  let ?d = "deliver exampleStages exampleMail exampleWorld"
  let ?om = "\<lparr>om_uidFolder = 1, om_uid = 5, om_timestamp = 9\<rparr>"
  have "snd ?d = Ok ?om" by code_simp
  then have d: "?d = (fst ?d, Ok ?om)" by (metis prod.collapse)
  have e: "rememberErrs exampleStages (finish exampleStages (remember exampleStages ?om (fst ?d))) = 0"
    by code_simp
  have c: "channel (newInterruptOps [''interrupt'']) = Some []"
    by (simp add: newInterruptOps_def register_def)
  have f: "fetch_closes exampleStages" "fetch_err exampleStages = None"
    by (simp_all add: exampleStages_def mailStages_def)
  show ?thesis
    using one_message_run [OF c f d refl] unfolding e exampleStart_def by blast
qed

text \<open>
  C8: The concurrent pipeline refines the sequential program. Whatever the interleaving of the
  goroutines and whenever an interrupt arrives, when the main goroutine returns, the file system is
  the one a sequential program leaves that delivers some first part of the messages one after the
  other and then writes the entries of the delivered ones. The error counts are those of this
  sequential run, and if no retrieval error was counted, all messages were processed and
  \<open>UidFetch\<close> succeeded.
\<close>

theorem pipeline_refines_sequential:
  assumes "mailStore mb path w0"
    and "(pstep (mailStages env u mb path fe cl))\<^sup>*\<^sup>* (setUp msgs i w0) st"
    and "mainPc st = MReturn e d n"
  shows "\<exists>taken rest w1 oms. msgs = taken @ rest \<and>
    deliverAll (mailStages env u mb path fe cl) (somes taken) w0 = (w1, oms, d) \<and>
    store st = finishBody path (rememberAll (mailStages env u mb path fe cl) oms w1) \<and>
    n = wr_errCount (w_out (store st)) \<and> (e = 0 \<longrightarrow> rest = [] \<and> fe = None)"
  using mail.returned_store [OF assms] by (simp add: mailStages_def)

lemma pipeline_refines_sequential_witness:
  "\<exists>st w1 oms. (pstep exampleStages)\<^sup>*\<^sup>* exampleStart st \<and>
    deliverAll exampleStages [exampleMail] exampleWorld = (w1, oms, 0) \<and>
    store st = finishBody ''backup/om'' (rememberAll exampleStages oms w1)"
proof -
  obtain st where st: "(pstep exampleStages)\<^sup>*\<^sup>* exampleStart st" "mainPc st = MReturn 0 0 0"
    using exampleRun by blast
  from pipeline_refines_sequential [OF exampleStore(1) st(1) [unfolded exampleStages_def exampleStart_def] st(2)]
  obtain w1 oms where "deliverAll exampleStages [exampleMail] exampleWorld = (w1, oms, 0)"
    "store st = finishBody ''backup/om'' (rememberAll exampleStages oms w1)"
    unfolding exampleStages_def by (auto simp del: deliverAll.simps)
  with st(1) show ?thesis by blast
qed

text \<open>
  Crash safety. At any moment of any run, whatever failures occur, the oldmail file consists of
  its old content, complete entries, and possibly a part of one more entry, and every one of these
  entries belongs to a message of the server whose email is already stored completely in \<open>new\<close>.
  So a program that is killed never believes to have an email that it has not stored.
\<close>

theorem remembered_emails_are_stored:
  assumes "mailStore mb path w0" and "w_out w0 = writeout_init"
    and "(pstep (mailStages env u mb path fe cl))\<^sup>*\<^sup>* (setUp msgs i w0) st"
  shows "\<exists>entries om part. content (w_fs (store st)) (path_key path) =
      content (w_fs w0) (path_key path) @ concat (map oldmailLine entries) @ part \<and>
    (part = [] \<or> prefix part (oldmailLine om) \<and>
       (\<exists>m \<in> set (somes msgs). stored u mb (w_fs (store st)) m om)) \<and>
    (\<forall>om \<in> set entries. \<exists>m \<in> set (somes msgs). stored u mb (w_fs (store st)) m om)"
proof -
  let ?c = "mailStages env u mb path fe cl"
  obtain ms w1 oms ws k where r: "prefix ms (somes msgs)" "deliverAll ?c ms w0 = (w1, oms, k)"
    "prefix ws oms" "store st = (if writePc st = WDone then finish ?c else id) (rememberAll ?c ws w1)"
    using mail.remembered_prefix [OF assms(1,3)] by blast
  obtain w2 where w2: "w2 = rememberAll ?c ws w1" by blast
  have fs: "w_fs (store st) = w_fs w2" using r(4) by (simp add: w2)
  note d = deliverAll_effect [OF assms(1) r(2)]
  then have g: "mailStore mb path w1" and wo: "w_out w1 = writeout_init" using assms(2) by simp_all
  obtain sel where sel: "subseq sel ms" "list_all2 (stored u mb (w_fs w1)) sel oms" using d by blast
  have st: "\<exists>m \<in> set (somes msgs). stored u mb (w_fs w2) m om" if "om \<in> set ws" for om
  proof -
    have "om \<in> set oms" using that r(3) set_mono_prefix by blast
    then obtain j where j: "j < length oms" "om = oms ! j" by (auto simp: in_set_conv_nth)
    with sel(2) have m: "sel ! j \<in> set sel" "stored u mb (w_fs w1) (sel ! j) om"
      by (simp_all add: list_all2_conv_all_nth)
    have "set sel \<subseteq> set ms" "set ms \<subseteq> set (somes msgs)"
      using list_emb_set [OF sel(1)] set_mono_prefix [OF r(1)] by (blast, blast)
    with m rememberAll_effect(2) [OF g wo w2] show ?thesis by blast
  qed
  have c: "content (w_fs w1) (path_key path) = content (w_fs w0) (path_key path)"
    using d by (simp add: content_def)
  obtain n part where n: "content (w_fs w2) (path_key path) =
      content (w_fs w0) (path_key path) @ concat (map oldmailLine (take n ws)) @ part"
    "if wr_errCount (w_out w2) = 0 then n = length ws \<and> part = []
     else n < length ws \<and> prefix part (oldmailLine (ws ! n))"
    using rememberAll_effect(1) [OF g wo w2] c by auto
  have "part = [] \<or> prefix part (oldmailLine (ws ! n)) \<and> ws ! n \<in> set ws"
    using n(2) by (auto split: if_splits)
  with n(1) st show ?thesis unfolding fs by (intro exI conjI) (auto dest: in_set_takeD)
qed

lemma remembered_emails_are_stored_witness:
  "\<exists>st entries. (pstep exampleStages)\<^sup>*\<^sup>* exampleStart st \<and> mainPc st = MReturn 0 0 0 \<and>
    (\<forall>om \<in> set entries. stored 1 ''backup/INBOX'' (w_fs (store st)) exampleMail om)"
proof -
  obtain st where st: "(pstep exampleStages)\<^sup>*\<^sup>* exampleStart st" "mainPc st = MReturn 0 0 0"
    using exampleRun by blast
  from remembered_emails_are_stored [OF exampleStore st(1) [unfolded exampleStages_def exampleStart_def]]
  obtain entries where "\<forall>om \<in> set entries. stored 1 ''backup/INBOX'' (w_fs (store st)) exampleMail om"
    by auto
  with st show ?thesis by blast
qed

text \<open>
  A run that reports no error is complete: \<open>UidFetch\<close> succeeded, every message the server sent is
  stored in \<open>new\<close>, nothing that was on disk is lost, and the oldmail file has grown by exactly the
  entries of these messages, in their order.
\<close>

theorem errorless_run_is_complete:
  assumes "mailStore mb path w0" and "w_out w0 = writeout_init"
    and "(pstep (mailStages env u mb path fe cl))\<^sup>*\<^sup>* (setUp msgs i w0) st"
    and "mainPc st = MReturn 0 0 0"
  shows "(\<exists>oms. fe = None \<and> list_all2 (stored u mb (w_fs (store st))) (somes msgs) oms \<and>
      content (w_fs (store st)) (path_key path) =
        content (w_fs w0) (path_key path) @ concat (map oldmailLine oms)) \<and>
    (\<forall>k n. k \<noteq> path_key path \<longrightarrow> look (w_fs w0) k = Some n \<longrightarrow> look (w_fs (store st)) k = Some n)"
  by (rule errorless_run [OF assms]) blast

lemma errorless_run_is_complete_witness:
  "\<exists>st oms. (pstep exampleStages)\<^sup>*\<^sup>* exampleStart st \<and>
    list_all2 (stored 1 ''backup/INBOX'' (w_fs (store st))) [exampleMail] oms"
proof -
  obtain st where st: "(pstep exampleStages)\<^sup>*\<^sup>* exampleStart st" "mainPc st = MReturn 0 0 0"
    using exampleRun by blast
  from errorless_run_is_complete [OF exampleStore st(1) [unfolded exampleStages_def exampleStart_def] st(2)]
  show ?thesis using st(1) by auto
qed

text \<open>
  The pipeline cannot deadlock: if the IMAP library closes its channel before \<open>UidFetch\<close> returns,
  then from every state a run can reach, whatever failed so far and whether or not it was
  interrupted, the goroutines can go on to the point where the main goroutine returns.
\<close>

theorem pipeline_can_always_return:
  assumes "mailStore mb path w0"
    and "(pstep (mailStages env u mb path fe True))\<^sup>*\<^sup>* (setUp msgs i w0) st"
  shows "\<exists>st' e d n. (pstep (mailStages env u mb path fe True))\<^sup>*\<^sup>* st st' \<and> mainPc st' = MReturn e d n"
  using mail.can_return [OF _ assms] by (simp add: mailStages_def)

lemma pipeline_can_always_return_witness:
  "\<exists>st e d n. (pstep exampleStages)\<^sup>*\<^sup>* exampleStart st \<and> mainPc st = MReturn e d n"
  using pipeline_can_always_return [where env = exampleEnv and u = 1 and fe = None
        and msgs = "[Some exampleMail]" and i = "newInterruptOps [''interrupt'']",
      OF exampleStore(1) rtranclp.rtrancl_refl]
  unfolding exampleStages_def exampleStart_def by blast

end
