(* ===== verification/ImapClient.thy ===== *)
theory ImapClient
  imports Oldmail Email
begin

text \<open>
  The use of the IMAP library in \<open>core/imap_client.go\<close>: connecting, logging in, listing folders and
  the messages of a folder, and the request for the missing messages. The library (package
  \<open>go-imap/client\<close>) is a parameter: the answers it gives to the calls. Listing is done with two
  goroutines, one that calls the library and one that collects what arrives on a channel.
\<close>

section \<open>The library\<close>

record mailboxStatus =
  Messages :: u32
  UidValidity :: u32

text \<open>
  \<open>List\<close>, \<open>Fetch\<close> (of a range of sequence numbers) and \<open>UidFetch\<close> (of a set of UIDs) give what they send
  on the channel and the error they return. A message may be nil; of a message that \<open>Fetch\<close> sends only
  the UID is used, of one that \<open>UidFetch\<close> sends the values of \<open>Format()\<close>.
\<close>

record imapOps =
  Login :: "string \<Rightarrow> string \<Rightarrow> gerr option"
  List :: "string \<Rightarrow> string \<Rightarrow> string list \<times> gerr option"
  Select :: "string \<Rightarrow> bool \<Rightarrow> mailboxStatus res"
  Fetch :: "u32 \<Rightarrow> u32 \<Rightarrow> u32 option list \<times> gerr option"
  UidFetch :: "u32 list \<Rightarrow> field list option list \<times> gerr option"
  Logout :: "gerr option"
  Terminate :: "gerr option"

section \<open>Connecting\<close>

definition newImapClient ::
    "(string \<Rightarrow> imapOps res) \<Rightarrow> (string \<Rightarrow> imapOps res) \<Rightarrow> string \<Rightarrow> bool \<Rightarrow> imapOps res" where
  "newImapClient dialTLS dial addr insecure =
     (if \<not> insecure then dialTLS addr
      else if \<not> hasPrefix addr ''127.0.0.1:''
      then Err (''not allowing insecure auth for non-localhost address '' @ addr @ '', use 127.0.0.1'')
      else dial addr)"

definition serverWithPort :: "IMAPConfig \<Rightarrow> string" where
  "serverWithPort config = Server config @ '':'' @ showGoint (Port config)"

definition authenticateClient ::
    "(string \<Rightarrow> imapOps res) \<Rightarrow> (string \<Rightarrow> imapOps res) \<Rightarrow> IMAPConfig \<Rightarrow> imapOps res" where
  "authenticateClient dialTLS dial config =
     (if length (Password config) = 0 then Err ''password not set''
      else bind_res (newImapClient dialTLS dial (serverWithPort config) (Insecure config)) (\<lambda>imapClient.
        case Login imapClient (User config) (Password config) of
          Some e \<Rightarrow> Err e
        | None \<Rightarrow> Ok imapClient))"

definition selectFolder :: "imapOps \<Rightarrow> string \<Rightarrow> mailboxStatus res" where
  "selectFolder imapClient folder = Select imapClient folder True"

section \<open>Collecting from a channel\<close>

text \<open>
  The state of \<open>getFolderList\<close> and \<open>getAllMessageUUIDs\<close>: what the library has still to send, the buffered
  channel, the result variable \<open>err\<close> that the goroutine assigns when the library returns, what the
  caller has received, and what the function has returned.
\<close>

record 'a collect =
  toSend :: "'a list"
  buffer :: "'a list"
  chanClosed :: bool
  assigned :: bool
  errVar :: "gerr option"
  received :: "'a list"
  outcome :: "('a list \<times> gerr option) option"

definition folderListBuffer :: nat where "folderListBuffer = 10"
definition messageListBuffer :: nat where "messageListBuffer = 20"

definition collectInit :: "'a list \<Rightarrow> 'a collect" where
  "collectInit items = \<lparr>toSend = items, buffer = [], chanClosed = False, assigned = False,
     errVar = None, received = [], outcome = None\<rparr>"

text \<open>
  The library sends, closes the channel and returns; the caller ranges over the channel and then
  returns what it has received and the value \<open>err\<close> has at that moment.
\<close>

inductive cstep :: "nat \<Rightarrow> gerr option \<Rightarrow> 'a collect \<Rightarrow> 'a collect \<Rightarrow> bool" for cap err where
  send: "toSend st = x # xs \<Longrightarrow> length (buffer st) < cap \<Longrightarrow>
     cstep cap err st (st\<lparr>toSend := xs, buffer := buffer st @ [x]\<rparr>)"
| close: "toSend st = [] \<Longrightarrow> \<not> chanClosed st \<Longrightarrow> cstep cap err st (st\<lparr>chanClosed := True\<rparr>)"
| assign: "chanClosed st \<Longrightarrow> \<not> assigned st \<Longrightarrow>
     cstep cap err st (st\<lparr>errVar := err, assigned := True\<rparr>)"
| recv: "outcome st = None \<Longrightarrow> buffer st = x # q \<Longrightarrow>
     cstep cap err st (st\<lparr>buffer := q, received := received st @ [x]\<rparr>)"
| ret: "outcome st = None \<Longrightarrow> buffer st = [] \<Longrightarrow> chanClosed st \<Longrightarrow>
     cstep cap err st (st\<lparr>outcome := Some (received st, errVar st)\<rparr>)"

text \<open>The results a call can have.\<close>

definition collects :: "nat \<Rightarrow> 'a list \<times> gerr option \<Rightarrow> 'a list \<times> gerr option \<Rightarrow> bool" where
  "collects cap lib r \<longleftrightarrow>
     (\<exists>st. (cstep cap (snd lib))\<^sup>*\<^sup>* (collectInit (fst lib)) st \<and> outcome st = Some r)"

definition getFolderList :: "imapOps \<Rightarrow> string list \<times> gerr option \<Rightarrow> bool" where
  "getFolderList imapClient r \<longleftrightarrow> collects folderListBuffer (List imapClient [] ''*'') r"

definition messageUIDs :: "mailboxStatus \<Rightarrow> u32 option list \<Rightarrow> uidExt list" where
  "messageUIDs mbox ms = map (\<lambda>u. \<lparr>ue_folder = ucast (UidValidity mbox), ue_msg = ucast u\<rparr>) (somes ms)"

definition getAllMessageUUIDs :: "mailboxStatus \<Rightarrow> imapOps \<Rightarrow> uidExt list \<times> gerr option \<Rightarrow> bool" where
  "getAllMessageUUIDs mbox imapClient r \<longleftrightarrow>
     (if Messages mbox = 0 then r = ([], None)
      else \<exists>ms err. collects messageListBuffer (Fetch imapClient 1 (Messages mbox)) (ms, err) \<and>
             r = (messageUIDs mbox ms, err))"

section \<open>The request for messages\<close>

definition maxInt32 :: int where "maxInt32 = 2147483647"

definition intToUint32 :: "goint \<Rightarrow> u32 res" where
  "intToUint32 i =
     (if 0 \<le> sint i \<and> sint i \<le> maxInt32 then Ok (ucast i)
      else Panic ''fatal error: integer overflow or underflow detected'')"

fun addNums :: "uid list \<Rightarrow> u32 list res" where
  "addNums [] = Ok []"
| "addNums (u # us) = bind_res (intToUint32 u) (\<lambda>n. bind_res (addNums us) (\<lambda>ns. Ok (n # ns)))"

text \<open>The numbers \<open>streamingRetrieval\<close> puts into the sequence set it asks for.\<close>

definition retrievalRequest :: "uid list \<Rightarrow> u32 list res" where
  "retrievalRequest uids =
     (if list_ex (\<lambda>u. sint u \<le> 0) uids then Err ''detected a UID<=0, aborting'' else addNums uids)"

section \<open>Lemmas on collecting\<close>

definition collect_inv :: "'a list \<Rightarrow> gerr option \<Rightarrow> 'a collect \<Rightarrow> bool" where
  "collect_inv items err st \<longleftrightarrow>
     items = received st @ buffer st @ toSend st \<and> (chanClosed st \<longrightarrow> toSend st = []) \<and>
     errVar st = (if assigned st then err else None) \<and>
     (\<forall>r. outcome st = Some r \<longrightarrow> fst r = items \<and> snd r \<in> {None, err})"

lemma collect_inv_reach: "(cstep cap err)\<^sup>*\<^sup>* (collectInit items) st \<Longrightarrow> collect_inv items err st"
proof (induction rule: rtranclp_induct)
  case base
  show ?case by (simp add: collect_inv_def collectInit_def)
next
  case (step st st')
  from step(2,3) show ?case
    by (induction rule: cstep.induct) (auto simp: collect_inv_def split: if_splits)
qed

text \<open>All items can be transferred one by one.\<close>

lemma transfer_all:
  assumes "0 < cap"
  shows "(cstep cap err)\<^sup>*\<^sup>* \<lparr>toSend = xs, buffer = [], chanClosed = c, assigned = a, errVar = v,
      received = ys, outcome = None\<rparr> \<lparr>toSend = [], buffer = [], chanClosed = c, assigned = a, errVar = v,
      received = ys @ xs, outcome = None\<rparr>"
proof (induction xs arbitrary: ys)
  case (Cons x xs)
  let ?s = "\<lambda>l b r. \<lparr>toSend = l, buffer = b, chanClosed = c, assigned = a, errVar = v, received = r, outcome = None\<rparr>"
  have "cstep cap err (?s (x # xs) [] ys) (?s xs [x] ys)"
    using cstep.send [of "?s (x # xs) [] ys" x xs cap err] assms by simp
  moreover have "cstep cap err (?s xs [x] ys) (?s xs [] (ys @ [x]))"
    using cstep.recv [of "?s xs [x] ys" x "[]" cap err] by simp
  ultimately show ?case using Cons.IH [of "ys @ [x]"]
    by (simp add: converse_rtranclp_into_rtranclp)
qed simp

lemma collects_pair:
  assumes "0 < cap"
  shows "collects cap (items, err) r \<longleftrightarrow> r = (items, None) \<or> r = (items, err)"
proof
  assume "collects cap (items, err) r"
  then obtain st where "(cstep cap err)\<^sup>*\<^sup>* (collectInit items) st" "outcome st = Some r"
    by (auto simp: collects_def)
  with collect_inv_reach [of cap err items st] show "r = (items, None) \<or> r = (items, err)"
    by (cases r) (auto simp: collect_inv_def)
next
  let ?s = "\<lambda>c a v out. \<lparr>toSend = [], buffer = [], chanClosed = c, assigned = a, errVar = v,
      received = items, outcome = out\<rparr>"
  have t: "(cstep cap err)\<^sup>*\<^sup>* (collectInit items) (?s False False None None)"
    using transfer_all [OF assms, of err items False False None "[]"] by (simp add: collectInit_def)
  have c: "cstep cap err (?s False False None None) (?s True False None None)"
    using cstep.close [of "?s False False None None" cap err] by simp
  have a: "cstep cap err (?s True False None None) (?s True True err None)"
    using cstep.assign [of "?s True False None None" cap err] by simp
  have f: "cstep cap err (?s True b v None) (?s True b v (Some (items, v)))" for b v
    using cstep.ret [of "?s True b v None" cap err] by simp
  have early: "(cstep cap err)\<^sup>*\<^sup>* (collectInit items) (?s True False None (Some (items, None)))"
    using t c f by (meson rtranclp.rtrancl_into_rtrancl)
  have late: "(cstep cap err)\<^sup>*\<^sup>* (collectInit items) (?s True True err (Some (items, err)))"
    using t c a f by (meson rtranclp.rtrancl_into_rtrancl)
  assume "r = (items, None) \<or> r = (items, err)"
  then show "collects cap (items, err) r"
    using early late by (auto simp: collects_def intro: exI [of _ "?s True False None (Some (items, None))"]
        exI [of _ "?s True True err (Some (items, err))"])
qed

lemma collects_iff:
  "0 < cap \<Longrightarrow> collects cap lib (xs, e) \<longleftrightarrow> xs = fst lib \<and> e \<in> {None, snd lib}"
  using collects_pair [of cap "fst lib" "snd lib" "(xs, e)"] by auto

lemma addNums_Ok:
  "(\<forall>u \<in> set us. 0 \<le> sint u \<and> sint u \<le> maxInt32) \<Longrightarrow> addNums us = Ok (map ucast us)"
  by (induction us) (auto simp: intToUint32_def)

lemma addNums_Panic:
  "\<exists>u \<in> set us. \<not> (0 \<le> sint u \<and> sint u \<le> maxInt32) \<Longrightarrow> \<exists>p. addNums us = Panic p"
proof (induction us)
  case (Cons u us)
  then show ?case by (cases "0 \<le> sint u \<and> sint u \<le> maxInt32") (auto simp: intToUint32_def)
qed simp

lemma retrievalRequest_Ok_iff:
  "retrievalRequest us = Ok ns \<longleftrightarrow>
     (\<forall>u \<in> set us. 0 < sint u \<and> sint u \<le> maxInt32) \<and> ns = map ucast us"
proof (cases "\<exists>u \<in> set us. \<not> (0 < sint u \<and> sint u \<le> maxInt32)")
  case True
  have "retrievalRequest us \<noteq> Ok ns"
  proof (cases "list_ex (\<lambda>u. sint u \<le> 0) us")
    case False
    with True have "\<exists>u \<in> set us. \<not> (0 \<le> sint u \<and> sint u \<le> maxInt32)"
      by (force simp: list_ex_iff)
    with False show ?thesis using addNums_Panic [of us] by (auto simp: retrievalRequest_def)
  qed (simp add: retrievalRequest_def)
  with True show ?thesis by blast
next
  case False
  then show ?thesis
    using addNums_Ok [of us] by (force simp: retrievalRequest_def list_ex_iff)
qed

lemma sint_ucast_u32: "sint (ucast (u :: u32) :: goint) = uint u"
proof -
  have "uint u < 2 ^ 63" using uint_lt2p [of u] by simp
  then show ?thesis by (simp add: sint_uint signed_take_bit_eq_if_positive uint_up_ucast is_up
      bit_iff_odd take_bit_int_eq_self unsigned_ucast_eq take_bit_int_eq_self_iff)
qed

lemma uint_of_nonneg:
  assumes "0 \<le> sint (u :: goint)"
  shows "uint u = sint u"
proof -
  have "sint u mod 2 ^ 64 = sint u" using assms sint_goint_range(2) [of u] by simp
  then show ?thesis using uint_sint [of u] by (simp add: take_bit_eq_mod)
qed

lemma ucast_roundtrip:
  assumes "0 < sint (u :: goint)" "sint u \<le> maxInt32"
  shows "ucast (ucast u :: u32) = u"
proof -
  have "uint u < 2 ^ 32" using assms(2) uint_of_nonneg [of u] assms by (simp add: maxInt32_def)
  then have "take_bit 32 (uint u) = uint u" by (simp add: take_bit_int_eq_self)
  then show ?thesis
    by (intro word_uint_eqI) (simp add: unsigned_ucast_eq unsigned_take_bit_eq)
qed

section \<open>Properties\<close>

text \<open>
  Listing is complete but can lose an error. A call of \<open>getFolderList\<close> that returns has all folders the
  library sent, in order, and its error is what the library returned or nil; both happen, because
  the caller reads \<open>err\<close> as soon as the channel is closed, without waiting for the goroutine
  that assigns it. \<open>getAllMessageUUIDs\<close> likewise returns the UIDs of all non-nil messages.
\<close>

theorem listing_results:
  "(getFolderList ops (folders, err) \<longleftrightarrow>
      folders = fst (List ops [] ''*'') \<and> err \<in> {None, snd (List ops [] ''*'')}) \<and>
   (getAllMessageUUIDs mbox ops (uids, err) \<longleftrightarrow>
      (if Messages mbox = 0 then uids = [] \<and> err = None
       else uids = messageUIDs mbox (fst (Fetch ops 1 (Messages mbox))) \<and>
         err \<in> {None, snd (Fetch ops 1 (Messages mbox))}))"
proof -
  have "0 < folderListBuffer" "0 < messageListBuffer"
    by (simp_all add: folderListBuffer_def messageListBuffer_def)
  note c = this [THEN collects_iff]
  show ?thesis by (auto simp: getFolderList_def getAllMessageUUIDs_def c)
qed

text \<open>
  C36: The password is sent in clear text to the own machine only. Logging in without TLS uses a plain
  connection only to an address that begins with \<open>127.0.0.1:\<close>, whatever a plain connection to other
  addresses would give; with TLS it uses no plain connection at all, and no connection is made with an
  empty password.
\<close>

theorem no_plaintext_login_to_others:
  assumes "\<forall>a. hasPrefix a ''127.0.0.1:'' \<longrightarrow> dial' a = dial a"
  shows "authenticateClient dialTLS dial' cfg = authenticateClient dialTLS dial cfg \<and>
    (\<not> Insecure cfg \<longrightarrow> authenticateClient dialTLS dial'' cfg = authenticateClient dialTLS dial cfg) \<and>
    (Insecure cfg \<and> \<not> hasPrefix (Server cfg) ''127.0.0.1'' \<longrightarrow> (\<exists>e. authenticateClient dialTLS dial cfg = Err e))"
proof -
  have p: "hasPrefix (Server cfg) ''127.0.0.1''" if "hasPrefix (serverWithPort cfg) ''127.0.0.1:''"
  proof (rule ccontr)
    assume n: "\<not> hasPrefix (Server cfg) ''127.0.0.1''"
    from that obtain t where t: "Server cfg @ CHR '':'' # showGoint (Port cfg) = ''127.0.0.1'' @ CHR '':'' # t"
      by (auto simp: hasPrefix_iff serverWithPort_def)
    have l: "length (Server cfg) < length ''127.0.0.1''"
    proof (rule ccontr)
      assume "\<not> length (Server cfg) < length ''127.0.0.1''"
      then have "take (length ''127.0.0.1'') (Server cfg) = ''127.0.0.1''"
        using arg_cong [OF t, of "take (length ''127.0.0.1'')"] by simp
      then show False using n by (metis append_take_drop_id hasPrefix_append)
    qed
    have "(Server cfg @ CHR '':'' # showGoint (Port cfg)) ! length (Server cfg) = ''127.0.0.1'' ! length (Server cfg)"
      unfolding t by (rule nth_append_left [OF l])
    then have "''127.0.0.1'' ! length (Server cfg) = CHR '':''" by simp
    then have "CHR '':'' \<in> set ''127.0.0.1''"
      using l nth_mem by metis
    then show False by simp
  qed
  show ?thesis
    using assms p by (auto simp: authenticateClient_def newImapClient_def)
qed

lemma no_plaintext_login_to_others_witness:
  "authenticateClient (\<lambda>a. Err a) (\<lambda>a. if hasPrefix a ''127.0.0.1:'' then Err ''plain'' else Err ''other'')
      \<lparr>Server = ''mail.example'', Port = 143, User = ''u'', Password = ''p'', Insecure = True\<rparr> =
   authenticateClient (\<lambda>a. Err a) (\<lambda>a. Err ''plain'')
      \<lparr>Server = ''mail.example'', Port = 143, User = ''u'', Password = ''p'', Insecure = True\<rparr>"
  using no_plaintext_login_to_others
    [of "\<lambda>a. if hasPrefix a ''127.0.0.1:'' then Err ''plain'' else Err ''other''" "\<lambda>a. Err ''plain''"] by simp

text \<open>
  C35: The request for missing messages asks for exactly the given UIDs, and it is only made if all of them
  are positive and at most \<open>MaxInt32\<close>. IMAP allows 32-bit UIDs: for a larger one, as for 2147483648,
  the program panics.
\<close>

theorem retrieval_request_uids:
  "(retrievalRequest us = Ok ns \<longleftrightarrow>
      (\<forall>u \<in> set us. 0 < sint u \<and> sint u \<le> maxInt32) \<and> ns = map ucast us) \<and>
   (0 \<notin> set vs \<longrightarrow> (\<exists>v \<in> set vs. maxInt32 < uint v) \<longrightarrow>
      (\<exists>p. retrievalRequest (map ucast (vs :: u32 list)) = Panic p))"
proof (intro conjI impI)
  show "retrievalRequest us = Ok ns \<longleftrightarrow>
      (\<forall>u \<in> set us. 0 < sint u \<and> sint u \<le> maxInt32) \<and> ns = map ucast us"
    by (rule retrievalRequest_Ok_iff)
next
  assume z: "0 \<notin> set vs" and v: "\<exists>v \<in> set vs. maxInt32 < uint v"
  have "0 < uint v" if "v \<in> set vs" for v
    using z that by (metis less_le uint_0_iff uint_ge_0)
  then have "\<not> list_ex (\<lambda>u. sint u \<le> 0) (map ucast vs :: uid list)"
    by (fastforce simp: list_ex_iff sint_ucast_u32)
  moreover have "\<exists>p. addNums (map ucast vs) = Panic p"
    using v by (intro addNums_Panic) (auto simp: sint_ucast_u32 not_le)
  ultimately show "\<exists>p. retrievalRequest (map ucast vs) = Panic p"
    by (simp add: retrievalRequest_def)
qed

lemma retrieval_request_uids_witness:
  "retrievalRequest [5] = Ok [5] \<and> (\<exists>p. retrievalRequest [2147483648] = Panic p)"
proof -
  have "retrievalRequest [5] = Ok [5]"
    using retrieval_request_uids [of "[5]" "[5]"] by (simp add: maxInt32_def)
  moreover have "\<exists>p. retrievalRequest [2147483648] = Panic p"
    using retrieval_request_uids [of "[5]" "[5]" "[2147483648]"] by (simp add: maxInt32_def)
  ultimately show ?thesis by simp
qed

end
