(* ===== verification/Download.thy ===== *)
theory Download
  imports Delivery ImapClient
begin

text \<open>
  Downloading the missing emails of one folder, \<open>core/download.go\<close>: initialising the maildir, finding
  out what is missing, and running the pipeline. The results of the calls that are not
  deterministic (listing the messages, the run of the pipeline) are related to the arguments.
\<close>

section \<open>Model\<close>

text \<open>
  What the function is called with: the environment of the deliveries, the IMAP library, one of
  the results \<open>getAllMessageUUIDs\<close> can have for a folder, the path and the name of the oldmail file.
\<close>

record session =
  s_env :: environment
  s_ops :: imapOps
  s_listed :: "mailboxStatus \<Rightarrow> uidExt list \<times> gerr option"
  s_path :: maildirPathT
  s_oldmailName :: string

definition validSession :: "session \<Rightarrow> bool" where
  "validSession s \<longleftrightarrow> (\<forall>mbox. getAllMessageUUIDs mbox (s_ops s) (s_listed s mbox))"

text \<open>
  Up to the decision whether there is something to do: the oldmail file, the UID validity and the
  missing UIDs.
\<close>

definition prepareDownload ::
    "session \<Rightarrow> interrupter \<Rightarrow> fsys \<Rightarrow> fsys \<times> interrupter \<times> (string \<times> uidFolder \<times> uid list) res" where
  "prepareDownload s i fs =
     (case initMaildir (s_oldmailName s) (s_path s) fs of
        (fs1, Err e) \<Rightarrow> (fs1, i, Err e)
      | (fs1, Panic p) \<Rightarrow> (fs1, i, Panic p)
      | (fs1, Ok (oldmails, oldmailPath)) \<Rightarrow>
         (case selectFolder (s_ops s) (folderName (s_path s)) of
            Err e \<Rightarrow> (fs1, i, Err e)
          | Panic p \<Rightarrow> (fs1, i, Panic p)
          | Ok mbox \<Rightarrow>
             (case interrupted i of
                (i1, True) \<Rightarrow> (fs1, i1, Err ''aborting due to user interrupt'')
              | (i1, False) \<Rightarrow>
                 (case s_listed s mbox of
                    (uids, Some e) \<Rightarrow> (fs1, i1, Err e)
                  | (uids, None) \<Rightarrow>
                      (fs1, i1, bind_res (determineMissingUIDs oldmails uids)
                        (\<lambda>missing. Ok (oldmailPath, ucast (UidValidity mbox), missing)))))))"

definition errorReport :: "nat \<Rightarrow> nat \<Rightarrow> nat \<Rightarrow> string" where
  "errorReport e d n = ''there were '' @ showNat e @ ''/'' @ showNat d @ ''/'' @ showNat n @
     '' errors while: retrieving/delivering/remembering mail''"

definition downloadResult :: "nat \<Rightarrow> nat \<Rightarrow> nat \<Rightarrow> unit res" where
  "downloadResult e d n = (if 0 < e \<or> 0 < d \<or> 0 < n then Err (errorReport e d n) else Ok ())"

text \<open>The stages and the start of the pipeline for the messages with the UIDs \<open>ns\<close>.\<close>

definition downloadStages :: "session \<Rightarrow> string \<Rightarrow> uidFolder \<Rightarrow> u32 list \<Rightarrow> (field list, world) stages" where
  "downloadStages s oldmailPath uidFold ns =
     mailStages (s_env s) uidFold (folderPath (s_path s)) oldmailPath (snd (UidFetch (s_ops s) ns)) True"

definition downloadStart ::
    "session \<Rightarrow> u32 list \<Rightarrow> interrupter \<Rightarrow> fsys \<Rightarrow> threadSafeCounter \<Rightarrow> (field list, world) pipeline" where
  "downloadStart s ns i fs dc =
     setUp (fst (UidFetch (s_ops s) ns)) i \<lparr>w_fs = fs, w_dc = dc, w_out = writeout_init\<rparr>"

text \<open>The file system and the delivery counter before, those after, and the result.\<close>

inductive downloadMissingEmailsToFolder ::
    "session \<Rightarrow> interrupter \<Rightarrow> fsys \<times> threadSafeCounter \<Rightarrow> (fsys \<times> threadSafeCounter) \<times> unit res \<Rightarrow> bool"
  for s i where
  failed: "prepareDownload s i fs = (fs1, i1, Err e) \<Longrightarrow>
     downloadMissingEmailsToFolder s i (fs, dc) ((fs1, dc), Err e)"
| panicked: "prepareDownload s i fs = (fs1, i1, Panic p) \<Longrightarrow>
     downloadMissingEmailsToFolder s i (fs, dc) ((fs1, dc), Panic p)"
| nothing: "prepareDownload s i fs = (fs1, i1, Ok (oldmailPath, uidFold, [])) \<Longrightarrow>
     downloadMissingEmailsToFolder s i (fs, dc) ((fs1, dc), Ok ())"
| request_failed: "prepareDownload s i fs = (fs1, i1, Ok (oldmailPath, uidFold, missing)) \<Longrightarrow>
     missing \<noteq> [] \<Longrightarrow> retrievalRequest missing = Err e \<Longrightarrow>
     downloadMissingEmailsToFolder s i (fs, dc) ((fs1, dc), Err e)"
| request_panicked: "prepareDownload s i fs = (fs1, i1, Ok (oldmailPath, uidFold, missing)) \<Longrightarrow>
     missing \<noteq> [] \<Longrightarrow> retrievalRequest missing = Panic p \<Longrightarrow>
     downloadMissingEmailsToFolder s i (fs, dc) ((fs1, dc), Panic p)"
| open_failed: "prepareDownload s i fs = (fs1, i1, Ok (oldmailPath, uidFold, missing)) \<Longrightarrow>
     missing \<noteq> [] \<Longrightarrow> retrievalRequest missing = Ok ns \<Longrightarrow>
     writeout_open oldmailPath fs1 = (fs2, Err e) \<Longrightarrow>
     downloadMissingEmailsToFolder s i (fs, dc) ((fs2, dc), Err e)"
| ran: "prepareDownload s i fs = (fs1, i1, Ok (oldmailPath, uidFold, missing)) \<Longrightarrow>
     missing \<noteq> [] \<Longrightarrow> retrievalRequest missing = Ok ns \<Longrightarrow>
     writeout_open oldmailPath fs1 = (fs2, Ok u) \<Longrightarrow>
     (pstep (downloadStages s oldmailPath uidFold ns))\<^sup>*\<^sup>* (downloadStart s ns i1 fs2 dc) st \<Longrightarrow>
     mainPc st = MReturn e d n \<Longrightarrow>
     downloadMissingEmailsToFolder s i (fs, dc) ((w_fs (store st), w_dc (store st)), downloadResult e d n)"

text \<open>
  \<open>Imapgrabber.downloadMissingEmailsToFolder\<close>, the entry for the threads of \<open>DownloadFolder\<close>; \<open>i\<close> is the
  interrupt handler of the connection.
\<close>

definition ig_downloadMissingEmailsToFolder ::
    "session \<Rightarrow> interrupter \<Rightarrow> fsys \<times> threadSafeCounter \<Rightarrow> (fsys \<times> threadSafeCounter) \<times> unit res \<Rightarrow> bool" where
  "ig_downloadMissingEmailsToFolder s i st r \<longleftrightarrow>
     (case interrupted i of
        (i1, False) \<Rightarrow> downloadMissingEmailsToFolder s i1 st r
      | (i1, True) \<Rightarrow> r = (st, Err ''not downloading due to previous interrupt''))"

inductive_cases download_OkE: "downloadMissingEmailsToFolder s i (fs, dc) (st, Ok u)"

text \<open>A thread that was interrupted leaves the disk alone, a success is one of the function itself.\<close>

lemma ig_download_interrupted:
  "snd (interrupted i) \<Longrightarrow> ig_downloadMissingEmailsToFolder s i st (st', r) \<Longrightarrow> st' = st \<and> (\<exists>e. r = Err e)"
  by (auto simp: ig_downloadMissingEmailsToFolder_def split: prod.splits bool.splits)

lemma ig_download_Ok:
  "ig_downloadMissingEmailsToFolder s i st (st', Ok u) \<Longrightarrow>
    downloadMissingEmailsToFolder s (fst (interrupted i)) st (st', Ok u)"
  by (auto simp: ig_downloadMissingEmailsToFolder_def split: prod.splits bool.splits)

section \<open>Preparation\<close>

lemma prepareDownload_Ok:
  assumes "prepareDownload s i fs = (fs1, i1, Ok (oldmailPath, uidFold, missing))"
  obtains oldmails mbox uids where
    "initMaildir (s_oldmailName s) (s_path s) fs = (fs1, Ok (oldmails, oldmailPath))"
    "Select (s_ops s) (mfolder (s_path s)) True = Ok mbox" "interrupted i = (i1, False)"
    "s_listed s mbox = (uids, None)" "uidFold = ucast (UidValidity mbox)"
    "determineMissingUIDs oldmails uids = Ok missing"
  using assms
  by (auto simp: prepareDownload_def selectFolder_def folderName_def
      split: prod.splits res.splits bool.splits option.splits)

text \<open>The oldmail file of a folder lies outside the maildir.\<close>

definition goodNames :: "session \<Rightarrow> bool" where
  "goodNames s \<longleftrightarrow> inside (mfolder (s_path s)) \<and> plain (replaceAll (s_oldmailName s) (CHR ''/'') ''.'')"

lemma init_mailStore:
  assumes n: "goodNames s" and i: "initMaildir (s_oldmailName s) (s_path s) fs = (fs1, Ok (oms, path))"
  shows "mailStore (folderPath (s_path s)) path \<lparr>w_fs = fs1, w_dc = dc, w_out = wo\<rparr>"
    and "path_key path = path_key (base (s_path s)) @ [replaceAll (s_oldmailName s) (CHR ''/'') ''.'']"
proof -
  let ?p = "s_path s" and ?om = "replaceAll (s_oldmailName s) (CHR ''/'') ''.''"
  note r = initMaildir_result [OF i]
  show k: "path_key path = path_key (base ?p) @ [?om]"
    using oldmailKey_plain [of ?om ?p] n by (simp add: r(2) oldmailKey_def goodNames_def)
  have "path_key (folderPath ?p) = path_key (base ?p) @ splitSlash (mfolder ?p)"
    using n by (intro path_key_folder) (simp add: goodNames_def)
  then have "path_key path \<noteq> tmpKey (folderPath ?p) f \<and> path_key path \<noteq> newKey (folderPath ?p) f" for f
    unfolding k tmpKey_def newKey_def by auto
  moreover have "isFile fs1 path = Ok True" using r(3) by (simp add: readOldmail_Ok)
  ultimately show "mailStore (folderPath ?p) path \<lparr>w_fs = fs1, w_dc = dc, w_out = wo\<rparr>"
    using isFile_content(1) [of fs1 path] by (auto simp: mailStore_def)
qed

lemma open_existing:
  assumes "isFile fs path = Ok True" and "writeout_open path fs = (fs2, Ok u)"
  shows "fs2 = fs"
  using assms isFile_content [OF assms(1)]
  by (auto simp: writeout_open_def openFileAppend_def os_Create_def look_def split: option.splits)

text \<open>Reading the oldmail file depends on that file only.\<close>

lemma readOldmail_cong:
  assumes "isFile fs path = Ok True" "nodes fs' (path_key path) = nodes fs (path_key path)"
    "faults fs' = faults fs"
  shows "readOldmail fs' path = readOldmail fs path"
proof -
  note k = isFile_content [OF assms(1)]
  then have l: "look fs' (path_key path) = look fs (path_key path)"
    using assms(2) by (simp add: look_def)
  have "isFile fs' path = isFile fs path"
    using k assms(2,3) by (simp add: isFile_def os_Stat_def look_def)
  then show ?thesis
    unfolding readOldmail_def os_ReadAll_def handle_Close_def l assms(3) by simp
qed

lemma readOldmail_extended:
  assumes r: "readOldmail fs path = Ok xs" "complete (content fs (path_key path))"
    and e: "nodes fs' (path_key path) = Some (File (content fs (path_key path) @ concat (map oldmailLine oms)))"
    and f: "faults fs' = faults fs"
  shows "readOldmail fs' path = Ok (xs @ oms)"
proof -
  let ?k = "path_key path" and ?fs = "put_node (path_key path) (nodes fs' (path_key path)) fs"
  have a: "readOldmail ?fs path = Ok (xs @ oms)"
    by (rule read_after_write [OF r]) (simp_all add: e same_except_put)
  then have "isFile ?fs path = Ok True" by (simp add: readOldmail_Ok)
  from readOldmail_cong [OF this] a f show ?thesis by simp
qed

text \<open>A maildir stays one while files are added.\<close>

lemma isDir_kept:
  assumes "isDir fs p = Ok True" "look fs' (path_key p) = Some Dir" "faults fs' = faults fs"
  shows "isDir fs' p = Ok True"
proof -
  have "faults fs OpStat (path_key p) 0 = None"
    using assms(1) by (auto simp: isDir_def os_Stat_def split: stat.splits option.splits)
  with assms(2,3) show ?thesis by (intro isDir_True) simp_all
qed

lemma isMaildir_kept:
  assumes "isMaildir fs p = Ok True" "faults fs' = faults fs"
    and "\<And>k. look fs k = Some Dir \<Longrightarrow> look fs' k = Some Dir"
  shows "isMaildir fs' p = Ok True"
proof -
  have "isDir fs' (joinPath [p, d]) = Ok True" if "d \<in> {newMaildir, curMaildir, tmpMaildir}" for d
  proof -
    have "isDir fs (joinPath [p, d]) = Ok True"
      using assms(1) that by (auto simp: isMaildir_def split: if_splits)
    with isDir_TrueD [OF this] assms(2,3) show ?thesis by (blast intro: isDir_kept)
  qed
  then show ?thesis by (simp add: isMaildir_def)
qed

lemma init_again:
  assumes i: "initMaildir om p fs = (fs1, Ok (oldmails, path))"
    and d: "isDir fs2 (folderPath p) = Ok True" "isMaildir fs2 (folderPath p) = Ok True"
    and r: "readOldmail fs2 path = Ok oms"
  shows "initMaildir om p fs2 = (fs2, Ok (oms, path))"
  using d r initMaildir_result(2) [OF i] by (simp add: initMaildir_def initExistingMaildir_def)

lemma initMaildir_dir:
  assumes "initMaildir om p fs = (fs1, Ok r)"
  shows "isDir fs1 (folderPath p) = Ok True"
  using initMaildir_again [OF assms]
proof (cases rule: initMaildir_cases)
  case created
  have "path_key (folderPath p) \<in> maildirKeys p" by (simp add: maildirKeys_def)
  then have "look fs1 (path_key (folderPath p)) = Some Dir"
    using createMaildir_Ok [OF created(2)] by metis
  with isDir_Ok_False [OF created(1)] show ?thesis by (intro isDir_True)
qed

section \<open>A successful download\<close>

text \<open>The oldmail file that the function starts from ends with a complete line.\<close>

definition completeOldmail :: "session \<Rightarrow> fsys \<Rightarrow> bool" where
  "completeOldmail s fs \<longleftrightarrow>
     (case initMaildir (s_oldmailName s) (s_path s) fs of
        (fs1, Ok (oldmails, path)) \<Rightarrow> complete (content fs1 (path_key path))
      | _ \<Rightarrow> True)"

text \<open>The entry \<open>om\<close> and the file of the message \<open>m\<close> are there.\<close>

definition backedUp :: "session \<Rightarrow> uidFolder \<Rightarrow> fsys \<Rightarrow> field list \<Rightarrow> oldmail \<Rightarrow> bool" where
  "backedUp s v fs m om \<longleftrightarrow> stored v (folderPath (s_path s)) fs m om"

lemma download_Ok:
  assumes n: "goodNames s" and c: "completeOldmail s fs"
    and d: "downloadMissingEmailsToFolder s i (fs, dc) ((fs', dc'), Ok u)"
  obtains fs1 oldmails path mbox uids missing oms where
    "initMaildir (s_oldmailName s) (s_path s) fs = (fs1, Ok (oldmails, path))"
    "Select (s_ops s) (mfolder (s_path s)) True = Ok mbox" "s_listed s mbox = (uids, None)"
    "determineMissingUIDs oldmails uids = Ok missing"
    "\<forall>u \<in> set missing. 0 < sint u \<and> sint u \<le> maxInt32"
    "if missing = [] then oms = []
     else list_all2 (backedUp s (ucast (UidValidity mbox)) fs')
            (somes (fst (UidFetch (s_ops s) (map ucast missing)))) oms"
    "readOldmail fs' path = Ok (oldmails @ oms)" "faults fs' = faults fs1"
    "\<And>k n. k \<noteq> path_key path \<Longrightarrow> look fs1 k = Some n \<Longrightarrow> look fs' k = Some n"
proof -
  from d consider (quiet) i1 path v where "prepareDownload s i fs = (fs', i1, Ok (path, v, []))"
    | (ran) fs1 i1 path v missing ns fs2 q st e k m where
      "prepareDownload s i fs = (fs1, i1, Ok (path, v, missing))" "missing \<noteq> []"
      "retrievalRequest missing = Ok ns" "writeout_open path fs1 = (fs2, Ok q)"
      "(pstep (downloadStages s path v ns))\<^sup>*\<^sup>* (downloadStart s ns i1 fs2 dc) st"
      "mainPc st = MReturn e k m" "downloadResult e k m = Ok u" "fs' = w_fs (store st)"
    by (elim download_OkE; simp; blast)
  then show thesis
  proof cases
  case quiet
  obtain oldmails mbox uids where
    p: "initMaildir (s_oldmailName s) (s_path s) fs = (fs', Ok (oldmails, path))"
    "Select (s_ops s) (mfolder (s_path s)) True = Ok mbox" "s_listed s mbox = (uids, None)"
    "determineMissingUIDs oldmails uids = Ok []"
    by (rule prepareDownload_Ok [OF quiet])
  show thesis
    by (rule that [OF p, of "[]"]) (use initMaildir_result(3) [OF p(1)] in simp_all)
next
  case ran
  obtain oldmails mbox uids where
    p: "initMaildir (s_oldmailName s) (s_path s) fs = (fs1, Ok (oldmails, path))"
    "Select (s_ops s) (mfolder (s_path s)) True = Ok mbox" "s_listed s mbox = (uids, None)"
    "determineMissingUIDs oldmails uids = Ok missing" and v: "v = ucast (UidValidity mbox)"
    by (rule prepareDownload_Ok [OF ran(1)])
  let ?w = "\<lparr>w_fs = fs1, w_dc = dc, w_out = writeout_init\<rparr>"
  note rd = initMaildir_result(3) [OF p(1)]
  have "fs2 = fs1" using rd ran(4) by (intro open_existing) (auto simp: readOldmail_Ok)
  moreover have z: "e = 0 \<and> k = 0 \<and> m = 0" using ran by (auto simp: downloadResult_def split: if_splits)
  ultimately have r: "(pstep (mailStages (s_env s) v (folderPath (s_path s)) path
        (snd (UidFetch (s_ops s) ns)) True))\<^sup>*\<^sup>* (setUp (fst (UidFetch (s_ops s) ns)) i1 ?w) st"
      "mainPc st = MReturn 0 0 0"
    using ran by (simp_all add: downloadStages_def downloadStart_def)
  have q: "\<forall>u \<in> set missing. 0 < sint u \<and> sint u \<le> maxInt32" "ns = map ucast missing"
    using ran(3) by (simp_all add: retrievalRequest_Ok_iff)
  have fs': "w_fs (store st) = fs'" using ran by simp
  have "\<exists>oms. list_all2 (stored v (folderPath (s_path s)) fs') (somes (fst (UidFetch (s_ops s) ns))) oms \<and>
    content fs' (path_key path) = content fs1 (path_key path) @ concat (map oldmailLine oms) \<and>
    nodes fs' (path_key path) = Some (File (content fs' (path_key path))) \<and> faults fs' = faults fs1 \<and>
    (\<forall>k n. k \<noteq> path_key path \<longrightarrow> look fs1 k = Some n \<longrightarrow> look fs' k = Some n)"
    by (rule errorless_run [OF init_mailStore(1) [OF n p(1)] _ r, unfolded fs']) auto
  then obtain oms where
    o: "list_all2 (stored v (folderPath (s_path s)) fs') (somes (fst (UidFetch (s_ops s) ns))) oms"
    "content fs' (path_key path) = content fs1 (path_key path) @ concat (map oldmailLine oms)"
    "nodes fs' (path_key path) = Some (File (content fs' (path_key path)))"
    "faults fs' = faults fs1"
    "\<And>k n. k \<noteq> path_key path \<Longrightarrow> look fs1 k = Some n \<Longrightarrow> look fs' k = Some n"
    by blast
  have "readOldmail fs' path = Ok (oldmails @ oms)"
    using c o(2,3,4) by (intro readOldmail_extended [OF rd]) (simp_all add: completeOldmail_def p(1))
  with that [OF p q(1)] o ran(2) q(2) v show thesis by (simp add: backedUp_def [abs_def])
qed
qed

section \<open>What a second download finds\<close>

text \<open>A server that answers every request for a UID with a message of that UID, possibly among others.\<close>

definition answersAll :: "imapOps \<Rightarrow> bool" where
  "answersAll ops \<longleftrightarrow> (\<forall>ns. \<forall>n \<in> set ns. \<exists>m \<in> set (somes (fst (UidFetch ops ns))). uints m = [n])"

lemma recorded_uids:
  assumes a: "answersAll (s_ops s)" and m: "\<forall>u \<in> set missing. ucast (ucast u :: u32) = u"
    and l: "list_all2 (backedUp s v fs) (somes (fst (UidFetch (s_ops s) (map ucast missing)))) oms"
  shows "set missing \<subseteq> om_uid ` set oms" and "\<forall>om \<in> set oms. om_uidFolder om = v"
proof -
  let ?ms = "somes (fst (UidFetch (s_ops s) (map ucast missing)))"
  have e: "om_uidFolder om = v \<and> (\<exists>n. uints m = [n] \<and> om_uid om = ucast n)" if "backedUp s v fs m om" for m om
    using that by (auto simp: backedUp_def stored_def rfc822FromEmail_iff)
  show "\<forall>om \<in> set oms. om_uidFolder om = v"
    using l e by (metis in_set_conv_nth list_all2_conv_all_nth)
  show "set missing \<subseteq> om_uid ` set oms"
  proof
    fix u assume u: "u \<in> set missing"
    then have "(ucast u :: u32) \<in> set (map ucast missing)" by simp
    with a obtain m where "m \<in> set ?ms" "uints m = [ucast u]" unfolding answersAll_def by blast
    with l obtain om where "om \<in> set oms" "backedUp s v fs m om"
      by (metis in_set_conv_nth list_all2_conv_all_nth)
    moreover from this e [of m om] \<open>uints m = [ucast u]\<close> have "om_uid om = u"
      using m u by auto
    ultimately show "u \<in> om_uid ` set oms" by force
  qed
qed

lemma valid_listed:
  assumes "validSession s" "s_listed s mbox = (uids, None)" "u \<in> set uids"
  shows "ue_folder u = ucast (UidValidity mbox)"
proof -
  have "getAllMessageUUIDs mbox (s_ops s) (uids, None)" using assms(1,2) unfolding validSession_def by metis
  with assms(3) show ?thesis by (auto simp: getAllMessageUUIDs_def messageUIDs_def split: if_splits)
qed

lemma nothing_missing:
  assumes v: "validSession s" and l: "s_listed s mbox = (uids, None)"
    and d: "determineMissingUIDs oldmails uids = Ok missing"
    and f: "\<forall>om \<in> set oms. om_uidFolder om = ucast (UidValidity mbox)"
    and m: "set missing \<subseteq> om_uid ` set oms"
  shows "determineMissingUIDs (oldmails @ oms) uids = Ok []"
proof (cases "uids = []")
  case False
  have "ue_folder (hd uids) = ucast (UidValidity mbox)"
    using valid_listed [OF v l hd_in_set [OF False]] .
  have "missing = filter (\<lambda>u. u \<notin> om_uid ` set oldmails) (map ue_msg uids)"
    using d by (auto simp: determineMissingUIDs_eq split: if_splits)
  then have "ue_msg x \<in> om_uid ` (set oldmails \<union> set oms)" if "x \<in> set uids" for x
    using m that by (cases "ue_msg x \<in> om_uid ` set oldmails") (fastforce simp: image_Un)+
  with False d f \<open>ue_folder (hd uids) = ucast (UidValidity mbox)\<close> show ?thesis
    by (auto simp: determineMissingUIDs_eq list_ex_iff filter_empty_conv split: if_splits)
qed (simp add: determineMissingUIDs_def)

section \<open>Properties\<close>

text \<open>A concrete session for the witnesses: an empty disk, and a server with one email of UID 5.\<close>

definition exampleOps :: imapOps where
  "exampleOps = \<lparr>Login = (\<lambda>u p. None), List = (\<lambda>r n. ([''a''], None)),
     Select = (\<lambda>n r. Ok \<lparr>Messages = 1, UidValidity = 1\<rparr>), Fetch = (\<lambda>a b. ([Some 5], None)),
     UidFetch = (\<lambda>ns. (map (\<lambda>n. Some [FRawString ''UID'', FUint32 n, FRawString ''INTERNALDATE'', FTime 9,
        FOther ''RFC822'' ''RFC822'', FOther ''Hi'' ''Hi'']) ns, None)),
     Logout = None, Terminate = None\<rparr>"

definition exampleSession :: session where
  "exampleSession = \<lparr>s_env = exampleEnv, s_ops = exampleOps,
     s_listed = (\<lambda>mbox. (if Messages mbox = 0 then [] else messageUIDs mbox [Some 5], None)),
     s_path = \<lparr>base = ''bak'', mfolder = ''a''\<rparr>, s_oldmailName = ''oldmail-s-1-u-a''\<rparr>"

lemma exampleSession_ok:
  "goodNames exampleSession" "validSession exampleSession" "answersAll exampleOps"
  "s_ops exampleSession = exampleOps"
proof -
  show "goodNames exampleSession"
    by (simp add: goodNames_def exampleSession_def inside_def plain_def proper_def)
  have "0 < messageListBuffer" by (simp add: messageListBuffer_def)
  then have "collects messageListBuffer ([Some 5], None) ([Some 5], None)"
    by (simp add: collects_iff)
  then show "validSession exampleSession"
    by (auto simp: validSession_def exampleSession_def exampleOps_def getAllMessageUUIDs_def)
  have s: "set (somes (map (\<lambda>x. Some (h x)) ys)) = h ` set ys" for h :: "u32 \<Rightarrow> field list" and ys
    by auto
  show "answersAll exampleOps" by (auto simp: answersAll_def exampleOps_def s)
qed (simp add: exampleSession_def)

text \<open>What the download leaves: the email was delivered and its entry written.\<close>

definition exampleMessage :: "field list" where
  "exampleMessage = [FRawString ''UID'', FUint32 5, FRawString ''INTERNALDATE'', FTime 9,
     FOther ''RFC822'' ''RFC822'', FOther ''Hi'' ''Hi'']"

definition examplePrepared :: fsys where
  "examplePrepared = fst (initMaildir ''oldmail-s-1-u-a'' \<lparr>base = ''bak'', mfolder = ''a''\<rparr> emptyFs)"

definition exampleDelivered :: world where
  "exampleDelivered = fst (deliverBody exampleEnv 1 ''bak/a'' exampleMessage
     \<lparr>w_fs = examplePrepared, w_dc = \<lparr>count = 0\<rparr>, w_out = writeout_init\<rparr>)"

definition exampleStored :: fsys where
  "exampleStored = w_fs (rememberBody ''bak/oldmail-s-1-u-a''
     \<lparr>om_uidFolder = 1, om_uid = 5, om_timestamp = 9\<rparr> exampleDelivered)"

lemma exampleDownload:
  "\<exists>dc. downloadMissingEmailsToFolder exampleSession (newInterruptOps [''interrupt''])
     (emptyFs, \<lparr>count = 0\<rparr>) ((exampleStored, dc), Ok ())"
  and exampleComplete: "completeOldmail exampleSession emptyFs"
proof -
  let ?i = "newInterruptOps [''interrupt'']" and ?path = "''bak/oldmail-s-1-u-a''"
  let ?p = "prepareDownload exampleSession ?i emptyFs"
  have "snd ?p = (?i, Ok (?path, 1, [5]))" by code_simp
  moreover obtain fs1 i1 x where p': "?p = (fs1, i1, x)" by (metis prod_cases3)
  ultimately have p: "?p = (fs1, ?i, Ok (?path, 1, [5]))" by simp
  obtain oldmails where i: "initMaildir (s_oldmailName exampleSession) (s_path exampleSession) emptyFs = (fs1, Ok (oldmails, ?path))"
    by (rule prepareDownload_Ok [OF p])
  then have fs1: "fs1 = examplePrepared" by (simp add: examplePrepared_def exampleSession_def)
  have r: "retrievalRequest [5] = Ok [5]" by code_simp
  obtain fs2 q where o': "writeout_open ?path fs1 = (fs2, q)" by fastforce
  have "snd (writeout_open ?path examplePrepared) = Ok ()" by code_simp
  with o' fs1 have "q = Ok ()" by simp
  with o' have o: "writeout_open ?path fs1 = (fs2, Ok ())" by simp
  have fs2: "fs2 = examplePrepared"
    using initMaildir_result(3) [OF i] o fs1 open_existing [of fs1 ?path fs2 "()"] by (simp add: readOldmail_Ok)
  let ?cfg = "downloadStages exampleSession ?path 1 [5]"
  let ?w = "\<lparr>w_fs = examplePrepared, w_dc = \<lparr>count = 0\<rparr>, w_out = writeout_init\<rparr>"
  let ?om = "\<lparr>om_uidFolder = 1, om_uid = 5, om_timestamp = 9\<rparr>"
  have "folderPath (s_path exampleSession) = ''bak/a''" by code_simp
  then have cfg: "deliver ?cfg = deliverBody exampleEnv 1 ''bak/a''" "remember ?cfg = rememberBody ?path"
    by (simp_all add: downloadStages_def mailStages_def) (simp add: exampleSession_def)
  have "snd (deliverBody exampleEnv 1 ''bak/a'' exampleMessage ?w) = Ok ?om" by code_simp
  then have d: "deliver ?cfg exampleMessage ?w = (exampleDelivered, Ok ?om)"
    by (simp add: cfg exampleDelivered_def prod_eq_iff)
  have "rememberErrs ?cfg (finish ?cfg (remember ?cfg ?om exampleDelivered)) = 0" by code_simp
  note e = this
  have f: "fetch_closes ?cfg" "fetch_err ?cfg = None"
    by (simp_all add: downloadStages_def mailStages_def exampleSession_def exampleOps_def)
  have c: "channel ?i = Some []" by (simp add: newInterruptOps_def register_def)
  have st: "downloadStart exampleSession [5] ?i examplePrepared \<lparr>count = 0\<rparr> = setUp [Some exampleMessage] ?i ?w"
    by (simp add: downloadStart_def exampleSession_def exampleOps_def exampleMessage_def)
  obtain st where s: "(pstep ?cfg)\<^sup>*\<^sup>* (setUp [Some exampleMessage] ?i ?w) st" "mainPc st = MReturn 0 0 0"
    "store st = finish ?cfg (remember ?cfg ?om exampleDelivered)"
    using one_message_run [OF c f d refl] unfolding e by blast
  have "downloadMissingEmailsToFolder exampleSession ?i (emptyFs, \<lparr>count = 0\<rparr>)
      ((w_fs (store st), w_dc (store st)), downloadResult 0 0 0)"
    by (rule downloadMissingEmailsToFolder.ran [OF p _ r o _ s(2)]) (use s(1) st fs2 in simp_all)
  moreover have "w_fs (store st) = exampleStored"
    using s(3) cfg(2) by (simp add: exampleStored_def downloadStages_def)
  ultimately show "\<exists>dc. downloadMissingEmailsToFolder exampleSession ?i (emptyFs, \<lparr>count = 0\<rparr>) ((exampleStored, dc), Ok ())"
    by (auto simp: downloadResult_def)
  show "completeOldmail exampleSession emptyFs" by code_simp
qed



text \<open>
  Downloading again downloads nothing. After a download that reported no error from a server that
  answers every requested UID, a second download of the same folder with the same list of messages
  on the server can only return immediately without an error, and changes nothing on disk.
\<close>

theorem second_run_downloads_nothing:
  assumes "goodNames s" and "completeOldmail s fs" and "validSession s" and "answersAll (s_ops s)"
    and "downloadMissingEmailsToFolder s i (fs, dc) ((fs', dc'), Ok u)" and "channel j = Some []"
  shows "downloadMissingEmailsToFolder s j (fs', dc') r \<longleftrightarrow> r = ((fs', dc'), Ok ())"
proof (rule download_Ok [OF assms(1,2,5)])
  fix fs1 oldmails path mbox uids missing oms
  assume i: "initMaildir (s_oldmailName s) (s_path s) fs = (fs1, Ok (oldmails, path))"
    and sel: "Select (s_ops s) (mfolder (s_path s)) True = Ok mbox" and l: "s_listed s mbox = (uids, None)"
    and d: "determineMissingUIDs oldmails uids = Ok missing"
    and pos: "\<forall>u \<in> set missing. 0 < sint u \<and> sint u \<le> maxInt32"
    and oms: "if missing = [] then oms = []
     else list_all2 (backedUp s (ucast (UidValidity mbox)) fs')
            (somes (fst (UidFetch (s_ops s) (map ucast missing)))) oms"
    and r': "readOldmail fs' path = Ok (oldmails @ oms)" and ft: "faults fs' = faults fs1"
    and keep: "\<And>k n. k \<noteq> path_key path \<Longrightarrow> look fs1 k = Some n \<Longrightarrow> look fs' k = Some n"
  have f: "\<forall>om \<in> set oms. om_uidFolder om = ucast (UidValidity mbox)" "set missing \<subseteq> om_uid ` set oms"
    using oms recorded_uids [OF assms(4), of missing] pos ucast_roundtrip by (auto split: if_splits)
  have n: "determineMissingUIDs (oldmails @ oms) uids = Ok []"
    by (rule nothing_missing [OF assms(3) l d f])
  obtain c where c: "nodes fs1 (path_key path) = Some (File c)" "path_key path \<noteq> []" "path_key path \<noteq> [[]]"
    using initMaildir_result(3) [OF i] isFile_content [of fs1 path] by (auto simp: readOldmail_Ok)
  then have dirs: "look fs' k = Some Dir" if "look fs1 k = Some Dir" for k
    using keep that by (cases "k = path_key path") (auto simp: look_def)
  have "initMaildir (s_oldmailName s) (s_path s) fs' = (fs', Ok (oldmails @ oms, path))"
    using isDir_kept [OF initMaildir_dir [OF i]] dirs isDir_TrueD [OF initMaildir_dir [OF i]] ft
      isMaildir_kept [OF initMaildir_result(1) [OF i] ft dirs] r' by (intro init_again [OF i]) auto
  then have p: "prepareDownload s j fs' = (fs', j, Ok (path, ucast (UidValidity mbox), []))"
    using sel l n assms(6) by (simp add: prepareDownload_def selectFolder_def folderName_def interrupted_def)
  show ?thesis
  proof
    show "downloadMissingEmailsToFolder s j (fs', dc') r \<Longrightarrow> r = ((fs', dc'), Ok ())"
      by (cases rule: downloadMissingEmailsToFolder.cases) (auto simp: p)
  qed (auto intro: downloadMissingEmailsToFolder.nothing [OF p])
qed

lemma second_run_downloads_nothing_witness:
  "\<exists>fs dc. \<forall>r. downloadMissingEmailsToFolder exampleSession (newInterruptOps [''interrupt'']) (fs, dc) r \<longleftrightarrow>
     r = ((fs, dc), Ok ())"
proof -
  obtain fs dc where d: "downloadMissingEmailsToFolder exampleSession (newInterruptOps [''interrupt''])
      (emptyFs, \<lparr>count = 0\<rparr>) ((fs, dc), Ok ())" using exampleDownload(1) by blast
  have "channel (newInterruptOps [''interrupt'']) = Some []" by (simp add: newInterruptOps_def register_def)
  from second_run_downloads_nothing [OF exampleSession_ok(1) exampleComplete exampleSession_ok(2) _ d this]
  show ?thesis using exampleSession_ok(3,4) by metis
qed

lemma pipeline_returns:
  assumes "goodNames s" and pr: "prepareDownload s i fs = (fs1, i1, Ok (path, v, missing))"
    and m: "missing \<noteq> []" and r: "retrievalRequest missing = Ok ns"
  shows "\<exists>r. downloadMissingEmailsToFolder s i (fs, dc) r"
proof -
  obtain fs2 o1 where o: "writeout_open path fs1 = (fs2, o1)" by fastforce
  show ?thesis
  proof (cases o1)
    case ok: (Ok u)
    obtain oldmails where i: "initMaildir (s_oldmailName s) (s_path s) fs = (fs1, Ok (oldmails, path))"
      by (rule prepareDownload_Ok [OF pr])
    have "fs2 = fs1"
      using initMaildir_result(3) [OF i] o ok by (intro open_existing) (auto simp: readOldmail_Ok)
    with init_mailStore(1) [OF assms(1) i] have
      g: "mailStore (folderPath (s_path s)) path \<lparr>w_fs = fs2, w_dc = dc, w_out = writeout_init\<rparr>" by simp
    have "\<exists>st e d n. (pstep (downloadStages s path v ns))\<^sup>*\<^sup>* (downloadStart s ns i1 fs2 dc) st \<and>
        mainPc st = MReturn e d n"
      unfolding downloadStages_def downloadStart_def
      by (rule mail.can_return [OF _ g rtranclp.rtrancl_refl]) (simp add: mailStages_def)
    with downloadMissingEmailsToFolder.ran [OF pr m r o [unfolded ok]] show ?thesis by blast
  next
    case (Err e)
    with downloadMissingEmailsToFolder.open_failed [OF pr m r] o show ?thesis by blast
  next
    case (Panic e)
    with o show ?thesis
      using os_Create_no_panic [of "path_key path" fs1 e]
      by (simp add: writeout_open_def openFileAppend_def)
  qed
qed

text \<open>
  C23: The download of a folder always can return: whatever the server answers, whatever the file system
  refuses and whenever it is interrupted, there is a result (if the library closes its channels).
\<close>

theorem download_returns:
  assumes "goodNames s"
  shows "\<exists>r. downloadMissingEmailsToFolder s i (fs, dc) r"
proof (cases "prepareDownload s i fs")
  case (fields fs1 i1 p)
  show ?thesis
  proof (cases p)
    case (Ok q)
    obtain path v missing where q: "q = (path, v, missing)" by (metis prod_cases3)
    note pr = fields [unfolded Ok q]
    show ?thesis
    proof (cases "missing = []")
      case True
      with pr show ?thesis by (metis downloadMissingEmailsToFolder.nothing)
    next
      case False
      show ?thesis
      proof (cases "retrievalRequest missing")
        case r: (Ok ns)
        show ?thesis by (rule pipeline_returns [OF assms pr False r])
      next
        case (Err e)
        with downloadMissingEmailsToFolder.request_failed [OF pr False] show ?thesis by blast
      next
        case (Panic e)
        with downloadMissingEmailsToFolder.request_panicked [OF pr False] show ?thesis by blast
      qed
    qed
  next
    case (Err e)
    with fields show ?thesis by (metis downloadMissingEmailsToFolder.failed)
  next
    case (Panic e)
    with fields show ?thesis by (metis downloadMissingEmailsToFolder.panicked)
  qed
qed

lemma download_returns_witness:
  "\<exists>r. downloadMissingEmailsToFolder exampleSession (newInterruptOps []) (emptyFs, \<lparr>count = 3\<rparr>) r"
  by (rule download_returns [OF exampleSession_ok(1)])

end
