(* ===== verification/Core.thy ===== *)
theory Core
  imports Folder Threading Interrupt ImapClient
begin

text \<open>
  The entry points of the library, \<open>core/core.go\<close>: connections with their interrupt handler
  (\<open>Imapgrabber\<close>), \<open>TryConnect\<close>, \<open>GetAllFolders\<close>, the distribution of folders over threads, the
  threads of \<open>DownloadFolder\<close> as a step relation, and \<open>ServeMaildir\<close>.
\<close>

section \<open>Connections\<close>

definition signalsToWaitFor :: "string list" where
  "signalsToWaitFor = [''interrupt'']"

text \<open>\<open>Imapgrabber\<close>: both fields are nil before \<open>authenticateClient\<close> was called.\<close>

record imapgrabber =
  ig_imapOps :: "imapOps option"
  ig_interruptOps :: "interrupter option"

definition newImapgrabOps :: imapgrabber where
  "newImapgrabOps = \<lparr>ig_imapOps = None, ig_interruptOps = None\<rparr>"

text \<open>The argument is the result of the call of the function \<open>authenticateClient\<close>.\<close>

definition ig_authenticateClient :: "imapOps res \<Rightarrow> imapgrabber \<times> unit res" where
  "ig_authenticateClient r =
     (case r of
        Ok c \<Rightarrow> (\<lparr>ig_imapOps = Some c, ig_interruptOps = Some (newInterruptOps signalsToWaitFor)\<rparr>, Ok ())
      | Err e \<Rightarrow> (\<lparr>ig_imapOps = None, ig_interruptOps = Some (newInterruptOps signalsToWaitFor)\<rparr>, Err e)
      | Panic p \<Rightarrow> (newImapgrabOps, Panic p))"

text \<open>The deferred \<open>deregister\<close> runs also when the call on the nil client panics.\<close>

definition ig_logout :: "bool \<Rightarrow> imapgrabber \<Rightarrow> imapgrabber \<times> gerr option res" where
  "ig_logout doTerminate ig =
     (case ig_interruptOps ig of
        None \<Rightarrow> (ig, Panic nilDeref)
      | Some i \<Rightarrow>
          (ig\<lparr>ig_interruptOps := Some (deregister i)\<rparr>,
           case ig_imapOps ig of
             None \<Rightarrow> Panic nilDeref
           | Some c \<Rightarrow> Ok (if doTerminate then Terminate c else Logout c)))"

text \<open>\<open>errors.Join\<close>.\<close>

definition errors_Join :: "gerr option list \<Rightarrow> gerr option" where
  "errors_Join es = (if somes es = [] then None else Some (joinWith [nl] (somes es)))"

definition tryConnect :: "imapOps res \<Rightarrow> gerr option res" where
  "tryConnect r =
     (case ig_authenticateClient r of
        (ig, Ok _) \<Rightarrow>
          (case ig_logout False ig of
             (_, Ok logoutErr) \<Rightarrow> Ok (errors_Join [None, logoutErr])
           | (_, Err e) \<Rightarrow> Err e
           | (_, Panic p) \<Rightarrow> Panic p)
      | (ig, Err loginErr) \<Rightarrow> Ok (errors_Join [Some loginErr, None])
      | (ig, Panic p) \<Rightarrow> Panic p)"

text \<open>\<open>listed\<close> is one of the results \<open>getFolderList\<close> can have on the connection.\<close>

definition getAllFolders ::
    "imapOps res \<Rightarrow> (imapOps \<Rightarrow> string list \<times> gerr option) \<Rightarrow> (string list \<times> gerr option) res" where
  "getAllFolders r listed =
     (case ig_authenticateClient r of
        (ig, Ok _) \<Rightarrow>
          (case ig_imapOps ig of
             None \<Rightarrow> Panic nilDeref
           | Some c \<Rightarrow>
               (case listed c of (folders, err) \<Rightarrow>
                  (case ig_logout False ig of
                     (_, Ok logoutErr) \<Rightarrow>
                       Ok (folders, if logoutErr \<noteq> None \<and> err = None then logoutErr else err)
                   | (_, Err e) \<Rightarrow> Err e
                   | (_, Panic p) \<Rightarrow> Panic p)))
      | (ig, Err e) \<Rightarrow> Ok ([], Some e)
      | (ig, Panic p) \<Rightarrow> Panic p)"

section \<open>Distributing folders over threads\<close>

fun distribute :: "nat \<Rightarrow> nat \<Rightarrow> string list \<Rightarrow> string list list \<Rightarrow> string list list" where
  "distribute numPartitions idx [] partitions = partitions"
| "distribute numPartitions idx (folder # folders) partitions =
     (let partIdx = idx mod numPartitions in
      distribute numPartitions (Suc idx) folders
        (partitions[partIdx := partitions ! partIdx @ [folder]]))"

definition partitionFolders :: "string list \<Rightarrow> goint \<Rightarrow> string list list" where
  "partitionFolders folders numPartitions =
     (let n = (if sint numPartitions > int (length folders) \<or> sint numPartitions \<le> 0
               then length folders else nat (sint numPartitions))
      in distribute n 0 folders (replicate n []))"

section \<open>\<open>DownloadFolder\<close>\<close>

text \<open>
  What the goroutines learn from the outside: the connection of each thread, what \<open>getFolderList\<close>
  and \<open>downloadMissingEmailsToFolder\<close> report.
\<close>

record surroundings =
  connection :: "nat \<Rightarrow> imapOps res"
  available :: "string list \<times> gerr option"
  downloadErr :: "nat \<Rightarrow> string \<Rightarrow> gerr option"

text \<open>The main goroutine: before the next partition, before the decision to start a thread, after the loop.\<close>

datatype loop_pc = LNext | LDecide | LDone

text \<open>A thread: with the folders still to do, or after \<open>wg.Done\<close>.\<close>

datatype worker = Working "string list" | Ended

text \<open>
  \<open>d_log\<close> and \<open>d_logouts\<close> record the downloads and the calls of \<open>logout\<close> with the thread they belong
  to; \<open>d_result\<close> is what the function has returned.
\<close>

record downloads =
  d_errs :: threadSafeErrors
  d_intr :: interrupter
  d_next :: nat
  d_loop :: loop_pc
  d_workers :: "worker list"
  d_log :: "(nat \<times> string) list"
  d_logouts :: "nat list"
  d_result :: "gerr option res option"

definition stopMessage :: gerr where
  "stopMessage = ''stopping download threads due to user interrupt or error''"

definition logoutOf :: "surroundings \<Rightarrow> nat \<Rightarrow> bool \<Rightarrow> gerr option res" where
  "logoutOf env k doTerminate = snd (ig_logout doTerminate (fst (ig_authenticateClient (connection env k))))"

definition addErr :: "gerr option \<Rightarrow> downloads \<Rightarrow> downloads" where
  "addErr e st = st\<lparr>d_errs := errs_add e (d_errs st)\<rparr>"

text \<open>
  \<open>errs.add(ops.logout(errs.bad()))\<close> for the connection of thread \<open>k\<close>, then \<open>f\<close>; a panic ends the
  program.
\<close>

definition logoutThen :: "surroundings \<Rightarrow> nat \<Rightarrow> (downloads \<Rightarrow> downloads) \<Rightarrow> downloads \<Rightarrow> downloads" where
  "logoutThen env k f st =
     (case logoutOf env k (errs_bad (d_errs st)) of
        Ok e \<Rightarrow> f (addErr e (st\<lparr>d_logouts := d_logouts st @ [k]\<rparr>))
      | Err e \<Rightarrow> st\<lparr>d_result := Some (Err e)\<rparr>
      | Panic p \<Rightarrow> st\<lparr>d_result := Some (Panic p)\<rparr>)"

text \<open>The first thread uses the connection that is already there, the others make their own.\<close>

definition connectThread :: "surroundings \<Rightarrow> downloads \<Rightarrow> downloads" where
  "connectThread env st =
     (if d_next st > 0 then
        (case snd (ig_authenticateClient (connection env (d_next st))) of
           Ok _ \<Rightarrow> st\<lparr>d_loop := LDecide\<rparr>
         | Err e \<Rightarrow> addErr (Some e) (st\<lparr>d_loop := LDecide\<rparr>)
         | Panic p \<Rightarrow> st\<lparr>d_result := Some (Panic p)\<rparr>)
      else st\<lparr>d_loop := LDecide\<rparr>)"

text \<open>The state before the loop, or the immediate result if the first login fails.\<close>

definition downloadInit :: "surroundings \<Rightarrow> downloads" where
  "downloadInit env =
     (let st = \<lparr>d_errs = \<lparr>errs = [], verbose = True\<rparr>, d_intr = newInterruptOps signalsToWaitFor,
                d_next = 0, d_loop = LNext, d_workers = [], d_log = [], d_logouts = [], d_result = None\<rparr> in
      case snd (ig_authenticateClient (connection env 0)) of
        Ok _ \<Rightarrow> addErr (snd (available env)) st
      | Err e \<Rightarrow> (addErr (Some e) st)\<lparr>d_intr := deregister (d_intr st), d_result := Some (Ok (errs_err (d_errs (addErr (Some e) st))))\<rparr>
      | Panic p \<Rightarrow> st\<lparr>d_result := Some (Panic p)\<rparr>)"

text \<open>
  The steps, for the partitions \<open>ps\<close>. Downloading a folder, with the report of its error, is one step
  of a thread.
\<close>

inductive dstep :: "surroundings \<Rightarrow> string list list \<Rightarrow> downloads \<Rightarrow> downloads \<Rightarrow> bool" for env ps where
  signal: "d_result st = None \<Longrightarrow> dstep env ps st (st\<lparr>d_intr := notify s (d_intr st)\<rparr>)"
| connect: "d_result st = None \<Longrightarrow> d_loop st = LNext \<Longrightarrow> d_next st < length ps \<Longrightarrow>
     dstep env ps st (connectThread env st)"
| spawn: "d_result st = None \<Longrightarrow> d_loop st = LDecide \<Longrightarrow> interrupted (d_intr st) = (i, False) \<Longrightarrow>
     \<not> errs_bad (d_errs st) \<Longrightarrow>
     dstep env ps st (st\<lparr>d_intr := i, d_workers := d_workers st @ [Working (ps ! d_next st)],
       d_next := Suc (d_next st), d_loop := LNext\<rparr>)"
| stop: "d_result st = None \<Longrightarrow> d_loop st = LDecide \<Longrightarrow> interrupted (d_intr st) = (i, b) \<Longrightarrow>
     b \<or> errs_bad (d_errs st) \<Longrightarrow>
     dstep env ps st (logoutThen env (d_next st)
       (\<lambda>st. addErr (Some stopMessage) (st\<lparr>d_loop := LDone\<rparr>)) (st\<lparr>d_intr := i\<rparr>))"
| loop_end: "d_result st = None \<Longrightarrow> d_loop st = LNext \<Longrightarrow> d_next st = length ps \<Longrightarrow>
     dstep env ps st (st\<lparr>d_loop := LDone\<rparr>)"
| work: "d_result st = None \<Longrightarrow> k < length (d_workers st) \<Longrightarrow>
     d_workers st ! k = Working (folder # folders) \<Longrightarrow>
     dstep env ps st (addErr (downloadErr env k folder)
       (st\<lparr>d_workers := (d_workers st)[k := Working folders], d_log := d_log st @ [(k, folder)]\<rparr>))"
| work_end: "d_result st = None \<Longrightarrow> k < length (d_workers st) \<Longrightarrow> d_workers st ! k = Working [] \<Longrightarrow>
     dstep env ps st
       (if k > 0 then logoutThen env k (\<lambda>st. st\<lparr>d_workers := (d_workers st)[k := Ended]\<rparr>) st
        else st\<lparr>d_workers := (d_workers st)[k := Ended]\<rparr>)"
| return: "d_result st = None \<Longrightarrow> d_loop st = LDone \<Longrightarrow> \<forall>w \<in> set (d_workers st). w = Ended \<Longrightarrow>
     dstep env ps st (logoutThen env 0 (\<lambda>st. st\<lparr>d_intr := deregister (d_intr st),
       d_result := Some (Ok (errs_err (d_errs st)))\<rparr>) st)"

text \<open>The partitions of a call; \<open>iter1\<close> and \<open>iter2\<close> order the keys of the maps in \<open>expandFolders\<close>.\<close>

definition downloadPartitions where
  "downloadPartitions iter1 iter2 env folders threads =
     partitionFolders (expandFolders iter1 iter2 folders (fst (available env))) threads"

section \<open>\<open>ServeMaildir\<close>\<close>

definition errClosedNetwork :: string where
  "errClosedNetwork = ''use of closed network connection''"

text \<open>
  The goroutine that serves ends at some time with an error (the library never returns nil before
  it is closed); the main goroutine waits for a signal, closes the server, waits for the other one
  and reports.
\<close>

datatype serve_pc = SWait | SClosing | SReturned "gerr option res"

record serving =
  sv_intr :: interrupter
  sv_ended :: bool
  sv_pc :: serve_pc

definition serveInit :: serving where
  "serveInit = \<lparr>sv_intr = wait_enter (newInterruptOps signalsToWaitFor), sv_ended = False, sv_pc = SWait\<rparr>"

definition serveResult :: "gerr option \<Rightarrow> gerr option \<Rightarrow> gerr option res" where
  "serveResult serverErr closeErr =
     (case serverErr of
        None \<Rightarrow> Panic nilDeref
      | Some e \<Rightarrow> Ok (errors_Join [if contains e errClosedNetwork then None else Some e, closeErr]))"

inductive serveStep :: "gerr option \<Rightarrow> gerr option \<Rightarrow> serving \<Rightarrow> serving \<Rightarrow> bool" for serverErr closeErr where
  signal: "serveStep serverErr closeErr st (st\<lparr>sv_intr := notify s (sv_intr st)\<rparr>)"
| server_end: "serveStep serverErr closeErr st (st\<lparr>sv_ended := True\<rparr>)"
| close: "sv_pc st = SWait \<Longrightarrow> wait_leave (sv_intr st) = Some i \<Longrightarrow>
     serveStep serverErr closeErr st (st\<lparr>sv_intr := i, sv_pc := SClosing\<rparr>)"
| return: "sv_pc st = SClosing \<Longrightarrow> sv_ended st \<Longrightarrow>
     serveStep serverErr closeErr st (st\<lparr>sv_pc := SReturned (serveResult serverErr closeErr)\<rparr>)"

section \<open>Partitions\<close>

definition part :: "nat \<Rightarrow> string list \<Rightarrow> nat \<Rightarrow> string list" where
  "part n folders k = nths folders {i. i mod n = k}"

lemma part_snoc: "part n (xs @ [x]) k = part n xs k @ (if length xs mod n = k then [x] else [])"
  by (simp add: part_def nths_append)

lemma distribute_append:
  "distribute n idx (xs @ ys) ps = distribute n (idx + length xs) ys (distribute n idx xs ps)"
  by (induction xs arbitrary: idx ps) (simp_all add: Let_def)

lemma distribute_parts:
  assumes "0 < n"
  shows "distribute n 0 xs (replicate n []) = map (part n xs) [0..<n]"
proof (induction xs rule: rev_induct)
  case Nil
  then show ?case by (simp add: part_def map_replicate_const)
next
  case (snoc x xs)
  have "length xs mod n < n" using assms by simp
  then show ?case
    unfolding distribute_append snoc
    by (intro nth_equalityI) (auto simp: Let_def part_snoc nth_list_update)
qed

lemma length_part:
  assumes "k < n"
  shows "length (part n xs k) = (length xs + (n - 1 - k)) div n"
proof (induction xs rule: rev_induct)
  case Nil
  with assms show ?case by (simp add: part_def)
next
  case (snoc x xs)
  let ?m = "length xs + (n - 1 - k)"
  have "Suc ?m div n = (if length xs mod n = k then Suc (?m div n) else ?m div n)"
  proof -
    have e: "Suc ?m = length xs + (n - k)" using assms by simp
    have "n dvd Suc ?m \<longleftrightarrow> length xs mod n = k"
    proof -
      have "n dvd Suc ?m \<longleftrightarrow> (length xs + (n - k)) mod n = 0" unfolding e by (simp add: dvd_eq_mod_eq_0)
      also have "\<dots> \<longleftrightarrow> (length xs mod n + (n - k)) mod n = 0" by (simp add: mod_add_left_eq)
      also have "\<dots> \<longleftrightarrow> length xs mod n = k"
      proof -
        have lt: "length xs mod n < n" using assms by simp
        consider "length xs mod n < k" | "length xs mod n = k" | "k < length xs mod n" by linarith
        then show ?thesis
        proof cases
          case 1
          then have "length xs mod n + (n - k) < n" "0 < length xs mod n + (n - k)" using assms by linarith+
          with 1 assms show ?thesis by simp
        next
          case 3
          then obtain d where d: "0 < d" "length xs mod n = k + d" using less_imp_add_positive by metis
          have "(length xs mod n + (n - k)) mod n = (d + n) mod n" using d(2) assms by simp
          also have "\<dots> = d" using d(2) lt by simp
          finally show ?thesis using d by simp
        qed (use assms in simp)
      qed
      finally show ?thesis .
    qed
    then show ?thesis by (simp add: div_Suc dvd_eq_mod_eq_0)
  qed
  then show ?case by (simp add: part_snoc snoc)
qed

lemma partitionFolders_eq:
  "partitionFolders folders t =
     (let n = (if 0 < sint t \<and> sint t \<le> int (length folders) then nat (sint t) else length folders)
      in map (part n folders) [0..<n])"
proof (cases "folders = []")
  case False
  then show ?thesis
    using distribute_parts [of "length folders" folders] distribute_parts [of "nat (sint t)" folders]
    by (auto simp: partitionFolders_def Let_def)
qed (auto simp: partitionFolders_def Let_def)

section \<open>Properties of the distribution\<close>

text \<open>
  Folders are distributed fairly. There are as many partitions as requested, but no more than
  folders, and one per folder if the request is not positive; partition \<open>k\<close> consists of the folders
  at the positions congruent to \<open>k\<close>, in their order, so that every folder is in exactly one of them;
  no partition is empty and their sizes differ by at most one.
\<close>

theorem partitionFolders_spec:
  "let ps = partitionFolders folders t;
       n = (if 0 < sint t \<and> sint t \<le> int (length folders) then nat (sint t) else length folders) in
   length ps = n \<and>
   (\<forall>k < n. ps ! k = nths folders {i. i mod n = k} \<and> ps ! k \<noteq> [] \<and>
      length (ps ! k) \<in> {length folders div n, Suc (length folders div n)})"
proof -
  define n where "n = (if 0 < sint t \<and> sint t \<le> int (length folders) then nat (sint t) else length folders)"
  have p: "partitionFolders folders t = map (part n folders) [0..<n]"
    unfolding partitionFolders_eq Let_def n_def ..
  have le: "n \<le> length folders" by (auto simp: n_def)
  have l: "length (part n folders k) \<in> {length folders div n, Suc (length folders div n)} \<and>
      part n folders k \<noteq> []" if k: "k < n" for k
  proof -
    have n: "0 < n" using k by simp
    note len = length_part [OF k, of folders]
    have "length folders div n \<le> length (part n folders k)" unfolding len by (intro div_le_mono) simp
    moreover have "length (part n folders k) \<le> (length folders + n) div n"
      unfolding len by (intro div_le_mono) simp
    moreover have "(length folders + n) div n = Suc (length folders div n)"
      using n by (simp add: div_add_self2)
    moreover have "0 < length folders div n" using le n by (simp add: div_greater_zero_iff)
    ultimately show ?thesis by (cases "part n folders k") auto
  qed
  show ?thesis
    unfolding p Let_def n_def [symmetric] using l by (auto simp: part_def)
qed

lemma partitionFolders_spec_witness:
  "length (partitionFolders [''a'', ''b'', ''c''] 2) = 2 \<and> partitionFolders [''a'', ''b'', ''c''] 2 ! 1 = [''b'']"
proof -
  note p = partitionFolders_spec [of "[''a'', ''b'', ''c'']" 2]
  have "length (partitionFolders [''a'', ''b'', ''c''] 2) = 2" using p by (simp add: Let_def)
  moreover have "partitionFolders [''a'', ''b'', ''c''] 2 ! 1 = nths [''a'', ''b'', ''c''] {i. i mod 2 = 1}"
    using p by (simp add: Let_def)
  ultimately show ?thesis by (simp add: nths_Cons)
qed

section \<open>Invariants of the threads\<close>

lemma logoutOf_eq:
  "logoutOf env k b = (case connection env k of Ok c \<Rightarrow> Ok (if b then Terminate c else Logout c) | _ \<Rightarrow> Panic nilDeref)"
  by (simp add: logoutOf_def ig_logout_def ig_authenticateClient_def newImapgrabOps_def split: res.split)

lemma auth_simps [simp]:
  "snd (ig_authenticateClient (Ok c)) = Ok ()" "snd (ig_authenticateClient (Err e)) = Err e"
  "snd (ig_authenticateClient (Panic p)) = Panic p"
  by (simp_all add: ig_authenticateClient_def)

lemma addErr_frame [simp]:
  "d_intr (addErr e st) = d_intr st" "d_next (addErr e st) = d_next st" "d_loop (addErr e st) = d_loop st"
  "d_workers (addErr e st) = d_workers st" "d_log (addErr e st) = d_log st"
  "d_logouts (addErr e st) = d_logouts st" "d_result (addErr e st) = d_result st"
  "errs (d_errs (addErr e st)) = errs (d_errs st) @ somes [e]"
  by (cases e; simp add: addErr_def errs_add_def)+

lemma errs_bad_iff [simp]: "errs_bad t \<longleftrightarrow> errs t \<noteq> []"
  by (simp add: errs_bad_def)

lemma logoutThen_cases:
  obtains (ok) e where "logoutThen env k f st = f (addErr e (st\<lparr>d_logouts := d_logouts st @ [k]\<rparr>))"
      "logoutOf env k (errs_bad (d_errs st)) = Ok e"
    | (panic) "logoutThen env k f st = st\<lparr>d_result := Some (Panic nilDeref)\<rparr>"
  by (cases "connection env k") (auto simp: logoutThen_def logoutOf_eq)

text \<open>The folders a thread has still to do, and those it has begun.\<close>

fun todo :: "worker \<Rightarrow> string list" where
  "todo (Working fs) = fs"
| "todo Ended = []"

definition begun :: "nat \<Rightarrow> (nat \<times> string) list \<Rightarrow> string list" where
  "begun k log = map snd (filter (\<lambda>x. fst x = k) log)"

definition thread_inv :: "string list list \<Rightarrow> downloads \<Rightarrow> bool" where
  "thread_inv ps st \<longleftrightarrow>
     length (d_workers st) = d_next st \<and> d_next st \<le> length ps \<and>
     (d_loop st = LDecide \<longrightarrow> d_next st < length ps) \<and>
     (\<forall>k < d_next st. begun k (d_log st) @ todo (d_workers st ! k) = ps ! k) \<and>
     (\<forall>x \<in> set (d_log st). fst x < d_next st)"

definition report_inv :: "surroundings \<Rightarrow> string list list \<Rightarrow> downloads \<Rightarrow> bool" where
  "report_inv env ps st \<longleftrightarrow>
     (\<forall>x \<in> set (d_log st). \<forall>e. downloadErr env (fst x) (snd x) = Some e \<longrightarrow> e \<in> set (errs (d_errs st))) \<and>
     (d_loop st = LDone \<and> errs (d_errs st) = [] \<longrightarrow> d_next st = length ps) \<and>
     (\<forall>r. d_result st = Some (Ok r) \<longrightarrow>
        r = errs_err (d_errs st) \<and> d_loop st = LDone \<and> (\<forall>w \<in> set (d_workers st). w = Ended))"

definition logout_inv :: "downloads \<Rightarrow> bool" where
  "logout_inv st \<longleftrightarrow>
     (errs (d_errs st) = [] \<and> (\<forall>p. d_result st \<noteq> Some (Panic p)) \<longrightarrow>
        (\<forall>k. count_list (d_logouts st) k =
           (if k = 0 then of_bool (d_result st \<noteq> None)
            else of_bool (k < length (d_workers st) \<and> d_workers st ! k = Ended))))"

lemma begun_snoc: "begun k (log @ [(j, f)]) = begun k log @ (if j = k then [f] else [])"
  by (simp add: begun_def)

lemma thread_inv_step: "dstep env ps st st' \<Longrightarrow> thread_inv ps st \<Longrightarrow> thread_inv ps st'"
proof (induction rule: dstep.induct)
  case (connect st)
  then show ?case by (auto simp: thread_inv_def connectThread_def split: res.split)
next
  case (spawn st i)
  then show ?case by (auto simp: thread_inv_def nth_append begun_def less_Suc_eq filter_empty_conv
        dest: spec)
next
  case (stop st i b)
  then show ?case
    by (cases rule: logoutThen_cases [where env = env and k = "d_next st" and st = "st\<lparr>d_intr := i\<rparr>"
          and f = "\<lambda>st. addErr (Some stopMessage) (st\<lparr>d_loop := LDone\<rparr>)"]) (auto simp: thread_inv_def)
next
  case (work st k folder folders)
  then show ?case
    by (auto simp: thread_inv_def nth_list_update begun_snoc)
next
  case (work_end st k)
  then show ?case
    by (cases rule: logoutThen_cases [where env = env and k = k and st = st
          and f = "\<lambda>st. st\<lparr>d_workers := (d_workers st)[k := Ended]\<rparr>"])
      (auto simp: thread_inv_def nth_list_update)
next
  case (return st)
  then show ?case
    by (cases rule: logoutThen_cases [where env = env and k = 0 and st = st
          and f = "\<lambda>st. st\<lparr>d_intr := deregister (d_intr st), d_result := Some (Ok (errs_err (d_errs st)))\<rparr>"])
      (auto simp: thread_inv_def)
qed (auto simp: thread_inv_def)

lemmas logoutThen_stop = logoutThen_cases [where f = "\<lambda>st. addErr (Some stopMessage) (st\<lparr>d_loop := LDone\<rparr>)"]
lemmas logoutThen_end = logoutThen_cases [where f = "\<lambda>st. st\<lparr>d_workers := (d_workers st)[k := Ended]\<rparr>" for k]
lemmas logoutThen_return = logoutThen_cases [where f = "\<lambda>st. st\<lparr>d_intr := deregister (d_intr st),
  d_result := Some (Ok (errs_err (d_errs st)))\<rparr>"]

lemma report_inv_step:
  "dstep env ps st st' \<Longrightarrow> report_inv env ps st \<Longrightarrow> report_inv env ps st'"
proof (induction rule: dstep.induct)
  case (connect st)
  then show ?case by (auto simp: report_inv_def connectThread_def split: res.split)
next
  case (stop st i b)
  then show ?case
    by (cases rule: logoutThen_stop [where env = env and k = "d_next st" and st = "st\<lparr>d_intr := i\<rparr>"])
      (auto simp: report_inv_def)
next
  case (work_end st k)
  then show ?case
    by (cases rule: logoutThen_end [where env = env and k = k and ka = k and st = st])
      (auto simp: report_inv_def)
next
  case (return st)
  then show ?case
    by (cases rule: logoutThen_return [where env = env and k = 0 and st = st])
      (auto simp: report_inv_def)
qed (auto simp: report_inv_def)

lemma logout_inv_step:
  "dstep env ps st st' \<Longrightarrow> thread_inv ps st \<Longrightarrow> logout_inv st \<Longrightarrow> logout_inv st'"
proof (induction rule: dstep.induct)
  case (connect st)
  then show ?case by (auto simp: logout_inv_def connectThread_def split: res.split)
next
  case (stop st i b)
  then show ?case
    by (cases rule: logoutThen_stop [where env = env and k = "d_next st" and st = "st\<lparr>d_intr := i\<rparr>"])
      (auto simp: logout_inv_def)
next
  case (work_end st k)
  then show ?case
    by (cases rule: logoutThen_end [where env = env and k = k and ka = k and st = st])
      (auto simp: logout_inv_def nth_list_update)
next
  case (return st)
  then show ?case
    by (cases rule: logoutThen_return [where env = env and k = 0 and st = st])
      (auto simp: logout_inv_def)
next
  case (spawn st i)
  then show ?case by (auto simp: logout_inv_def nth_append less_Suc_eq thread_inv_def)
next
  case (work st k folder folders)
  then show ?case by (auto simp: logout_inv_def nth_list_update)
qed (auto simp: logout_inv_def)

lemma invs_init:
  assumes "connection env 0 = Ok c"
  shows "thread_inv ps (downloadInit env)" "report_inv env ps (downloadInit env)" "logout_inv (downloadInit env)"
  using assms by (simp_all add: downloadInit_def thread_inv_def report_inv_def logout_inv_def Let_def)

lemma result_final: "dstep env ps st st' \<Longrightarrow> d_result st = None"
  by (cases rule: dstep.cases) auto

lemma result_forever: "(dstep env ps)\<^sup>*\<^sup>* st st' \<Longrightarrow> d_result st \<noteq> None \<Longrightarrow> st' = st"
  by (induction rule: converse_rtranclp_induct) (auto dest: result_final)

lemma thread_inv_reach: "(dstep env ps)\<^sup>*\<^sup>* (downloadInit env) st \<Longrightarrow> thread_inv ps st"
proof (induction rule: rtranclp_induct)
  case base
  show ?case by (simp add: downloadInit_def Let_def thread_inv_def split: res.split)
next
  case (step st st')
  then show ?case using thread_inv_step by blast
qed

lemma invs_reach:
  assumes "(dstep env ps)\<^sup>*\<^sup>* (downloadInit env) st" and c: "connection env 0 = Ok c"
  shows "thread_inv ps st \<and> report_inv env ps st \<and> logout_inv st"
  using assms(1)
proof (induction rule: rtranclp_induct)
  case base
  then show ?case using invs_init [OF c] by simp
next
  case (step st st')
  then show ?case using thread_inv_step report_inv_step logout_inv_step by blast
qed

text \<open>What was reported before stays reported.\<close>

lemma errs_grow: "dstep env ps st st' \<Longrightarrow> set (errs (d_errs st)) \<subseteq> set (errs (d_errs st'))"
proof (induction rule: dstep.induct)
  case (connect st)
  then show ?case by (auto simp: connectThread_def split: res.split)
next
  case (stop st i b)
  then show ?case
    by (cases rule: logoutThen_stop [where env = env and k = "d_next st" and st = "st\<lparr>d_intr := i\<rparr>"]) auto
next
  case (work_end st k)
  then show ?case
    by (cases rule: logoutThen_end [where env = env and k = k and ka = k and st = st]) auto
next
  case (return st)
  then show ?case
    by (cases rule: logoutThen_return [where env = env and k = 0 and st = st]) auto
qed auto

lemma errs_grow_all: "(dstep env ps)\<^sup>*\<^sup>* st st' \<Longrightarrow> set (errs (d_errs st)) \<subseteq> set (errs (d_errs st'))"
  by (induction rule: rtranclp_induct) (auto dest: errs_grow)

lemma errs_err_None: "errs_err t = None \<longleftrightarrow> errs t = []"
  by (simp add: errs_err_def)

text \<open>The downloads of all threads together.\<close>

lemma mset_begun: "\<forall>x \<in> set log. fst x < n \<Longrightarrow> mset (map snd log) = (\<Sum>k<n. mset (begun k log))"
proof (induction log)
  case Nil
  then show ?case by (simp add: begun_def)
next
  case (Cons x log)
  obtain j f where x: "x = (j, f)" by fastforce
  have "mset (begun k (x # log)) = (if k = j then {#f#} else {#}) + mset (begun k log)" for k
    by (auto simp: begun_def x)
  with Cons show ?case by (simp add: x sum.distrib sum.delta)
qed

lemma mset_part: "0 < n \<Longrightarrow> mset xs = (\<Sum>k<n. mset (part n xs k))"
proof (induction xs rule: rev_induct)
  case Nil
  then show ?case by (simp add: part_def)
next
  case (snoc x xs)
  have "mset (part n (xs @ [x]) k) = mset (part n xs k) + (if k = length xs mod n then {#x#} else {#})" for k
    by (auto simp: part_snoc)
  with snoc show ?case by (simp add: sum.distrib sum.delta)
qed

text \<open>A thread is started only on a connection that was made.\<close>

definition connected_inv :: "surroundings \<Rightarrow> downloads \<Rightarrow> bool" where
  "connected_inv env st \<longleftrightarrow> (\<forall>k < d_next st. \<exists>c. connection env k = Ok c) \<and>
     (d_loop st = LDecide \<and> errs (d_errs st) = [] \<longrightarrow> (\<exists>c. connection env (d_next st) = Ok c))"

lemma connected_inv_step:
  assumes "dstep env ps st st'" and "connection env 0 = Ok c" and "connected_inv env st"
  shows "connected_inv env st'"
  using assms
proof (induction rule: dstep.induct)
  case (connect st)
  then show ?case
    by (cases "connection env (d_next st)") (auto simp: connected_inv_def connectThread_def)
next
  case (spawn st i)
  then show ?case by (auto simp: connected_inv_def less_Suc_eq)
next
  case (stop st i b)
  then show ?case
    by (cases rule: logoutThen_stop [where env = env and k = "d_next st" and st = "st\<lparr>d_intr := i\<rparr>"])
      (auto simp: connected_inv_def)
next
  case (work_end st k)
  then show ?case
    by (cases rule: logoutThen_end [where env = env and k = k and ka = k and st = st])
      (auto simp: connected_inv_def)
next
  case (return st)
  then show ?case
    by (cases rule: logoutThen_return [where env = env and k = 0 and st = st])
      (auto simp: connected_inv_def)
qed (auto simp: connected_inv_def)

lemma connected_reach:
  assumes "(dstep env ps)\<^sup>*\<^sup>* (downloadInit env) st" and "k < d_next st"
  shows "\<exists>c. connection env k = Ok c"
proof (cases "connection env 0")
  case (Ok c)
  have "connected_inv env st" using assms(1)
  proof (induction rule: rtranclp_induct)
    case base
    show ?case by (simp add: connected_inv_def downloadInit_def Ok Let_def)
  next
    case (step st st')
    then show ?case using connected_inv_step [OF step(2) Ok] by blast
  qed
  with assms(2) show ?thesis by (simp add: connected_inv_def)
qed (use result_forever [OF assms(1)] assms(2) in \<open>auto simp: downloadInit_def Let_def\<close>)

text \<open>Surroundings for the witnesses: logins succeed but for the thread \<open>bad\<close>, everything else works.\<close>

definition exampleClient :: imapOps where
  "exampleClient = \<lparr>Login = (\<lambda>u p. None), List = (\<lambda>r n. ([''a'', ''b''], None)), Select = (\<lambda>n r. Err ''none''),
     Fetch = (\<lambda>a b. ([], None)), UidFetch = (\<lambda>ns. ([], None)), Logout = None, Terminate = None\<rparr>"

definition exampleSurroundings :: "nat option \<Rightarrow> gerr option \<Rightarrow> surroundings" where
  "exampleSurroundings bad listErr =
     \<lparr>connection = (\<lambda>k. if bad = Some k then Err ''refused'' else Ok exampleClient),
      available = ([], listErr), downloadErr = (\<lambda>k f. None)\<rparr>"

section \<open>Properties of \<open>DownloadFolder\<close>\<close>

text \<open>A download without error: every thread has worked through its partition.\<close>

lemma errorless_threads:
  assumes "(dstep env ps)\<^sup>*\<^sup>* (downloadInit env) st" and "d_result st = Some (Ok None)"
  shows "snd (available env) = None" "length (d_workers st) = length ps" "d_next st = length ps"
    "k < length ps \<Longrightarrow> begun k (d_log st) = ps ! k"
    "x \<in> set (d_log st) \<Longrightarrow> downloadErr env (fst x) (snd x) = None"
    "count_list (d_logouts st) j = of_bool (j = 0 \<or> j < length ps)"
proof -
  obtain c where c: "connection env 0 = Ok c"
  proof (cases "connection env 0")
    case (Err e)
    then have "d_result (downloadInit env) = Some (Ok (errs_err \<lparr>errs = [e], verbose = True\<rparr>))"
      by (simp add: downloadInit_def addErr_def errs_add_def)
    with result_forever [OF assms(1)] assms(2) show ?thesis by (auto simp: errs_err_def)
  next
    case (Panic p)
    then have "d_result (downloadInit env) = Some (Panic p)" by (simp add: downloadInit_def)
    with result_forever [OF assms(1)] assms(2) show ?thesis by auto
  qed
  have i: "thread_inv ps st" "report_inv env ps st" "logout_inv st"
    using invs_reach [OF assms(1) c] by auto
  have e: "errs (d_errs st) = []" "d_loop st = LDone" "\<forall>w \<in> set (d_workers st). w = Ended"
    using i(2) assms(2) by (auto simp: report_inv_def simp flip: errs_err_None)
  show l: "length (d_workers st) = length ps" "d_next st = length ps"
    using i e by (auto simp: thread_inv_def report_inv_def)
  show "begun k (d_log st) = ps ! k" if "k < length ps"
  proof -
    have "d_workers st ! k = Ended" using e(3) l that by simp
    with i(1) l that show ?thesis unfolding thread_inv_def by (metis append_Nil2 todo.simps(2))
  qed
  have "set (errs (d_errs (downloadInit env))) \<subseteq> {}"
    using errs_grow_all [OF assms(1)] e(1) by simp
  then show "snd (available env) = None"
    using c by (cases "snd (available env)") (simp_all add: downloadInit_def Let_def)
  show "downloadErr env (fst x) (snd x) = None" if "x \<in> set (d_log st)"
    using i(2) e(1) that by (cases "downloadErr env (fst x) (snd x)") (auto simp: report_inv_def)
  show "count_list (d_logouts st) j = of_bool (j = 0 \<or> j < length ps)"
    using i(3) e l assms(2) by (auto simp: logout_inv_def)
qed

text \<open>
  C15: A download without error has done everything, however the threads are scheduled. If
  \<open>DownloadFolder\<close> returns nil, the folder list was complete, every folder that the specs select was
  downloaded exactly once and without an error, each thread working through its partition in order,
  and every connection that was made was logged out exactly once.
\<close>

theorem successful_download_covers_all_folders:
  assumes "ps = downloadPartitions iter1 iter2 env folders threads"
    and "(dstep env ps)\<^sup>*\<^sup>* (downloadInit env) st" and "d_result st = Some (Ok None)"
  shows "snd (available env) = None \<and>
    mset (map snd (d_log st)) = mset (expandFolders iter1 iter2 folders (fst (available env))) \<and>
    (\<forall>k < length ps. begun k (d_log st) = ps ! k) \<and>
    (\<forall>x \<in> set (d_log st). downloadErr env (fst x) (snd x) = None) \<and>
    (\<forall>k. count_list (d_logouts st) k = of_bool (k = 0 \<or> k < length ps))"
proof -
  note e = errorless_threads [OF assms(2,3)]
  let ?F = "expandFolders iter1 iter2 folders (fst (available env))"
  define n where "n = (if 0 < sint threads \<and> sint threads \<le> int (length ?F) then nat (sint threads) else length ?F)"
  have p: "ps = map (part n ?F) [0..<n]"
    unfolding assms(1) downloadPartitions_def partitionFolders_eq Let_def n_def ..
  have "mset (map snd (d_log st)) = (\<Sum>k<n. mset (begun k (d_log st)))"
    using thread_inv_reach [OF assms(2)] e(3) by (intro mset_begun) (simp add: thread_inv_def p)
  also have "\<dots> = (\<Sum>k<n. mset (part n ?F k))" using e(4) by (simp add: p)
  also have "\<dots> = mset ?F"
  proof (cases "n = 0")
    case True
    then have "?F = []" by (auto simp: n_def split: if_splits)
    with True show ?thesis by simp
  qed (use mset_part in simp)
  finally have m: "mset (map snd (d_log st)) = mset ?F" .
  with e show ?thesis by blast
qed

lemma successful_download_covers_all_folders_witness:
  "\<exists>st :: downloads. d_result st = Some (Ok None) \<and> mset (map snd (d_log st)) = {#} \<and>
    (\<forall>k. count_list (d_logouts st) k = of_bool (k = 0))"
proof -
  let ?env = "exampleSurroundings None None" and ?ps = "[] :: string list list"
  let ?s1 = "(downloadInit ?env)\<lparr>d_loop := LDone\<rparr>"
  let ?s2 = "logoutThen ?env 0 (\<lambda>st. st\<lparr>d_intr := deregister (d_intr st),
    d_result := Some (Ok (errs_err (d_errs st)))\<rparr>) ?s1"
  have i: "d_result (downloadInit ?env) = None" "d_loop (downloadInit ?env) = LNext"
    "d_next (downloadInit ?env) = 0" "d_workers (downloadInit ?env) = []"
    by (simp_all add: downloadInit_def exampleSurroundings_def Let_def)
  have "dstep ?env ?ps (downloadInit ?env) ?s1" by (rule dstep.loop_end) (simp_all add: i)
  moreover have "dstep ?env ?ps ?s1 ?s2" by (rule dstep.return) (simp_all add: i)
  ultimately have r: "(dstep ?env ?ps)\<^sup>*\<^sup>* (downloadInit ?env) ?s2"
    by (meson rtranclp.rtrancl_into_rtrancl rtranclp.rtrancl_refl)
  have d: "d_result ?s2 = Some (Ok None)"
    by (simp add: downloadInit_def exampleSurroundings_def Let_def addErr_def errs_add_def logoutThen_def
        logoutOf_eq exampleClient_def errs_err_def)
  have p: "?ps = downloadPartitions id id ?env [] 0"
    by code_simp
  have x: "expandFolders id id [] (fst (available ?env)) = []" by code_simp
  obtain st where st: "(dstep ?env ?ps)\<^sup>*\<^sup>* (downloadInit ?env) st" "d_result st = Some (Ok None)"
    using r d by blast
  show ?thesis
    using successful_download_covers_all_folders [OF p st] st(2) by - (rule exI [of _ st], simp add: x)
qed

section \<open>Termination, failing logins and failing lists\<close>

text \<open>
  What is left to do: two steps of the loop per partition, one step per folder and one per thread,
  and the return.
\<close>

fun loopWork :: "loop_pc \<Rightarrow> nat" where
  "loopWork LNext = 2"
| "loopWork LDecide = 1"
| "loopWork LDone = 0"

fun workerWork :: "worker \<Rightarrow> nat" where
  "workerWork (Working fs) = Suc (length fs)"
| "workerWork Ended = 0"

definition outstanding :: "string list list \<Rightarrow> downloads \<Rightarrow> nat" where
  "outstanding ps st =
     (if d_result st \<noteq> None then 0
      else 1 + loopWork (d_loop st) + sum_list (map workerWork (d_workers st)) +
        sum_list (map (\<lambda>p. length p + 3) (drop (d_next st) ps)))"

lemma sum_list_update_less:
  "k < length xs \<Longrightarrow> f x < f (xs ! k) \<Longrightarrow>
    sum_list (map f (xs[k := x])) < (sum_list (map f xs) :: nat)"
proof (induction xs arbitrary: k)
  case (Cons y ys)
  then show ?case by (cases k) auto
qed simp

lemma outstanding_step:
  assumes "dstep env ps st st'" and i: "thread_inv ps st"
  shows "(\<exists>s. st' = st\<lparr>d_intr := notify s (d_intr st)\<rparr>) \<or> outstanding ps st' < outstanding ps st"
  using assms(1)
proof (cases rule: dstep.cases)
  case (signal s)
  then show ?thesis by blast
next
  case connect
  then show ?thesis by (auto simp: outstanding_def connectThread_def split: res.split)
next
  case (spawn j)
  have "drop (d_next st) ps = ps ! d_next st # drop (Suc (d_next st)) ps"
    using i spawn by (intro Cons_nth_drop_Suc [symmetric]) (simp add: thread_inv_def)
  with spawn show ?thesis by (simp add: outstanding_def)
next
  case (stop j b)
  then show ?thesis
    by (cases rule: logoutThen_stop [where env = env and k = "d_next st" and st = "st\<lparr>d_intr := j\<rparr>"])
      (auto simp: outstanding_def)
next
  case (work k folder folders)
  have "sum_list (map workerWork ((d_workers st)[k := Working folders])) < sum_list (map workerWork (d_workers st))"
    using work by (intro sum_list_update_less) simp_all
  with work show ?thesis by (simp add: outstanding_def)
next
  case (work_end k)
  have "sum_list (map workerWork ((d_workers st)[k := Ended])) < sum_list (map workerWork (d_workers st))"
    using work_end by (intro sum_list_update_less) simp_all
  with work_end show ?thesis
    by (cases rule: logoutThen_end [where env = env and k = k and ka = k and st = st])
      (auto simp: outstanding_def)
next
  case return
  then show ?thesis
    by (cases rule: logoutThen_return [where env = env and k = 0 and st = st])
      (auto simp: outstanding_def)
qed (auto simp: outstanding_def)

lemma dstep_possible:
  assumes i: "thread_inv ps st" and r: "d_result st = None"
  shows "\<exists>st'. dstep env ps st st' \<and> outstanding ps st' < outstanding ps st"
proof -
  show ?thesis
  proof (cases "d_loop st")
    case LNext
    show ?thesis
    proof (cases "d_next st = length ps")
      case True
      from dstep.loop_end [OF r LNext True] show ?thesis
        by - (rule exI, rule conjI, assumption, simp add: outstanding_def LNext r)
    next
      case False
      then have "d_next st < length ps" using i by (simp add: thread_inv_def)
      from dstep.connect [OF r LNext this] show ?thesis
        by - (rule exI, rule conjI, assumption, simp add: outstanding_def connectThread_def LNext r split: res.split)
    qed
  next
    case LDecide
    obtain j b where j: "interrupted (d_intr st) = (j, b)" by fastforce
    show ?thesis
    proof (cases "b \<or> errs_bad (d_errs st)")
      case True
      from dstep.stop [OF r LDecide j True] show ?thesis
        by - (rule exI, rule conjI, assumption, cases rule: logoutThen_stop [where env = env and k = "d_next st" and st = "st\<lparr>d_intr := j\<rparr>"],
            auto simp: outstanding_def LDecide r)
    next
      case False
      then have "interrupted (d_intr st) = (j, False)" "\<not> errs_bad (d_errs st)" using j by auto
      note st = dstep.spawn [OF r LDecide this]
      have "drop (d_next st) ps = ps ! d_next st # drop (Suc (d_next st)) ps"
        using i LDecide by (intro Cons_nth_drop_Suc [symmetric]) (simp add: thread_inv_def)
      with st show ?thesis by - (rule exI, rule conjI, assumption, simp add: outstanding_def LDecide r)
    qed
  next
    case LDone
    show ?thesis
    proof (cases "\<forall>w \<in> set (d_workers st). w = Ended")
      case True
      from dstep.return [OF r LDone True] show ?thesis
        by - (rule exI, rule conjI, assumption, cases rule: logoutThen_return [where env = env and k = 0 and st = st],
            auto simp: outstanding_def LDone r)
    next
      case False
      then obtain k where k: "k < length (d_workers st)" "d_workers st ! k \<noteq> Ended"
        by (metis in_set_conv_nth)
      then obtain fs where w: "d_workers st ! k = Working fs" by (cases "d_workers st ! k") auto
      show ?thesis
      proof (cases fs)
        case Nil
        have l: "sum_list (map workerWork ((d_workers st)[k := Ended])) < sum_list (map workerWork (d_workers st))"
          using k w by (intro sum_list_update_less) simp_all
        from dstep.work_end [OF r k(1) w [unfolded Nil]] show ?thesis
          by - (rule exI, rule conjI, assumption, use l in \<open>cases rule: logoutThen_end [where env = env and k = k and ka = k and st = st],
              auto simp: outstanding_def r\<close>)
      next
        case (Cons f gs)
        have l: "sum_list (map workerWork ((d_workers st)[k := Working gs])) < sum_list (map workerWork (d_workers st))"
          using k w Cons by (intro sum_list_update_less) simp_all
        from dstep.work [OF r k(1) w [unfolded Cons]] show ?thesis
          by - (rule exI, rule conjI, assumption, use l in \<open>simp add: outstanding_def r\<close>)
      qed
    qed
  qed
qed

lemma returns_from:
  assumes "thread_inv ps st"
  shows "\<exists>st'. (dstep env ps)\<^sup>*\<^sup>* st st' \<and> d_result st' \<noteq> None"
  using assms
proof (induction "outstanding ps st" arbitrary: st rule: less_induct)
  case less
  show ?case
  proof (cases "d_result st = None")
    case True
    from dstep_possible [OF less.prems True] obtain st1 where
      s: "dstep env ps st st1" "outstanding ps st1 < outstanding ps st" by blast
    from less.hyps [OF s(2) thread_inv_step [OF s(1) less.prems]] s(1)
    show ?thesis by (meson converse_rtranclp_into_rtranclp)
  qed blast
qed

text \<open>
  \<open>DownloadFolder\<close> terminates, if each folder's download does. From every state that its threads can
  reach, it can still return; and every step except the arrival of a signal reduces the number of
  outstanding steps, so that no schedule runs forever.
\<close>

theorem download_threads_terminate:
  assumes "(dstep env ps)\<^sup>*\<^sup>* (downloadInit env) st"
  shows "(\<exists>st'. (dstep env ps)\<^sup>*\<^sup>* st st' \<and> d_result st' \<noteq> None) \<and>
    (\<forall>st'. dstep env ps st st' \<longrightarrow>
       (\<exists>s. st' = st\<lparr>d_intr := notify s (d_intr st)\<rparr>) \<or> outstanding ps st' < outstanding ps st)"
proof (cases "d_result st = None")
  case True
  have "thread_inv ps st" by (rule thread_inv_reach [OF assms])
  then show ?thesis using returns_from outstanding_step by blast
next
  case False
  then show ?thesis by (metis result_final rtranclp.rtrancl_refl)
qed

lemma download_threads_terminate_witness:
  "\<exists>st'. (dstep (exampleSurroundings (Some 1) None) [[''a''], [''b'']])\<^sup>*\<^sup>*
     (downloadInit (exampleSurroundings (Some 1) None)) st' \<and> d_result st' \<noteq> None"
  using download_threads_terminate [OF rtranclp.rtrancl_refl] by blast

text \<open>A later thread whose login failed: the loop is never left normally at or after it.\<close>

definition failing_inv :: "nat \<Rightarrow> downloads \<Rightarrow> bool" where
  "failing_inv k st \<longleftrightarrow> d_next st \<le> k \<and> (d_next st = k \<and> d_loop st = LDecide \<longrightarrow> errs (d_errs st) \<noteq> []) \<and>
     (d_loop st = LDone \<longrightarrow> d_next st < k) \<and> (\<forall>r. d_result st = Some (Ok r) \<longrightarrow> d_loop st = LDone)"

lemma failing_inv_step:
  assumes "dstep env ps st st'" "connection env k = Err e" "0 < k" "k < length ps" "failing_inv k st"
  shows "failing_inv k st'"
  using assms
proof (induction rule: dstep.induct)
  case (connect st)
  then show ?case by (auto simp: failing_inv_def connectThread_def split: res.split)
next
  case (spawn st i)
  then show ?case by (cases "d_next st = k") (auto simp: failing_inv_def)
next
  case (stop st i b)
  show ?case
  proof (cases "d_next st = k")
    case True
    then show ?thesis using stop by (simp add: failing_inv_def logoutThen_def logoutOf_eq)
  next
    case False
    then show ?thesis using stop
      by (cases rule: logoutThen_stop [where env = env and k = "d_next st" and st = "st\<lparr>d_intr := i\<rparr>"])
        (auto simp: failing_inv_def)
  qed
next
  case (work_end st j)
  then show ?case
    by (cases rule: logoutThen_end [where env = env and k = j and ka = j and st = st])
      (auto simp: failing_inv_def)
next
  case (return st)
  then show ?case
    by (cases rule: logoutThen_return [where env = env and k = 0 and st = st])
      (auto simp: failing_inv_def)
qed (auto simp: failing_inv_def)

lemma failing_inv_reach:
  assumes "(dstep env ps)\<^sup>*\<^sup>* (downloadInit env) st" "connection env k = Err e" "0 < k" "k < length ps"
    and c: "connection env 0 = Ok c"
  shows "failing_inv k st"
  using assms(1)
proof (induction rule: rtranclp_induct)
  case base
  then show ?case using c assms(3) by (simp add: failing_inv_def downloadInit_def Let_def)
next
  case (step st st')
  then show ?case using failing_inv_step assms(2-4) by blast
qed

lemma failing_run:
  assumes c: "connection env 0 = Ok c" "snd (available env) = None" and e: "connection env 1 = Err e"
    and l: "2 \<le> length ps"
  shows "\<exists>st. (dstep env ps)\<^sup>*\<^sup>* (downloadInit env) st \<and> d_result st = Some (Panic nilDeref)"
proof -
  let ?i = "newInterruptOps signalsToWaitFor"
  let ?st = "\<lambda>es n l ws r. \<lparr>d_errs = \<lparr>errs = es, verbose = True\<rparr>, d_intr = ?i, d_next = n, d_loop = l,
    d_workers = ws, d_log = [], d_logouts = [], d_result = r\<rparr>"
  have i: "interrupted ?i = (?i, False)" by (simp add: newInterruptOps_def register_def interrupted_def)
  have l': "ps \<noteq> []" "Suc 0 < length ps" using l by auto
  have 0: "downloadInit env = ?st [] 0 LNext [] None"
    using c by (simp add: downloadInit_def Let_def addErr_def errs_add_def)
  have "dstep env ps (?st [] 0 LNext [] None) (?st [] 0 LDecide [] None)"
    using dstep.connect [of "?st [] 0 LNext [] None" ps env] l' by (simp add: connectThread_def)
  moreover have "dstep env ps (?st [] 0 LDecide [] None) (?st [] 1 LNext [Working (ps ! 0)] None)"
    using dstep.spawn [of "?st [] 0 LDecide [] None" ?i env ps] i by simp
  moreover have "dstep env ps (?st [] 1 LNext [Working (ps ! 0)] None) (?st [e] 1 LDecide [Working (ps ! 0)] None)"
    using dstep.connect [of "?st [] 1 LNext [Working (ps ! 0)] None" ps env] l' e
    by (simp add: connectThread_def addErr_def errs_add_def)
  moreover have "dstep env ps (?st [e] 1 LDecide [Working (ps ! 0)] None)
      (?st [e] 1 LDecide [Working (ps ! 0)] (Some (Panic nilDeref)))"
    using dstep.stop [of "?st [e] 1 LDecide [Working (ps ! 0)] None" ?i False env ps] i e
    by (simp add: logoutThen_def logoutOf_eq)
  ultimately have "(dstep env ps)\<^sup>*\<^sup>* (downloadInit env) (?st [e] 1 LDecide [Working (ps ! 0)] (Some (Panic nilDeref)))"
    unfolding 0 by (meson rtranclp.rtrancl_into_rtrancl rtranclp.rtrancl_refl)
  moreover have "d_result (?st [e] 1 LDecide [Working (ps ! 0)] (Some (Panic nilDeref))) = Some (Panic nilDeref)"
    by simp
  ultimately show ?thesis by blast
qed

text \<open>
  C40: A failing login of the second thread makes the program panic: \<open>logout\<close> is called on a connection that
  does not exist. There is a run that ends in the panic, and the function can return normally only
  if it was stopped before any download was started.
\<close>

theorem later_login_failure_panics:
  assumes "connection env 0 = Ok c" and "snd (available env) = None" and "connection env 1 = Err e"
    and "2 \<le> length ps"
  shows "(\<exists>st. (dstep env ps)\<^sup>*\<^sup>* (downloadInit env) st \<and> d_result st = Some (Panic nilDeref)) \<and>
    (\<forall>st r. (dstep env ps)\<^sup>*\<^sup>* (downloadInit env) st \<longrightarrow> d_result st = Some (Ok r) \<longrightarrow> d_workers st = [])"
proof (intro conjI allI impI)
  show "\<exists>st. (dstep env ps)\<^sup>*\<^sup>* (downloadInit env) st \<and> d_result st = Some (Panic nilDeref)"
    by (rule failing_run [OF assms])
next
  fix st r assume s: "(dstep env ps)\<^sup>*\<^sup>* (downloadInit env) st" "d_result st = Some (Ok r)"
  have "failing_inv 1 st" using failing_inv_reach [OF s(1) assms(3) _ _ assms(1)] assms(4) by simp
  moreover have "thread_inv ps st" using invs_reach [OF s(1) assms(1)] by blast
  ultimately show "d_workers st = []" using s(2) by (auto simp: failing_inv_def thread_inv_def)
qed

lemma later_login_failure_panics_witness:
  "\<exists>st. (dstep (exampleSurroundings (Some 1) None) [[''a''], [''b'']])\<^sup>*\<^sup>*
     (downloadInit (exampleSurroundings (Some 1) None)) st \<and> d_result st = Some (Panic nilDeref)"
  using later_login_failure_panics [of "exampleSurroundings (Some 1) None" exampleClient "''refused''"
      "[[''a''], [''b'']]"]
  by (simp add: exampleSurroundings_def)

text \<open>A failed listing: nothing is started, and the one connection is logged out by the loop and again at the end.\<close>

definition unlisted_inv :: "downloads \<Rightarrow> bool" where
  "unlisted_inv st \<longleftrightarrow> d_next st = 0 \<and> d_workers st = [] \<and> d_log st = [] \<and> errs (d_errs st) \<noteq> [] \<and>
     (d_result st = None \<longrightarrow> d_logouts st = (if d_loop st = LDone then [0] else [])) \<and>
     (\<forall>r. d_result st = Some (Ok r) \<longrightarrow> d_logouts st = [0, 0])"

lemma unlisted_inv_step:
  assumes "dstep env ps st st'" "ps \<noteq> []" "unlisted_inv st"
  shows "unlisted_inv st'"
  using assms
proof (induction rule: dstep.induct)
  case (connect st)
  then show ?case by (auto simp: unlisted_inv_def connectThread_def split: res.split)
next
  case (stop st i b)
  then show ?case
    by (cases rule: logoutThen_stop [where env = env and k = "d_next st" and st = "st\<lparr>d_intr := i\<rparr>"])
      (auto simp: unlisted_inv_def)
next
  case (return st)
  then show ?case
    by (cases rule: logoutThen_return [where env = env and k = 0 and st = st])
      (auto simp: unlisted_inv_def)
qed (auto simp: unlisted_inv_def)

text \<open>
  If listing the folders fails, nothing is downloaded, the error is reported, and the only connection is
  logged out twice.
\<close>

theorem failed_listing_logs_out_twice:
  assumes "connection env 0 = Ok c" and "snd (available env) = Some e" and "ps \<noteq> []"
    and "(dstep env ps)\<^sup>*\<^sup>* (downloadInit env) st" and "d_result st = Some (Ok r)"
  shows "d_log st = [] \<and> d_logouts st = [0, 0] \<and> r \<noteq> None"
proof -
  have "unlisted_inv st" using assms(4)
  proof (induction rule: rtranclp_induct)
    case base
    then show ?case using assms(1,2) by (simp add: unlisted_inv_def downloadInit_def Let_def)
  next
    case (step st st')
    then show ?case using unlisted_inv_step assms(3) by blast
  qed
  moreover have "r = errs_err (d_errs st)"
    using invs_reach [OF assms(4,1)] assms(5) by (auto simp: report_inv_def)
  ultimately show ?thesis using assms(5) by (simp add: unlisted_inv_def errs_err_None)
qed

lemma failed_listing_logs_out_twice_witness:
  "\<exists>(st :: downloads) r. d_result st = Some (Ok r) \<and> d_logouts st = [0, 0]"
proof -
  let ?env = "exampleSurroundings None (Some ''no list'')" and ?ps = "[[''a'']]"
  let ?i = "newInterruptOps signalsToWaitFor"
  let ?s1 = "(downloadInit ?env)\<lparr>d_loop := LDecide\<rparr>"
  let ?s2 = "logoutThen ?env 0 (\<lambda>st. addErr (Some stopMessage) (st\<lparr>d_loop := LDone\<rparr>)) ?s1"
  let ?s3 = "logoutThen ?env 0 (\<lambda>st. st\<lparr>d_intr := deregister (d_intr st),
    d_result := Some (Ok (errs_err (d_errs st)))\<rparr>) ?s2"
  have i: "interrupted ?i = (?i, False)" by (simp add: newInterruptOps_def register_def interrupted_def)
  note run = downloadInit_def exampleSurroundings_def Let_def addErr_def errs_add_def logoutThen_def
    logoutOf_eq exampleClient_def i connectThread_def
  have "dstep ?env ?ps (downloadInit ?env) ?s1"
    using dstep.connect [of "downloadInit ?env" ?ps ?env] by (simp add: run)
  moreover have "dstep ?env ?ps ?s1 ?s2"
    using dstep.stop [of ?s1 ?i False ?env ?ps] by (simp add: run)
  moreover have "dstep ?env ?ps ?s2 ?s3" by (rule dstep.return) (simp_all add: run)
  ultimately have r: "(dstep ?env ?ps)\<^sup>*\<^sup>* (downloadInit ?env) ?s3"
    by (meson rtranclp.rtrancl_into_rtrancl rtranclp.rtrancl_refl)
  have c: "connection ?env 0 = Ok exampleClient" "snd (available ?env) = Some ''no list''"
    by (simp_all add: exampleSurroundings_def)
  have d: "d_result ?s3 = Some (Ok (errs_err (d_errs ?s2)))" by (simp add: run)
  obtain st q where st: "(dstep ?env ?ps)\<^sup>*\<^sup>* (downloadInit ?env) st" "d_result st = Some (Ok q)"
    using r d by blast
  have "?ps \<noteq> []" by simp
  from failed_listing_logs_out_twice [OF c this st] st(2) show ?thesis by blast
qed

section \<open>Properties of the other entry points\<close>

text \<open>
  C?: A connection test or a listing logs in, and logs out again exactly if it logged in; \<open>TryConnect\<close>
  reports nil exactly if both worked. \<open>GetAllFolders\<close> returns the folders also when the logout fails, and
  of several errors it reports the first.
\<close>

theorem tryConnect_and_getAllFolders:
  "(tryConnect r = Ok None \<longleftrightarrow> (\<exists>c. r = Ok c \<and> Logout c = None)) \<and>
   (\<forall>e. r = Err e \<longrightarrow> tryConnect r = Ok (Some e) \<and> getAllFolders r listed = Ok ([], Some e)) \<and>
   (\<forall>c. r = Ok c \<longrightarrow> getAllFolders r listed =
      Ok (fst (listed c), case snd (listed c) of None \<Rightarrow> Logout c | Some e \<Rightarrow> Some e))"
  by (cases r)
    (auto simp: tryConnect_def getAllFolders_def ig_logout_def ig_authenticateClient_def errors_Join_def
      split: option.split prod.split)

lemma tryConnect_and_getAllFolders_witness:
  "getAllFolders (Ok exampleClient) (\<lambda>c. ([''a''], None)) = Ok ([''a''], None)"
  using tryConnect_and_getAllFolders [of "Ok exampleClient" "\<lambda>c. ([''a''], None)"]
  by (simp add: exampleClient_def)

lemma errors_Join_None: "errors_Join es = None \<longleftrightarrow> (\<forall>e \<in> set es. e = None)"
  by (induction es rule: somes.induct) (auto simp: errors_Join_def)

definition serve_inv :: "serving \<Rightarrow> bool" where
  "serve_inv st \<longleftrightarrow> (sv_pc st = SWait \<longleftrightarrow> channel (sv_intr st) \<noteq> None)"

lemma serve_inv_step:
  "serveStep serverErr closeErr st st' \<Longrightarrow> serve_inv st \<Longrightarrow> serve_inv st'"
  by (induction rule: serveStep.induct)
    (auto simp: serve_inv_def notify_def wait_leave_def deregisterNoLock_def split: option.splits list.splits)

lemma returned_result:
  assumes "(serveStep (Some e) closeErr)\<^sup>*\<^sup>* serveInit st"
  shows "serve_inv st \<and> (\<forall>r. sv_pc st = SReturned r \<longrightarrow> sv_ended st \<and> r = serveResult (Some e) closeErr)"
  using assms
proof (induction rule: rtranclp_induct)
  case base
  show ?case
    by (simp add: serve_inv_def serveInit_def wait_enter_def newInterruptOps_def register_def)
next
  case (step st st')
  from step(2) have "\<forall>r. sv_pc st' = SReturned r \<longrightarrow> sv_ended st' \<and> r = serveResult (Some e) closeErr"
    using step(3) by (induction rule: serveStep.induct) auto
  with step serve_inv_step show ?case by blast
qed

text \<open>
  \<open>ServeMaildir\<close> serves until a signal arrives, and only reports unexpected errors. As long as no signal
  has arrived it does not return, even if the server could not be started at all; when it returns,
  the server has ended, and the error is nil exactly if the server's error was the expected one
  and closing worked.
\<close>

theorem serve_until_signal:
  assumes "(serveStep (Some e) closeErr)\<^sup>*\<^sup>* serveInit st"
  shows "(channel (sv_intr st) = Some [] \<longrightarrow> sv_pc st = SWait \<and>
      (\<forall>st'. serveStep (Some e) closeErr st st' \<longrightarrow> sv_pc st' = SWait)) \<and>
    (\<forall>r. sv_pc st = SReturned r \<longrightarrow> sv_ended st \<and>
      r = Ok (errors_Join [if contains e errClosedNetwork then None else Some e, closeErr]) \<and>
      (r = Ok None \<longleftrightarrow> contains e errClosedNetwork \<and> closeErr = None))"
proof -
  note i = returned_result [OF assms]
  have "sv_pc st' = SWait" if "channel (sv_intr st) = Some []" "serveStep (Some e) closeErr st st'" for st'
    using that(2,1) i by (cases rule: serveStep.cases) (auto simp: serve_inv_def wait_leave_def)
  moreover have "errors_Join [if contains e errClosedNetwork then None else Some e, closeErr] = None \<longleftrightarrow>
      contains e errClosedNetwork \<and> closeErr = None"
    by (simp add: errors_Join_None)
  ultimately show ?thesis using i by (simp add: serve_inv_def serveResult_def) (metis res.inject(1))
qed

text \<open>The server cannot listen; after a signal the error is reported.\<close>

lemma serve_until_signal_witness:
  "\<exists>st r. (serveStep (Some ''address in use'') None)\<^sup>*\<^sup>* serveInit st \<and> sv_pc st = SReturned r \<and>
    r = Ok (Some ''address in use'')"
proof -
  let ?R = "serveStep (Some ''address in use'') None"
  let ?s1 = "serveInit\<lparr>sv_ended := True\<rparr>"
  let ?s2 = "?s1\<lparr>sv_intr := notify ''interrupt'' (sv_intr ?s1)\<rparr>"
  obtain i where i: "wait_leave (sv_intr ?s2) = Some i"
    by (simp add: serveInit_def wait_enter_def newInterruptOps_def register_def notify_def wait_leave_def signalsToWaitFor_def)
  let ?s3 = "?s2\<lparr>sv_intr := i, sv_pc := SClosing\<rparr>"
  let ?s4 = "?s3\<lparr>sv_pc := SReturned (serveResult (Some ''address in use'') None)\<rparr>"
  have "?R serveInit ?s1" by (rule serveStep.server_end)
  moreover have "?R ?s1 ?s2" by (rule serveStep.signal)
  moreover have "?R ?s2 ?s3" using i by (intro serveStep.close) (simp_all add: serveInit_def)
  moreover have "?R ?s3 ?s4" by (rule serveStep.return) simp_all
  ultimately have r: "?R\<^sup>*\<^sup>* serveInit ?s4" by (meson converse_rtranclp_into_rtranclp rtranclp.rtrancl_refl)
  have "\<not> contains ''address in use'' errClosedNetwork" by code_simp
  with serve_until_signal [OF r] have "serveResult (Some ''address in use'') None = Ok (Some ''address in use'')"
    by (simp add: errors_Join_def)
  with r show ?thesis by (intro exI [of _ ?s4]) simp
qed

end
