(* ===== verification/Cache.thy ===== *)
theory Cache
  imports ImapClient
begin

text \<open>
  Messages of the local IMAP server and the memory they share, \<open>core/srvbackend_message.go\<close>. A message
  is read from its file when it is first needed; the global \<open>backendMem\<close> keeps the messages that
  were read and forgets all of them when their size exceeds a limit. Messages are objects that several
  mailboxes and the memory refer to, so they live in a heap indexed by address.
\<close>

section \<open>Model\<close>

record memMessage =
  mm_uid :: u32
  mm_date :: int
  mm_flags :: "string list"
  mm_size :: u32
  mm_body :: string

record serverMessage =
  sm_path :: string
  sm_filled :: bool
  sm_msg :: memMessage

text \<open>
  \<open>backendMessageMemory\<close> with the heap. The keys of its map are a list without duplicates; sizes are
  integers, since the bytes in memory cannot overflow 64 bits.
\<close>

record backendMemory =
  heap :: "nat \<Rightarrow> serverMessage"
  knownBytes :: int
  maxBytes :: int
  cached :: "nat list"

text \<open>
  \<open>intFromEnvWithDefault\<close>: \<open>parsed\<close> is the result of \<open>strconv.Atoi\<close> on the variable, an error if it is
  not set. The product with a million wraps at 64 bits.
\<close>

definition intFromEnvWithDefault :: "(gerr + goint) \<Rightarrow> goint \<Rightarrow> goint" where
  "intFromEnvWithDefault parsed defaultVal = (case parsed of Inl e \<Rightarrow> defaultVal | Inr v \<Rightarrow> v)"

definition initialMemory :: "(gerr + goint) \<Rightarrow> (nat \<Rightarrow> serverMessage) \<Rightarrow> backendMemory" where
  "initialMemory parsed h =
     \<lparr>heap = h, knownBytes = 0, maxBytes = sint (intFromEnvWithDefault parsed 100 * 1000000), cached = []\<rparr>"

definition msg_clear :: "serverMessage \<Rightarrow> serverMessage" where
  "msg_clear m = m\<lparr>sm_filled := False, sm_msg := (sm_msg m)\<lparr>mm_size := 0, mm_body := []\<rparr>\<rparr>"

definition clearAll :: "backendMemory \<Rightarrow> backendMemory" where
  "clearAll st = st\<lparr>heap := (\<lambda>k. if k \<in> set (cached st) then msg_clear (heap st k) else heap st k),
     knownBytes := 0, cached := []\<rparr>"

definition clearBackendMessageMemoryIfNeeded :: "nat \<Rightarrow> int \<Rightarrow> backendMemory \<Rightarrow> backendMemory" where
  "clearBackendMessageMemoryIfNeeded k newSize st =
     (if k \<in> set (cached st) then st
      else
        let st = (if newSize + knownBytes st > maxBytes st then clearAll st else st) in
        st\<lparr>cached := k # cached st, knownBytes := knownBytes st + newSize\<rparr>)"

text \<open>\<open>os.ReadFile\<close> gives the bytes it has read and possibly an error.\<close>

definition msg_load :: "string \<Rightarrow> u32 \<Rightarrow> serverMessage \<Rightarrow> serverMessage" where
  "msg_load body n m = m\<lparr>sm_filled := True, sm_msg := (sm_msg m)\<lparr>mm_size := n, mm_body := body\<rparr>\<rparr>"

definition fill ::
    "(string \<Rightarrow> string \<times> gerr option) \<Rightarrow> nat \<Rightarrow> backendMemory \<Rightarrow> backendMemory \<times> gerr option res" where
  "fill readFile k st =
     (if sm_filled (heap st k) then (st, Ok None)
      else
        case readFile (sm_path (heap st k)) of
          (body, Some e) \<Rightarrow> (clearBackendMessageMemoryIfNeeded k (int (length body)) st, Ok (Some e))
        | (body, None) \<Rightarrow>
            (case intToUint32 (of_nat (length body)) of
               Ok n \<Rightarrow>
                 (clearBackendMessageMemoryIfNeeded k (int (length body))
                    (st\<lparr>heap := (heap st)(k := msg_load body n (heap st k))\<rparr>), Ok None)
             | Err e \<Rightarrow> (st, Err e)
             | Panic p \<Rightarrow> (st, Panic p)))"

text \<open>\<open>Fetch\<close> and \<open>Match\<close>: fill the message, then let the library work on it (parameter \<open>use\<close>).\<close>

definition withMessage ::
    "(memMessage \<Rightarrow> u32 \<Rightarrow> gerr + 'a) \<Rightarrow> (string \<Rightarrow> string \<times> gerr option) \<Rightarrow> nat \<Rightarrow> u32 \<Rightarrow>
      backendMemory \<Rightarrow> backendMemory \<times> (gerr + 'a) res" where
  "withMessage f readFile k seqNum st =
     (case fill readFile k st of
        (st, Ok None) \<Rightarrow> (st, Ok (f (sm_msg (heap st k)) seqNum))
      | (st, Ok (Some e)) \<Rightarrow> (st, Ok (Inl e))
      | (st, Err e) \<Rightarrow> (st, Err e)
      | (st, Panic p) \<Rightarrow> (st, Panic p))"

section \<open>The interface: a memory that is filled on demand\<close>

text \<open>
  What a client may rely on: filling a message keeps the invariant and what the client knows of every
  message (\<open>info\<close>), and afterwards the message has its content unless an error is reported.
\<close>

locale demand_store =
  fixes load :: "'k \<Rightarrow> 's \<Rightarrow> 's \<times> bool" and get :: "'s \<Rightarrow> 'k \<Rightarrow> 'v" and good :: "'s \<Rightarrow> bool"
    and info :: "'s \<Rightarrow> 'i" and view :: "'i \<Rightarrow> 'k \<Rightarrow> 'v option"
  assumes load_good: "good s \<Longrightarrow> good (fst (load k s))"
    and load_info: "good s \<Longrightarrow> info (fst (load k s)) = info s"
    and load_view: "good s \<Longrightarrow> snd (load k s) \<longleftrightarrow> view (info s) k \<noteq> None"
    and load_get: "good s \<Longrightarrow> view (info s) k = Some v \<Longrightarrow> get (fst (load k s)) k = v"
begin

text \<open>
  A client that goes through a list and uses those messages it can load; \<open>key\<close> gives the message of
  an entry.
\<close>

fun visit :: "('j \<Rightarrow> 'k) \<Rightarrow> ('j \<Rightarrow> 'v \<Rightarrow> 'r list) \<Rightarrow> 'j list \<Rightarrow> 's \<Rightarrow> 's \<times> 'r list" where
  "visit key f [] s = (s, [])"
| "visit key f (j # js) s =
     (case load (key j) s of (s1, ok) \<Rightarrow>
        (case visit key f js s1 of (s2, rs) \<Rightarrow> (s2, (if ok then f j (get s1 (key j)) else []) @ rs)))"

text \<open>What it sees does not depend on what was in the memory before, nor on what was forgotten meanwhile.\<close>

lemma visit_view:
  "good s \<Longrightarrow> visit key f js s = (s', rs) \<Longrightarrow>
    good s' \<and> info s' = info s \<and>
    rs = concat (map (\<lambda>j. case view (info s) (key j) of None \<Rightarrow> [] | Some v \<Rightarrow> f j v) js)"
proof (induction js arbitrary: s rs)
  case (Cons j js)
  obtain s1 ok where l: "load (key j) s = (s1, ok)" by fastforce
  obtain rs1 where v: "visit key f js s1 = (s', rs1)" "rs = (if ok then f j (get s1 (key j)) else []) @ rs1"
    using Cons.prems(2) l by (auto split: prod.splits)
  have s1: "good s1" "info s1 = info s" "ok \<longleftrightarrow> view (info s) (key j) \<noteq> None"
    "\<And>w. view (info s) (key j) = Some w \<Longrightarrow> get s1 (key j) = w"
    using load_good [OF Cons.prems(1), of "key j"] load_info [OF Cons.prems(1), of "key j"]
      load_view [OF Cons.prems(1), of "key j"] load_get [OF Cons.prems(1), of "key j"] l by auto
  from Cons.IH [OF s1(1) v(1)] s1 v(2) show ?case by (auto split: option.split)
qed simp

end

section \<open>The memory shows the files\<close>

text \<open>What does not change while messages are filled and forgotten: paths, flags, dates, UIDs.\<close>

definition identity :: "serverMessage \<Rightarrow> serverMessage" where
  "identity m = msg_clear m"

definition small :: "string \<Rightarrow> bool" where
  "small body \<longleftrightarrow> int (length body) \<le> maxInt32"

definition memory_inv :: "(string \<Rightarrow> string \<times> gerr option) \<Rightarrow> backendMemory \<Rightarrow> bool" where
  "memory_inv readFile st \<longleftrightarrow>
     (\<forall>p. small (fst (readFile p))) \<and>
     (\<forall>k. if sm_filled (heap st k)
          then \<exists>body. readFile (sm_path (heap st k)) = (body, None) \<and>
            heap st k = msg_load body (of_nat (length body)) (heap st k)
          else heap st k = msg_clear (heap st k))"

definition loaded :: "(string \<Rightarrow> string \<times> gerr option) \<Rightarrow> serverMessage \<Rightarrow> serverMessage option" where
  "loaded readFile m =
     (case readFile (sm_path m) of
        (body, None) \<Rightarrow> Some (msg_load body (of_nat (length body)) m)
      | (body, Some e) \<Rightarrow> None)"

lemma msg_simps [simp]:
  "msg_clear (msg_clear m) = msg_clear m" "msg_clear (msg_load b n m) = msg_clear m"
  "msg_load b n (msg_clear m) = msg_load b n m" "msg_load b n (msg_load b' n' m) = msg_load b n m"
  "sm_filled (msg_clear m) = False" "sm_filled (msg_load b n m)"
  "sm_path (msg_clear m) = sm_path m" "sm_path (msg_load b n m) = sm_path m"
  "mm_body (sm_msg (msg_load b n m)) = b" "mm_size (sm_msg (msg_load b n m)) = n"
  "mm_body (sm_msg (msg_clear m)) = []"
  by (simp_all add: msg_clear_def msg_load_def)

lemma intToUint32_of_nat:
  assumes "int n \<le> maxInt32"
  shows "intToUint32 (of_nat n) = Ok (of_nat n)"
proof -
  have l: "int n < 2 ^ 31" using assms by (simp add: maxInt32_def)
  then have "sint (of_nat n :: goint) = int n"
    by (simp add: signed_of_nat signed_take_bit_int_eq_self)
  moreover have "ucast (of_nat n :: goint) = (of_nat n :: u32)"
    by (rule bit_word_eqI) (simp add: bit_simps)
  ultimately show ?thesis using assms by (simp add: intToUint32_def)
qed

lemma of_nat_small: "small body \<Longrightarrow> intToUint32 (of_nat (length body)) = Ok (of_nat (length body))"
  by (rule intToUint32_of_nat) (simp add: small_def)

lemma clearIfNeeded_heap:
  "heap (clearBackendMessageMemoryIfNeeded k n st) j =
     (if k \<notin> set (cached st) \<and> n + knownBytes st > maxBytes st \<and> j \<in> set (cached st)
      then msg_clear (heap st j) else heap st j)"
  by (simp add: clearBackendMessageMemoryIfNeeded_def clearAll_def Let_def)

lemma fill_inv:
  assumes i: "memory_inv readFile st" and f: "fill readFile k st = (st', r)"
  shows "memory_inv readFile st' \<and> (\<forall>j. msg_clear (heap st' j) = msg_clear (heap st j)) \<and>
    (case loaded readFile (heap st k) of
       Some m \<Rightarrow> r = Ok None \<and> heap st' k = m
     | None \<Rightarrow> \<exists>e. r = Ok (Some e))"
proof (cases "sm_filled (heap st k)")
  case True
  with i obtain body where "readFile (sm_path (heap st k)) = (body, None)"
    "heap st k = msg_load body (of_nat (length body)) (heap st k)" unfolding memory_inv_def by metis
  with True f i show ?thesis by (auto simp: fill_def loaded_def)
next
  case False
  obtain body e where rd: "readFile (sm_path (heap st k)) = (body, e)" by fastforce
  have u: "intToUint32 (of_nat (length body)) = Ok (of_nat (length body))"
    using i rd by (intro of_nat_small) (metis fst_conv memory_inv_def)
  show ?thesis
  proof (cases e)
    case None
    let ?st = "st\<lparr>heap := (heap st)(k := msg_load body (of_nat (length body)) (heap st k))\<rparr>"
    have st': "st' = clearBackendMessageMemoryIfNeeded k (int (length body)) ?st" "r = Ok None"
      using f False rd None u by (simp_all add: fill_def)
    have h: "heap st' j = (if j = k then msg_load body (of_nat (length body)) (heap st k)
        else if k \<notin> set (cached st) \<and> int (length body) + knownBytes st > maxBytes st \<and> j \<in> set (cached st)
        then msg_clear (heap st j) else heap st j)" for j
      unfolding st' clearIfNeeded_heap by auto
    have "memory_inv readFile st'"
      using i rd None unfolding memory_inv_def h by auto
    with h rd None st'(2) show ?thesis by (simp add: loaded_def)
  next
    case (Some x)
    have st': "st' = clearBackendMessageMemoryIfNeeded k (int (length body)) st" "r = Ok (Some x)"
      using f False rd Some by (simp_all add: fill_def)
    have "memory_inv readFile st'"
      using i unfolding memory_inv_def st' clearIfNeeded_heap by auto
    with rd Some st' show ?thesis by (simp add: loaded_def clearIfNeeded_heap)
  qed
qed

definition load_ok :: "(string \<Rightarrow> string \<times> gerr option) \<Rightarrow> nat \<Rightarrow> backendMemory \<Rightarrow> backendMemory \<times> bool" where
  "load_ok readFile k st = (case fill readFile k st of (st', r) \<Rightarrow> (st', r = Ok None))"

lemma loaded_clear: "msg_clear m = msg_clear m' \<Longrightarrow> loaded readFile m = loaded readFile m'"
proof -
  assume a: "msg_clear m = msg_clear m'"
  then have "sm_path m = sm_path m'" by (metis msg_simps(7))
  moreover have "msg_load b n m = msg_load b n m'" for b n using a by (metis msg_simps(3))
  ultimately show ?thesis by (simp add: loaded_def split: prod.split option.split)
qed

interpretation files: demand_store "load_ok readFile" "\<lambda>st. heap st" "memory_inv readFile"
    "\<lambda>st. msg_clear \<circ> heap st" "\<lambda>h k. loaded readFile (h k)"
  for readFile
proof unfold_locales
  fix s k assume g: "memory_inv readFile s"
  obtain s' r where f: "fill readFile k s = (s', r)" by fastforce
  note i = fill_inv [OF g f]
  have l: "loaded readFile ((msg_clear \<circ> heap s) k) = loaded readFile (heap s k)"
    by (rule loaded_clear) simp
  show "memory_inv readFile (fst (load_ok readFile k s))" using i by (simp add: load_ok_def f)
  show "msg_clear \<circ> heap (fst (load_ok readFile k s)) = msg_clear \<circ> heap s"
    using i by (simp add: load_ok_def f fun_eq_iff)
  show "snd (load_ok readFile k s) \<longleftrightarrow> loaded readFile ((msg_clear \<circ> heap s) k) \<noteq> None"
    using i unfolding l by (auto simp: load_ok_def f split: option.splits)
  show "loaded readFile ((msg_clear \<circ> heap s) k) = Some v \<Longrightarrow> heap (fst (load_ok readFile k s)) k = v" for v
    using i unfolding l by (simp add: load_ok_def f)
qed

section \<open>The bytes in memory\<close>

text \<open>
  A sequence of calls of \<open>fill\<close>; files may change between two calls, so every call has its own
  \<open>os.ReadFile\<close>.
\<close>

type_synonym fill_call = "nat \<times> (string \<Rightarrow> string \<times> gerr option)"

primrec fills :: "fill_call list \<Rightarrow> backendMemory \<Rightarrow> backendMemory" where
  "fills [] st = st"
| "fills (c # cs) st = fills cs (fst (fill (snd c) (fst c) st))"

definition bytes :: "backendMemory \<Rightarrow> nat \<Rightarrow> int" where
  "bytes st k = int (length (mm_body (sm_msg (heap st k))))"

definition accounted :: "backendMemory \<Rightarrow> bool" where
  "accounted st \<longleftrightarrow>
     distinct (cached st) \<and>
     (\<forall>k. sm_filled (heap st k) \<longleftrightarrow> k \<in> set (cached st)) \<and>
     (\<forall>k. k \<notin> set (cached st) \<longrightarrow> bytes st k = 0) \<and>
     knownBytes st = sum_list (map (bytes st) (cached st)) \<and>
     (knownBytes st \<le> maxBytes st \<or> length (cached st) \<le> 1)"

definition readable :: "(string \<Rightarrow> string \<times> gerr option) \<Rightarrow> bool" where
  "readable readFile \<longleftrightarrow> (\<forall>p. snd (readFile p) = None \<and> small (fst (readFile p)))"

lemma fill_maxBytes: "maxBytes (fst (fill readFile k st)) = maxBytes st"
  by (auto simp: fill_def clearBackendMessageMemoryIfNeeded_def clearAll_def Let_def
      split: prod.split option.split res.split)

lemma fill_accounted:
  assumes r: "readable readFile" and a: "accounted st"
  shows "accounted (fst (fill readFile k st))"
proof (cases "sm_filled (heap st k)")
  case False
  obtain body where rd: "readFile (sm_path (heap st k)) = (body, None)" and s: "small body"
    using r unfolding readable_def by (metis prod.collapse)
  have k: "k \<notin> set (cached st)" using a False by (simp add: accounted_def)
  let ?m = "msg_load body (of_nat (length body)) (heap st k)"
  show ?thesis
  proof (cases "int (length body) + knownBytes st > maxBytes st")
    case True
    let ?st = "fst (fill readFile k st)"
    have f: "cached ?st = [k]" "knownBytes ?st = int (length body)"
      "heap ?st = (\<lambda>j. if j \<in> set (cached st) then msg_clear (heap st j) else ((heap st)(k := ?m)) j)"
      using False rd k True of_nat_small [OF s]
      by (auto simp: fill_def clearBackendMessageMemoryIfNeeded_def clearAll_def Let_def fun_eq_iff)
    show ?thesis using a k by (auto simp: accounted_def f bytes_def)
  next
    case fits: False
    let ?st = "fst (fill readFile k st)"
    have f: "cached ?st = k # cached st" "knownBytes ?st = knownBytes st + int (length body)"
      "heap ?st = (heap st)(k := ?m)"
      using False rd k fits of_nat_small [OF s]
      by (auto simp: fill_def clearBackendMessageMemoryIfNeeded_def Let_def)
    have b: "bytes ?st j = (if j = k then int (length body) else bytes st j)" for j
      by (simp add: bytes_def f)
    have "map (bytes ?st) (cached st) = map (bytes st) (cached st)"
      using k by (auto simp: b)
    then have "sum_list (map (bytes ?st) (cached st)) = sum_list (map (bytes st) (cached st))"
      by (rule arg_cong)
    moreover have "sm_filled (heap ?st j) \<longleftrightarrow> j = k \<or> sm_filled (heap st j)" for j by (simp add: f(3))
    ultimately show ?thesis using a k fits by (simp add: accounted_def f(1,2) b fill_maxBytes)
  qed
qed (use a in \<open>simp add: fill_def\<close>)

lemma fills_accounted:
  "\<forall>c \<in> set cs. readable (snd c) \<Longrightarrow> accounted st \<Longrightarrow> accounted (fills cs st)"
  by (induction cs arbitrary: st) (simp_all add: fill_accounted)

lemma initial_accounted: "\<forall>k. h k = msg_clear (h k) \<Longrightarrow> accounted (initialMemory parsed h)"
  by (auto simp: accounted_def initialMemory_def bytes_def) (metis msg_simps)+


definition emptyMessage :: "string \<Rightarrow> serverMessage" where
  "emptyMessage p = \<lparr>sm_path = p, sm_filled = False,
     sm_msg = \<lparr>mm_uid = 1, mm_date = 0, mm_flags = [], mm_size = 0, mm_body = []\<rparr>\<rparr>"

lemma clear_emptyMessage [simp]: "msg_clear (emptyMessage p) = emptyMessage p"
  by (simp add: emptyMessage_def msg_clear_def)


text \<open>
  A read that fails registers the message with the bytes it got, none for a file that is missing. When
  a later read succeeds the message is already known, and its bytes are never counted.
\<close>

lemma fill_fails:
  assumes "k \<notin> set (cached st)" "\<not> sm_filled (heap st k)" "knownBytes st \<le> maxBytes st"
  shows "fst (fill (\<lambda>_. ([], Some e)) k st) = st\<lparr>cached := k # cached st\<rparr>"
  using assms by (simp add: fill_def clearBackendMessageMemoryIfNeeded_def Let_def)

lemma fails_register:
  assumes "distinct ks" "set ks \<inter> set (cached st) = {}" "\<forall>k. \<not> sm_filled (heap st k)" "knownBytes st \<le> maxBytes st"
  shows "fills (map (\<lambda>k. (k, \<lambda>_. ([], Some e))) ks) st = st\<lparr>cached := rev ks @ cached st\<rparr>"
  using assms
proof (induction ks arbitrary: st)
  case (Cons k ks)
  from Cons.IH [of "st\<lparr>cached := k # cached st\<rparr>"] Cons.prems show ?case by (simp add: fill_fails)
qed simp

lemma reads_uncounted:
  assumes "distinct ks" "set ks \<subseteq> set (cached st)" "\<forall>k \<in> set ks. \<not> sm_filled (heap st k)" "small body"
  shows "knownBytes (fills (map (\<lambda>k. (k, \<lambda>_. (body, None))) ks) st) = knownBytes st \<and>
    cached (fills (map (\<lambda>k. (k, \<lambda>_. (body, None))) ks) st) = cached st \<and>
    (\<forall>k \<in> set ks. bytes (fills (map (\<lambda>k. (k, \<lambda>_. (body, None))) ks) st) k = int (length body)) \<and>
    (\<forall>k. k \<notin> set ks \<longrightarrow> heap (fills (map (\<lambda>k. (k, \<lambda>_. (body, None))) ks) st) k = heap st k)"
  using assms
proof (induction ks arbitrary: st)
  case (Cons k ks)
  let ?st = "st\<lparr>heap := (heap st)(k := msg_load body (of_nat (length body)) (heap st k))\<rparr>"
  have f: "fst (fill (\<lambda>_. (body, None)) k st) = ?st"
    using Cons.prems of_nat_small [OF Cons.prems(4)]
    by (simp add: fill_def clearBackendMessageMemoryIfNeeded_def)
  let ?t = "fills (map (\<lambda>k. (k, \<lambda>_. (body, None))) ks) ?st"
  have IH: "knownBytes ?t = knownBytes st \<and> cached ?t = cached st \<and>
      (\<forall>j \<in> set ks. bytes ?t j = int (length body)) \<and> (\<forall>j. j \<notin> set ks \<longrightarrow> heap ?t j = heap ?st j)"
  proof -
    have "distinct ks" "set ks \<subseteq> set (cached ?st)" "\<forall>j \<in> set ks. \<not> sm_filled (heap ?st j)"
      using Cons.prems by auto
    note IH = Cons.IH [OF this Cons.prems(4)]
    have kc: "knownBytes ?st = knownBytes st" "cached ?st = cached st" by simp_all
    show ?thesis using IH unfolding kc by blast
  qed
  then have "heap ?t k = heap ?st k" using Cons.prems(1) by simp
  then have "bytes ?t k = int (length body)" by (simp add: bytes_def)
  with IH show ?case by (simp add: f)
qed simp

text \<open>
  After failed reads the limit is void: whatever the limit, there is a sequence of calls after which
  the memory keeps more bytes than any given number, while it counts none of them.
\<close>

theorem failed_reads_escape_the_limit:
  assumes "\<forall>k. h k = msg_clear (h k)" "0 \<le> maxBytes (initialMemory parsed h)"
  shows "\<exists>cs. \<exists>st :: backendMemory. st = fills cs (initialMemory parsed h) \<and>
    knownBytes st = 0 \<and> sum_list (map (bytes st) (cached st)) > int n"
proof -
  let ?s0 = "initialMemory parsed h" and ?ks = "[0..<Suc n]"
  let ?bad = "map (\<lambda>k. (k, \<lambda>_. ([], Some ''no such file''))) ?ks"
    and ?good = "map (\<lambda>k. (k, \<lambda>_. (''x'', None))) ?ks"
  have u: "\<not> sm_filled (h k)" for k using assms(1) by (metis msg_simps(5))
  have fills_append: "fills (xs @ ys) st = fills ys (fills xs st)" for xs ys st
    by (induction xs arbitrary: st) simp_all
  have b: "fills ?bad ?s0 = ?s0\<lparr>cached := rev ?ks\<rparr>"
    using fails_register [of ?ks ?s0 "''no such file''"] u assms(2) by (simp add: initialMemory_def)
  let ?st = "fills ?good (?s0\<lparr>cached := rev ?ks\<rparr>)"
  have g: "knownBytes ?st = 0 \<and> cached ?st = rev ?ks \<and> (\<forall>k \<in> set ?ks. bytes ?st k = 1)"
    using reads_uncounted [of ?ks "?s0\<lparr>cached := rev ?ks\<rparr>" "''x''"] u
    by (simp add: initialMemory_def small_def maxInt32_def)
  have "map (bytes ?st) (rev ?ks) = map (\<lambda>_. 1) (rev ?ks)" using g by (intro map_cong) auto
  then have "sum_list (map (bytes ?st) (cached ?st)) = int (Suc n)"
    using g by (simp only: sum_list_triv) (simp add: sum_list_triv)
  then show ?thesis
    using g b fills_append [of ?bad ?good ?s0] by (intro exI [of _ "?bad @ ?good"]) simp
qed

lemma failed_reads_escape_the_limit_witness:
  "\<exists>cs. \<exists>st :: backendMemory. st = fills cs (initialMemory (Inr 0) (\<lambda>_. emptyMessage ''p'')) \<and>
    knownBytes st = 0 \<and> sum_list (map (bytes st) (cached st)) > 5"
  using failed_reads_escape_the_limit [of "\<lambda>_. emptyMessage ''p''" "Inr 0" 5]
  by (simp add: initialMemory_def intFromEnvWithDefault_def)

end
