(* ===== verification/CacheLocks.thy ===== *)
theory CacheLocks
  imports Cache
begin

text \<open>
  \<open>serverMessage.fill\<close>, \<open>clear\<close> and \<open>clearBackendMessageMemoryIfNeeded\<close> when several connections of the
  local server work at the same time: the same code as in \<open>Cache\<close>, step by step under the mutex of each
  message and the mutex of the shared memory.
\<close>

section \<open>Model\<close>

text \<open>
  Where a thread is in \<open>Fetch\<close>: before \<open>m.lock.Lock()\<close>; holding \<open>m.lock\<close>; before \<open>backendMem.lock.Lock()\<close>
  with the number of bytes read and the error; holding both locks; behind \<open>fill\<close>, where \<open>m.msg\<close> is used
  without a lock; and the ways to end.
\<close>

datatype fetch_pc =
    Idle
  | Enter nat
  | Filling nat
  | Registering nat int "gerr option"
  | Evicting nat int "gerr option"
  | Using nat
  | Fetched nat memMessage
  | Failed nat gerr
  | Crashed nat string

record sharing =
  mem :: backendMemory
  msgLock :: "nat \<Rightarrow> nat option"
  memLock :: "nat option"
  pcs :: "nat \<Rightarrow> fetch_pc"

definition exceeds :: "int \<Rightarrow> backendMemory \<Rightarrow> bool" where
  "exceeds n st \<longleftrightarrow> n + knownBytes st > maxBytes st"

definition evictOne :: "nat \<Rightarrow> backendMemory \<Rightarrow> backendMemory" where
  "evictOne j st = st\<lparr>heap := (heap st)(j := msg_clear (heap st j)), cached := remove1 j (cached st)\<rparr>"

definition registerMessage :: "nat \<Rightarrow> int \<Rightarrow> backendMemory \<Rightarrow> backendMemory" where
  "registerMessage k n st =
     (if k \<in> set (cached st) then st
      else st\<lparr>cached := k # cached st, knownBytes := (if exceeds n st then 0 else knownBytes st) + n\<rparr>)"

inductive fetchStep :: "(string \<Rightarrow> string \<times> gerr option) \<Rightarrow> sharing \<Rightarrow> sharing \<Rightarrow> bool" for readFile where
  enter: "pcs s t = Enter k \<Longrightarrow> msgLock s k = None \<Longrightarrow>
    fetchStep readFile s (s\<lparr>msgLock := (msgLock s)(k := Some t), pcs := (pcs s)(t := Filling k)\<rparr>)"
| filled: "pcs s t = Filling k \<Longrightarrow> sm_filled (heap (mem s) k) \<Longrightarrow>
    fetchStep readFile s (s\<lparr>msgLock := (msgLock s)(k := None), pcs := (pcs s)(t := Using k)\<rparr>)"
| read: "pcs s t = Filling k \<Longrightarrow> \<not> sm_filled (heap (mem s) k) \<Longrightarrow>
    readFile (sm_path (heap (mem s) k)) = (body, None) \<Longrightarrow> intToUint32 (of_nat (length body)) = Ok n \<Longrightarrow>
    fetchStep readFile s (s\<lparr>mem := (mem s)\<lparr>heap := (heap (mem s))(k := msg_load body n (heap (mem s) k))\<rparr>,
      pcs := (pcs s)(t := Registering k (int (length body)) None)\<rparr>)"
| readError: "pcs s t = Filling k \<Longrightarrow> \<not> sm_filled (heap (mem s) k) \<Longrightarrow>
    readFile (sm_path (heap (mem s) k)) = (body, Some e) \<Longrightarrow>
    fetchStep readFile s (s\<lparr>pcs := (pcs s)(t := Registering k (int (length body)) (Some e))\<rparr>)"
| crash: "pcs s t = Filling k \<Longrightarrow> \<not> sm_filled (heap (mem s) k) \<Longrightarrow>
    readFile (sm_path (heap (mem s) k)) = (body, None) \<Longrightarrow> intToUint32 (of_nat (length body)) = Panic p \<Longrightarrow>
    fetchStep readFile s (s\<lparr>msgLock := (msgLock s)(k := None), pcs := (pcs s)(t := Crashed k p)\<rparr>)"
| lockMemory: "pcs s t = Registering k n e \<Longrightarrow> memLock s = None \<Longrightarrow>
    fetchStep readFile s (s\<lparr>memLock := Some t, pcs := (pcs s)(t := Evicting k n e)\<rparr>)"
| evict: "pcs s t = Evicting k n e \<Longrightarrow> k \<notin> set (cached (mem s)) \<Longrightarrow> exceeds n (mem s) \<Longrightarrow>
    j \<in> set (cached (mem s)) \<Longrightarrow> msgLock s j = None \<Longrightarrow>
    fetchStep readFile s (s\<lparr>mem := evictOne j (mem s)\<rparr>)"
| registered: "pcs s t = Evicting k n e \<Longrightarrow>
    k \<in> set (cached (mem s)) \<or> \<not> exceeds n (mem s) \<or> cached (mem s) = [] \<Longrightarrow>
    fetchStep readFile s (s\<lparr>mem := registerMessage k n (mem s), memLock := None,
      msgLock := (msgLock s)(k := None),
      pcs := (pcs s)(t := (case e of None \<Rightarrow> Using k | Some x \<Rightarrow> Failed k x))\<rparr>)"
| take_msg: "pcs s t = Using k \<Longrightarrow>
    fetchStep readFile s (s\<lparr>pcs := (pcs s)(t := Fetched k (sm_msg (heap (mem s) k)))\<rparr>)"

text \<open>Thread \<open>t\<close> fetches the \<open>t\<close>-th message of a list.\<close>

definition fetchStart :: "nat list \<Rightarrow> backendMemory \<Rightarrow> sharing" where
  "fetchStart ks st = \<lparr>mem = st, msgLock = (\<lambda>_. None), memLock = None,
     pcs = (\<lambda>t. if t < length ks then Enter (ks ! t) else Idle)\<rparr>"

inductive_cases fetchStepE: "fetchStep readFile s s'"

section \<open>One thread alone computes \<open>fill\<close>\<close>

text \<open>The loop that clears all messages, in the order of the list.\<close>

definition evictAll :: "backendMemory \<Rightarrow> backendMemory" where
  "evictAll st = st\<lparr>cached := [],
     heap := (\<lambda>j. if j \<in> set (cached st) then msg_clear (heap st j) else heap st j)\<rparr>"

lemma evictAll_Nil: "cached st = [] \<Longrightarrow> evictAll st = st"
  by (cases st) (simp add: evictAll_def)

lemma evictAll_evictOne:
  "distinct (cached st) \<Longrightarrow> j \<in> set (cached st) \<Longrightarrow> evictAll (evictOne j st) = evictAll st"
  by (cases st) (auto simp: evictAll_def evictOne_def fun_eq_iff)

lemma evict_all:
  assumes "pcs s t = Evicting k n e" "k \<notin> set (cached (mem s))" "exceeds n (mem s)"
    and "\<forall>j \<in> set (cached (mem s)). msgLock s j = None" "distinct (cached (mem s))"
  shows "(fetchStep readFile)\<^sup>*\<^sup>* s (s\<lparr>mem := evictAll (mem s)\<rparr>)"
  using assms
proof (induction "cached (mem s)" arbitrary: s)
  case Nil
  then show ?case by (cases s) (simp add: evictAll_Nil)
next
  case (Cons j js)
  let ?s = "s\<lparr>mem := evictOne j (mem s)\<rparr>"
  from Cons.hyps(2) [symmetric] Cons.prems have m: "js = cached (mem ?s)" "exceeds n (mem ?s)" "j \<notin> set js"
    by (auto simp: evictOne_def exceeds_def)
  have "fetchStep readFile s ?s"
    using Cons.prems Cons.hyps(2) [symmetric] by (intro fetchStep.evict) auto
  moreover have "(fetchStep readFile)\<^sup>*\<^sup>* ?s (?s\<lparr>mem := evictAll (mem ?s)\<rparr>)"
    using Cons.hyps(2) [symmetric] Cons.prems m by (intro Cons.hyps(1)) auto
  moreover have "?s\<lparr>mem := evictAll (mem ?s)\<rparr> = s\<lparr>mem := evictAll (mem s)\<rparr>"
    using Cons.hyps(2) [symmetric] Cons.prems(5) by (simp add: evictAll_evictOne)
  ultimately show ?case by (metis converse_rtranclp_into_rtranclp)
qed

lemma register_alone:
  assumes "pcs s t = Registering k n e" "memLock s = None" "distinct (cached (mem s))"
    and "\<forall>j. j \<noteq> k \<longrightarrow> msgLock s j = None"
  shows "(fetchStep readFile)\<^sup>*\<^sup>* s (s\<lparr>mem := clearBackendMessageMemoryIfNeeded k n (mem s),
    msgLock := (msgLock s)(k := None), pcs := (pcs s)(t := (case e of None \<Rightarrow> Using k | Some x \<Rightarrow> Failed k x))\<rparr>)"
    (is "rtranclp _ _ ?s'")
proof -
  let ?s1 = "s\<lparr>memLock := Some t, pcs := (pcs s)(t := Evicting k n e)\<rparr>"
  have l: "fetchStep readFile s ?s1" using assms(1,2) by (rule fetchStep.lockMemory)
  show ?thesis
  proof (cases "k \<in> set (cached (mem s)) \<or> \<not> exceeds n (mem s)")
    case True
    have r: "fetchStep readFile ?s1 (?s1\<lparr>mem := registerMessage k n (mem ?s1), memLock := None,
      msgLock := (msgLock ?s1)(k := None),
      pcs := (pcs ?s1)(t := (case e of None \<Rightarrow> Using k | Some x \<Rightarrow> Failed k x))\<rparr>)" (is "fetchStep _ _ ?s2")
      using True by (intro fetchStep.registered) auto
    have "?s2 = ?s'"
      using True assms(2) by (cases s) (auto simp: registerMessage_def clearBackendMessageMemoryIfNeeded_def exceeds_def)
    with l r show ?thesis by (metis r_into_rtranclp rtranclp.rtrancl_into_rtrancl)
  next
    case False
    let ?s2 = "?s1\<lparr>mem := evictAll (mem s)\<rparr>"
    have e: "(fetchStep readFile)\<^sup>*\<^sup>* ?s1 ?s2"
      using evict_all [of ?s1 t k n e readFile] False assms by (auto, metis)
    have r: "fetchStep readFile ?s2 (?s2\<lparr>mem := registerMessage k n (mem ?s2), memLock := None,
      msgLock := (msgLock ?s2)(k := None),
      pcs := (pcs ?s2)(t := (case e of None \<Rightarrow> Using k | Some x \<Rightarrow> Failed k x))\<rparr>)" (is "fetchStep _ _ ?s3")
      by (intro fetchStep.registered) (auto simp: evictAll_def)
    have "?s3 = ?s'"
      using False assms(2)
      by (cases s) (auto simp: registerMessage_def clearBackendMessageMemoryIfNeeded_def exceeds_def
          clearAll_def evictAll_def)
    with converse_rtranclp_into_rtranclp [of "fetchStep readFile", OF l
        rtranclp.rtrancl_into_rtrancl [of "fetchStep readFile", OF e r]]
    show ?thesis by (simp only:)
  qed
qed

text \<open>The whole call: from a state in which nobody holds a lock to the result of \<open>fill\<close>.\<close>

lemma fill_alone:
  assumes "pcs s t = Enter k" "\<forall>j. msgLock s j = None" "memLock s = None" "distinct (cached (mem s))"
    and f: "fill readFile k (mem s) = (st', Ok r)"
  shows "(fetchStep readFile)\<^sup>*\<^sup>* s
    (s\<lparr>mem := st', pcs := (pcs s)(t := (case r of None \<Rightarrow> Using k | Some e \<Rightarrow> Failed k e))\<rparr>)"
proof -
  let ?s1 = "s\<lparr>msgLock := (msgLock s)(k := Some t), pcs := (pcs s)(t := Filling k)\<rparr>"
  have ml: "(msgLock s)(k := None) = msgLock s" using assms(2) by auto
  have e: "fetchStep readFile s ?s1" using assms(1,2) by (intro fetchStep.enter) auto
  have p: "pcs ?s1 t = Filling k" by simp
  show ?thesis
  proof (cases "sm_filled (heap (mem s) k)")
    case True
    have "fetchStep readFile ?s1 (?s1\<lparr>msgLock := (msgLock ?s1)(k := None), pcs := (pcs ?s1)(t := Using k)\<rparr>)"
      using True by (intro fetchStep.filled [OF p]) simp
    moreover have "?s1\<lparr>msgLock := (msgLock ?s1)(k := None), pcs := (pcs ?s1)(t := Using k)\<rparr> =
        s\<lparr>mem := st', pcs := (pcs s)(t := (case r of None \<Rightarrow> Using k | Some e \<Rightarrow> Failed k e))\<rparr>"
      using f True ml by (auto simp: fill_def)
    ultimately show ?thesis using e by (metis r_into_rtranclp rtranclp.rtrancl_into_rtrancl)
  next
    case False
    obtain body x where rd: "readFile (sm_path (heap (mem s) k)) = (body, x)" by fastforce
    have "\<exists>s2. fetchStep readFile ?s1 s2 \<and> pcs s2 = (pcs ?s1)(t := Registering k (int (length body)) x) \<and>
        memLock s2 = None \<and> msgLock s2 = msgLock ?s1 \<and> cached (mem s2) = cached (mem s) \<and> r = x \<and>
        st' = clearBackendMessageMemoryIfNeeded k (int (length body)) (mem s2)"
    proof (cases x)
      case None
      obtain n where n: "intToUint32 (of_nat (length body)) = Ok n"
        using f False rd None by (auto simp: fill_def split: res.splits)
      show ?thesis
        by (rule exI, rule conjI, rule fetchStep.read [OF p])
          (use False rd None n f assms in \<open>auto simp: fill_def\<close>)
    next
      case (Some e)
      show ?thesis
        by (rule exI, rule conjI, rule fetchStep.readError [OF p])
          (use False rd Some f assms in \<open>auto simp: fill_def\<close>)
    qed
    then obtain s2 where s2: "fetchStep readFile ?s1 s2"
      "pcs s2 = (pcs ?s1)(t := Registering k (int (length body)) x)" "memLock s2 = None"
      "msgLock s2 = msgLock ?s1" "cached (mem s2) = cached (mem s)" "r = x"
      "st' = clearBackendMessageMemoryIfNeeded k (int (length body)) (mem s2)" by blast
    have "(fetchStep readFile)\<^sup>*\<^sup>* s2 (s2\<lparr>mem := st', msgLock := (msgLock s2)(k := None),
        pcs := (pcs s2)(t := (case x of None \<Rightarrow> Using k | Some x \<Rightarrow> Failed k x))\<rparr>)"
      unfolding s2(7) using s2 assms by (intro register_alone) auto
    moreover have "s2\<lparr>mem := st', msgLock := (msgLock s2)(k := None),
        pcs := (pcs s2)(t := (case x of None \<Rightarrow> Using k | Some x \<Rightarrow> Failed k x))\<rparr> =
        s\<lparr>mem := st', pcs := (pcs s)(t := (case r of None \<Rightarrow> Using k | Some e \<Rightarrow> Failed k e))\<rparr>"
      using s2 ml assms(3) by (cases s; cases s2) auto
    ultimately show ?thesis using e s2(1) by (metis converse_rtranclp_into_rtranclp)
  qed
qed

section \<open>Systems that come to rest\<close>

text \<open>
  What every protocol over locks has to show: an invariant, a weight that each step decreases, and a
  step from every state that is not finished.
\<close>

locale ranked_system =
  fixes step :: "'s \<Rightarrow> 's \<Rightarrow> bool" and ok :: "'s \<Rightarrow> bool" and weight :: "'s \<Rightarrow> nat" and finished :: "'s \<Rightarrow> bool"
  assumes ok_step: "ok s \<Longrightarrow> step s s' \<Longrightarrow> ok s'"
    and weight_step: "ok s \<Longrightarrow> step s s' \<Longrightarrow> weight s' < weight s"
    and progress: "ok s \<Longrightarrow> finished s \<or> (\<exists>s'. step s s')"
begin

lemma ok_run: "step\<^sup>*\<^sup>* s s' \<Longrightarrow> ok s \<Longrightarrow> ok s'"
  by (induction rule: rtranclp_induct) (blast intro: ok_step)+

lemma run_bound: "(step ^^ n) s s' \<Longrightarrow> ok s \<Longrightarrow> ok s' \<and> n + weight s' \<le> weight s"
proof (induction n arbitrary: s')
  case (Suc n)
  then obtain u where u: "(step ^^ n) s u" "step u s'" by auto
  with Suc show ?case using ok_step [of u s'] weight_step [of u s'] by fastforce
qed simp

lemma rests_finished: "step\<^sup>*\<^sup>* s s' \<Longrightarrow> ok s \<Longrightarrow> \<nexists>s''. step s' s'' \<Longrightarrow> finished s'"
  using ok_run progress by blast

lemma can_finish: "ok s \<Longrightarrow> \<exists>s'. step\<^sup>*\<^sup>* s s' \<and> finished s'"
proof (induction "weight s" arbitrary: s rule: less_induct)
  case less
  show ?case
  proof (cases "finished s")
    case False
    then obtain u where u: "step s u" using progress [OF less.prems] by blast
    from less.hyps [OF weight_step [OF less.prems u] ok_step [OF less.prems u]]
    show ?thesis using u by (meson converse_rtranclp_into_rtranclp)
  qed blast
qed

end

section \<open>No deadlock while files can be read\<close>

fun holdsMsg :: "fetch_pc \<Rightarrow> nat \<Rightarrow> bool" where
  "holdsMsg (Filling k) j = (j = k)"
| "holdsMsg (Registering k n e) j = (j = k)"
| "holdsMsg (Evicting k n e) j = (j = k)"
| "holdsMsg _ j = False"

fun holdsMem :: "fetch_pc \<Rightarrow> bool" where
  "holdsMem (Evicting k n e) = True"
| "holdsMem _ = False"

text \<open>A message that is being registered is filled and not in the memory, and reading it has not failed.\<close>

fun fresh :: "backendMemory \<Rightarrow> fetch_pc \<Rightarrow> bool" where
  "fresh st (Registering k n e) = (k \<notin> set (cached st) \<and> sm_filled (heap st k) \<and> e = None)"
| "fresh st (Evicting k n e) = (k \<notin> set (cached st) \<and> sm_filled (heap st k) \<and> e = None)"
| "fresh st (Failed k e) = False"
| "fresh st (Crashed k p) = False"
| "fresh st _ = True"

fun returned :: "fetch_pc \<Rightarrow> bool" where
  "returned Idle = True"
| "returned (Fetched k m) = True"
| "returned _ = False"

fun pcWeight :: "fetch_pc \<Rightarrow> nat" where
  "pcWeight (Enter k) = 6"
| "pcWeight (Filling k) = 5"
| "pcWeight (Registering k n e) = 4"
| "pcWeight (Evicting k n e) = 3"
| "pcWeight (Using k) = 1"
| "pcWeight _ = 0"

definition lock_inv :: "sharing \<Rightarrow> bool" where
  "lock_inv s \<longleftrightarrow>
     (\<forall>t. memLock s = Some t \<longleftrightarrow> holdsMem (pcs s t)) \<and>
     (\<forall>t k. msgLock s k = Some t \<longleftrightarrow> holdsMsg (pcs s t) k)"

definition fresh_inv :: "sharing \<Rightarrow> bool" where
  "fresh_inv s \<longleftrightarrow>
     (\<forall>k \<in> set (cached (mem s)). sm_filled (heap (mem s) k)) \<and> distinct (cached (mem s)) \<and>
     (\<forall>t. fresh (mem s) (pcs s t))"

definition fetch_ok :: "(string \<Rightarrow> string \<times> gerr option) \<Rightarrow> nat \<Rightarrow> sharing \<Rightarrow> bool" where
  "fetch_ok readFile N s \<longleftrightarrow>
     readable readFile \<and> lock_inv s \<and> fresh_inv s \<and> (\<forall>t. N \<le> t \<longrightarrow> pcs s t = Idle)"

definition fetchWeight :: "nat \<Rightarrow> sharing \<Rightarrow> nat" where
  "fetchWeight N s = (\<Sum>t<N. pcWeight (pcs s t)) + length (cached (mem s))"

lemma lock_inv_free:
  "lock_inv s \<Longrightarrow> msgLock s k = None \<Longrightarrow> \<not> holdsMsg (pcs s t) k"
  "lock_inv s \<Longrightarrow> memLock s = None \<Longrightarrow> \<not> holdsMem (pcs s t)"
  unfolding lock_inv_def by (metis option.distinct(1))+

lemma lock_inv_excl:
  "lock_inv s \<Longrightarrow> holdsMsg (pcs s t) k \<Longrightarrow> holdsMsg (pcs s u) k \<Longrightarrow> u = t"
  "lock_inv s \<Longrightarrow> holdsMem (pcs s t) \<Longrightarrow> holdsMem (pcs s u) \<Longrightarrow> u = t"
  unfolding lock_inv_def by (metis option.inject)+

text \<open>The program counter of a thread and the locks change together.\<close>

lemma lock_inv_update:
  assumes "lock_inv s" "\<forall>u. u \<noteq> t \<longrightarrow> pcs s' u = pcs s u"
    and "\<forall>k. msgLock s' k = (if holdsMsg (pcs s' t) k then Some t else if holdsMsg (pcs s t) k then None else msgLock s k)"
    and "memLock s' = (if holdsMem (pcs s' t) then Some t else if holdsMem (pcs s t) then None else memLock s)"
    and "\<And>k u. holdsMsg (pcs s' t) k \<Longrightarrow> holdsMsg (pcs s u) k \<Longrightarrow> u = t"
    and "\<And>u. holdsMem (pcs s' t) \<Longrightarrow> holdsMem (pcs s u) \<Longrightarrow> u = t"
  shows "lock_inv s'"
  unfolding lock_inv_def
proof (intro conjI allI)
  fix u k
  show "memLock s' = Some u \<longleftrightarrow> holdsMem (pcs s' u)"
    using assms(1,2,4,6) lock_inv_excl(2) [OF assms(1)]
    unfolding lock_inv_def by (cases "u = t") (auto split: if_splits)
  show "msgLock s' k = Some u \<longleftrightarrow> holdsMsg (pcs s' u) k"
    using assms(1,2,3,5) lock_inv_excl(1) [OF assms(1)]
    unfolding lock_inv_def by (cases "u = t") (auto split: if_splits)
qed

lemma lock_inv_step:
  assumes "fetchStep readFile s s'" "lock_inv s" shows "lock_inv s'"
  using assms(1)
proof cases
  case (enter t k)
  show ?thesis
    by (rule lock_inv_update [OF assms(2), of t])
      (use enter lock_inv_free [OF assms(2)] in \<open>auto\<close>)
next
  case (lockMemory t k n e)
  show ?thesis
    by (rule lock_inv_update [OF assms(2), of t])
      (use lockMemory lock_inv_free [OF assms(2)] lock_inv_excl [OF assms(2), of t] assms(2)
        in \<open>auto simp: lock_inv_def\<close>)
next
  case (registered t k n e)
  show ?thesis
    by (rule lock_inv_update [OF assms(2), of t]) (use registered in \<open>auto split: option.splits\<close>)
next
  case (filled t k)
  show ?thesis by (rule lock_inv_update [OF assms(2), of t]) (use filled in \<open>auto\<close>)
next
  case (read t k body n)
  show ?thesis
    by (rule lock_inv_update [OF assms(2), of t])
      (use read lock_inv_excl [OF assms(2), of t] assms(2) in \<open>auto simp: lock_inv_def\<close>)
next
  case (readError t k body e)
  show ?thesis
    by (rule lock_inv_update [OF assms(2), of t])
      (use readError lock_inv_excl [OF assms(2), of t] assms(2) in \<open>auto simp: lock_inv_def\<close>)
next
  case (crash t k body p)
  show ?thesis by (rule lock_inv_update [OF assms(2), of t]) (use crash in \<open>auto\<close>)
next
  case (take_msg t k)
  show ?thesis by (rule lock_inv_update [OF assms(2), of t]) (use take_msg in \<open>auto\<close>)
next
  case (evict t k n e j)
  with assms(2) show ?thesis by (simp add: lock_inv_def)
qed

lemma fresh_mono:
  assumes "fresh st pc" "\<And>k. holdsMsg pc k \<Longrightarrow> k \<notin> set (cached st) \<Longrightarrow> k \<notin> set (cached st')"
    and "\<And>k. holdsMsg pc k \<Longrightarrow> k \<notin> set (cached st) \<Longrightarrow> sm_filled (heap st k) \<Longrightarrow> sm_filled (heap st' k)"
  shows "fresh st' pc"
  using assms by (cases pc) auto

lemma readable_small: "readable readFile \<Longrightarrow> readFile p = (body, e) \<Longrightarrow> e = None \<and> small body"
  unfolding readable_def by (metis fst_conv snd_conv)

lemma fresh_inv_step:
  assumes "fetchStep readFile s s'" "lock_inv s" "fresh_inv s" "readable readFile" shows "fresh_inv s'"
proof -
  have f: "fresh (mem s) (pcs s t)" for t using assms(3) by (simp add: fresh_inv_def)
  have c: "k \<in> set (cached (mem s)) \<Longrightarrow> sm_filled (heap (mem s) k)" for k
    using assms(3) by (simp add: fresh_inv_def)
  have d: "distinct (cached (mem s))" using assms(3) by (simp add: fresh_inv_def)
  from assms(1) show ?thesis
  proof cases
    case (read t k body n)
    have "fresh (mem s') (pcs s' u)" for u
      using read c f [of u] by (cases "u = t") (auto intro!: fresh_mono [OF f])
    then show ?thesis using read c d by (simp add: fresh_inv_def)
  next
    case (readError t k body e)
    then show ?thesis using readable_small [OF assms(4)] by blast
  next
    case (crash t k body p)
    then show ?thesis using readable_small [OF assms(4), of "sm_path (heap (mem s) k)"] of_nat_small by fastforce
  next
    case (evict t k n e j)
    have "fresh (mem s') (pcs s' u)" for u
      using evict d by (auto simp: evictOne_def intro!: fresh_mono [OF f [of u]])
    then show ?thesis using evict c d by (auto simp: fresh_inv_def evictOne_def)
  next
    case (registered t k n e)
    have k: "k \<notin> set (cached (mem s))" "sm_filled (heap (mem s) k)" "e = None"
      using f [of t] registered(2) by auto
    have "fresh (mem s') (pcs s' u)" for u
    proof (cases "u = t")
      case False
      then have "\<not> holdsMsg (pcs s u) k"
        using lock_inv_excl(1) [OF assms(2), of t k u] registered(2) by auto
      then show ?thesis
        using registered False by (auto simp: registerMessage_def intro!: fresh_mono [OF f [of u]])
    qed (use registered k in simp)
    then show ?thesis using registered k c d by (auto simp: fresh_inv_def registerMessage_def)
  next
    case (lockMemory t k n e)
    then show ?thesis using f c d f [of t] by (auto simp: fresh_inv_def)
  qed (use f c d in \<open>auto simp: fresh_inv_def\<close>)
qed

text \<open>Every step decreases the weight; a message that is registered pays for its eviction.\<close>

lemma fetchWeight_update:
  assumes "t < N" "\<forall>u. u \<noteq> t \<longrightarrow> pcs s' u = pcs s u"
    and "pcWeight (pcs s' t) + length (cached (mem s')) < pcWeight (pcs s t) + length (cached (mem s))"
  shows "fetchWeight N s' < fetchWeight N s"
proof -
  have s: "(\<Sum>u<N. pcWeight (pcs x u)) = pcWeight (pcs x t) + (\<Sum>u\<in>{..<N} - {t}. pcWeight (pcs x u))" for x :: sharing
    using assms(1) by (simp add: sum.remove)
  have "(\<Sum>u\<in>{..<N} - {t}. pcWeight (pcs s' u)) = (\<Sum>u\<in>{..<N} - {t}. pcWeight (pcs s u))"
    using assms(2) by (intro sum.cong) auto
  with assms(3) show ?thesis by (simp add: fetchWeight_def s)
qed

lemma fetch_weight_step:
  assumes "fetchStep readFile s s'" "fetch_ok readFile N s" shows "fetchWeight N s' < fetchWeight N s"
proof -
  have N: "t < N" if "pcs s t \<noteq> Idle" for t
    using assms(2) that unfolding fetch_ok_def by (meson not_le)
  from assms(1) show ?thesis
  proof cases
    case (evict t k n e j)
    have "length (cached (mem s')) < length (cached (mem s))"
      using evict length_pos_if_in_set [of j "cached (mem s)"] by (simp add: evictOne_def length_remove1)
    with evict show ?thesis by (simp add: fetchWeight_def)
  next
    case (registered t k n e)
    then show ?thesis using N [of t]
      by (intro fetchWeight_update [of t]) (auto simp: registerMessage_def split: option.split)
  next
    case (enter t k)
    then show ?thesis using N [of t] by (intro fetchWeight_update [of t]) auto
  next
    case (filled t k)
    then show ?thesis using N [of t] by (intro fetchWeight_update [of t]) auto
  next
    case (read t k body n)
    then show ?thesis using N [of t] by (intro fetchWeight_update [of t]) auto
  next
    case (readError t k body e)
    then show ?thesis using N [of t] by (intro fetchWeight_update [of t]) auto
  next
    case (crash t k body p)
    then show ?thesis using N [of t] by (intro fetchWeight_update [of t]) auto
  next
    case (lockMemory t k n e)
    then show ?thesis using N [of t] by (intro fetchWeight_update [of t]) auto
  next
    case (take_msg t k)
    then show ?thesis using N [of t] by (intro fetchWeight_update [of t]) auto
  qed
qed

lemma fetch_ok_step:
  assumes "fetchStep readFile s s'" "fetch_ok readFile N s" shows "fetch_ok readFile N s'"
proof -
  have "pcs s' t = Idle" if "pcs s t = Idle" for t
    using assms(1) that by (cases) auto
  with assms lock_inv_step fresh_inv_step show ?thesis by (auto simp: fetch_ok_def)
qed

text \<open>A message lock that somebody needs is held by a thread that can go on.\<close>

lemma holder_progress:
  assumes "readable readFile" "pcs s t = Filling k" shows "\<exists>s'. fetchStep readFile s s'"
proof (cases "sm_filled (heap (mem s) k)")
  case True
  then show ?thesis using fetchStep.filled [OF assms(2), of readFile] by blast
next
  case False
  obtain body e where rd: "readFile (sm_path (heap (mem s) k)) = (body, e)" by fastforce
  from readable_small [OF assms(1) rd] have e: "e = None" "small body" by auto
  show ?thesis using fetchStep.read [OF assms(2) False] rd e of_nat_small [OF e(2)] by blast
qed

lemma fetch_progress:
  assumes ok: "fetch_ok readFile N s" shows "(\<forall>t. returned (pcs s t)) \<or> (\<exists>s'. fetchStep readFile s s')"
proof -
  have r: "readable readFile" and l: "lock_inv s" and f: "fresh_inv s"
    using ok by (simp_all add: fetch_ok_def)
  have fr: "fresh (mem s) (pcs s t)" for t using f by (simp add: fresh_inv_def)
  show ?thesis
  proof (cases "memLock s")
    case (Some t)
    then have "holdsMem (pcs s t)" using l unfolding lock_inv_def by metis
    then obtain k n e where pc: "pcs s t = Evicting k n e" by (cases "pcs s t") auto
    show ?thesis
    proof (cases "exceeds n (mem s) \<and> cached (mem s) \<noteq> []")
      case True
      then obtain j where j: "j \<in> set (cached (mem s))" by (cases "cached (mem s)") auto
      have k: "k \<notin> set (cached (mem s))" using fr [of t] pc by simp
      show ?thesis
      proof (cases "msgLock s j")
        case None
        with True pc j k show ?thesis using fetchStep.evict [of s t k n e j] by blast
      next
        case (Some u)
        then have "holdsMsg (pcs s u) j" using l by (simp add: lock_inv_def)
        then have "pcs s u = Filling j" using fr [of u] j by (cases "pcs s u") auto
        with holder_progress [OF r] show ?thesis by blast
      qed
    next
      case False
      then show ?thesis using fetchStep.registered [OF pc] by blast
    qed
  next
    case free: None
    show ?thesis
    proof (cases "\<forall>t. returned (pcs s t)")
      case False
      then obtain t where t: "\<not> returned (pcs s t)" by blast
      have reg: "\<exists>s'. fetchStep readFile s s'" if "pcs s u = Registering k n e" for u k n e
        using fetchStep.lockMemory [OF that free] by blast
      show ?thesis
      proof (cases "pcs s t")
        case (Enter k)
        show ?thesis
        proof (cases "msgLock s k")
          case None
          with Enter show ?thesis using fetchStep.enter by blast
        next
          case (Some u)
          then have "holdsMsg (pcs s u) k" using l by (simp add: lock_inv_def)
          moreover have "\<not> holdsMem (pcs s u)" using l free by (simp add: lock_inv_free)
          ultimately show ?thesis using reg [of u] holder_progress [OF r, of s u]
            by (cases "pcs s u") auto
        qed
      next
        case (Evicting k n e)
        then show ?thesis using lock_inv_free(2) [OF l free, of t] by simp
      next
        case (Using k)
        then show ?thesis using fetchStep.take_msg by blast
      qed (use t fr [of t] reg [of t] holder_progress [OF r, of s t] in auto)
    qed blast
  qed
qed

interpretation fetches: ranked_system "fetchStep readFile" "fetch_ok readFile N" "fetchWeight N"
    "\<lambda>s. \<forall>t. returned (pcs s t)" for readFile N
  by unfold_locales (use fetch_ok_step fetch_weight_step fetch_progress in blast)+

lemma fetchStart_ok:
  assumes "readable readFile" "distinct (cached st)" "\<forall>k \<in> set (cached st). sm_filled (heap st k)"
  shows "fetch_ok readFile (length ks) (fetchStart ks st)"
  using assms by (simp add: fetch_ok_def lock_inv_def fresh_inv_def fetchStart_def)

lemma fetchStart_weight: "fetchWeight (length ks) (fetchStart ks st) = 6 * length ks + length (cached st)"
  by (simp add: fetchWeight_def fetchStart_def)

text \<open>A thread keeps working on its message.\<close>

fun target :: "fetch_pc \<Rightarrow> nat option" where
  "target Idle = None"
| "target (Enter k) = Some k"
| "target (Filling k) = Some k"
| "target (Registering k n e) = Some k"
| "target (Evicting k n e) = Some k"
| "target (Using k) = Some k"
| "target (Fetched k m) = Some k"
| "target (Failed k e) = Some k"
| "target (Crashed k p) = Some k"

lemma target_step: "fetchStep readFile s s' \<Longrightarrow> target (pcs s' t) = target (pcs s t)"
  by (cases rule: fetchStep.cases) (auto split: option.splits)

lemma target_run:
  "(fetchStep readFile)\<^sup>*\<^sup>* s s' \<Longrightarrow> target (pcs s' t) = target (pcs s t)"
  by (induction rule: rtranclp_induct) (simp_all add: target_step)

text \<open>
  C21: While every file can be read, connections that fetch messages at the same time never block each
  other: every run ends after a bounded number of steps, and then every thread has its message.
\<close>

theorem fetches_never_deadlock:
  assumes "readable readFile" "distinct (cached st)" "\<forall>k \<in> set (cached st). sm_filled (heap st k)"
    and "(fetchStep readFile ^^ n) (fetchStart ks st) s"
  shows "n \<le> 6 * length ks + length (cached st) \<and>
    ((\<nexists>s'. fetchStep readFile s s') \<longrightarrow> (\<forall>t < length ks. \<exists>m. pcs s t = Fetched (ks ! t) m))"
proof (intro conjI impI allI)
  note ok = fetchStart_ok [OF assms(1-3), of ks]
  note b = fetches.run_bound [OF assms(4) ok]
  then show "n \<le> 6 * length ks + length (cached st)" by (simp add: fetchStart_weight)
  fix t assume "\<nexists>s'. fetchStep readFile s s'" "t < length ks"
  moreover have "target (pcs s t) = target (pcs (fetchStart ks st) t)"
    by (rule target_run) (rule relpowp_imp_rtranclp [OF assms(4)])
  ultimately have "returned (pcs s t)" "target (pcs s t) = Some (ks ! t)"
    using fetch_progress [of readFile "length ks" s] b by (auto simp: fetchStart_def)
  then show "\<exists>m. pcs s t = Fetched (ks ! t) m" by (cases "pcs s t") auto
qed

section \<open>What can go wrong\<close>

lemma run_more: "R s s' \<Longrightarrow> \<exists>u. R\<^sup>*\<^sup>* s' u \<and> P u \<Longrightarrow> \<exists>u. R\<^sup>*\<^sup>* s u \<and> P u"
  by (meson converse_rtranclp_into_rtranclp)

lemma run_done: "P s \<Longrightarrow> \<exists>u. R\<^sup>*\<^sup>* s u \<and> P u"
  by blast

text \<open>Two messages whose files hold one byte, and a limit of zero.\<close>

definition oneByte :: "string \<Rightarrow> string \<times> gerr option" where
  "oneByte p = (''x'', None)"

lemma one_byte: "intToUint32 (of_nat (length ''x'')) = Ok 1"
  by (simp add: intToUint32_def maxInt32_def)

lemmas trace_simps = fetchStart_def initialMemory_def exceeds_def evictOne_def registerMessage_def
  emptyMessage_def msg_load_def msg_clear_def oneByte_def one_byte [simplified] intFromEnvWithDefault_def

text \<open>
  C38: After one failed read two connections can block each other for good, although the file can be
  read by now: the message is registered without being filled, so one thread holds its lock and waits
  for the memory while the other holds the memory and waits for the message to clear it.
\<close>

theorem failed_read_can_deadlock:
  "\<exists>s :: sharing. (fetchStep oneByte)\<^sup>*\<^sup>*
      (fetchStart [0, 1] (fst (fill (\<lambda>_. ([], Some ''not found'')) 0
        (initialMemory (Inr 0) (\<lambda>_. emptyMessage ''p''))))) s \<and>
    (\<exists>n e. pcs s 0 = Registering 0 n e) \<and> (\<exists>n e. pcs s 1 = Evicting 1 n e) \<and>
    (\<nexists>s'. fetchStep oneByte s s')"
proof -
  have st: "fst (fill (\<lambda>_. ([], Some ''not found'')) 0 (initialMemory (Inr 0) (\<lambda>_. emptyMessage ''p''))) =
      \<lparr>heap = (\<lambda>_. emptyMessage ''p''), knownBytes = 0, maxBytes = 0, cached = [0]\<rparr>"
    by (simp add: fill_def clearBackendMessageMemoryIfNeeded_def trace_simps)
  show ?thesis
    unfolding st
    apply (rule run_more, rule fetchStep.enter [of _ 0 0])
      apply (simp_all add: trace_simps)
    apply (rule run_more, rule fetchStep.read [of _ 0 0 _ "''x''" 1])
        apply (simp_all add: trace_simps)
    apply (rule run_more, rule fetchStep.enter [of _ 1 1])
      apply (simp_all add: trace_simps)
    apply (rule run_more, rule fetchStep.read [of _ 1 1 _ "''x''" 1])
        apply (simp_all add: trace_simps)
    apply (rule run_more, rule fetchStep.lockMemory [of _ 1 1 1 None])
      apply (simp_all add: trace_simps)
    apply (rule run_done)
    apply (auto elim!: fetchStepE simp: trace_simps split: if_splits)
    done
qed

text \<open>What a thread knows about its message once it has read it.\<close>

fun knows :: "(nat \<Rightarrow> serverMessage option) \<Rightarrow> fetch_pc \<Rightarrow> bool" where
  "knows L (Registering k n None) = (L k \<noteq> None)"
| "knows L (Evicting k n None) = (L k \<noteq> None)"
| "knows L (Using k) = (L k \<noteq> None)"
| "knows L (Fetched k m) = (\<exists>m0. L k = Some m0 \<and> (m = sm_msg m0 \<or> m = sm_msg (msg_clear m0)))"
| "knows L _ = True"

definition view_inv :: "(string \<Rightarrow> string \<times> gerr option) \<Rightarrow> backendMemory \<Rightarrow> sharing \<Rightarrow> bool" where
  "view_inv readFile st s \<longleftrightarrow>
     memory_inv readFile (mem s) \<and> (\<forall>k. msg_clear (heap (mem s) k) = msg_clear (heap st k)) \<and>
     (\<forall>t. knows (\<lambda>k. loaded readFile (heap st k)) (pcs s t))"

lemma memory_inv_content:
  assumes "memory_inv readFile st" "msg_clear (heap st k) = msg_clear m"
  shows "sm_filled (heap st k) \<Longrightarrow> loaded readFile m = Some (heap st k)"
    and "\<not> sm_filled (heap st k) \<Longrightarrow> heap st k = msg_clear m"
proof -
  have l: "loaded readFile m = loaded readFile (heap st k)" by (rule loaded_clear) (simp add: assms(2))
  show "loaded readFile m = Some (heap st k)" if "sm_filled (heap st k)"
  proof -
    from assms(1) that obtain body where "readFile (sm_path (heap st k)) = (body, None)"
      "heap st k = msg_load body (of_nat (length body)) (heap st k)" unfolding memory_inv_def by metis
    then show ?thesis unfolding l by (simp add: loaded_def)
  qed
  show "heap st k = msg_clear m" if "\<not> sm_filled (heap st k)"
    using assms that unfolding memory_inv_def by metis
qed

lemma loaded_msg_clear: "loaded readFile m = Some m0 \<Longrightarrow> msg_clear m0 = msg_clear m"
  by (auto simp: loaded_def split: prod.splits option.splits)

lemma view_inv_step:
  assumes "fetchStep readFile s s'" "view_inv readFile st s" shows "view_inv readFile st s'"
proof -
  have mi: "memory_inv readFile (mem s)" and cl: "\<And>k. msg_clear (heap (mem s) k) = msg_clear (heap st k)"
    and kn: "\<And>t. knows (\<lambda>k. loaded readFile (heap st k)) (pcs s t)"
    using assms(2) by (simp_all add: view_inv_def)
  from assms(1) show ?thesis
  proof cases
    case (filled t k)
    with memory_inv_content(1) [OF mi cl] mi cl kn show ?thesis by (auto simp: view_inv_def)
  next
    case (read t k body n)
    have sm: "small body" using mi read(4) unfolding memory_inv_def by (metis fst_conv)
    have n: "n = of_nat (length body)" using read(5) of_nat_small [OF sm] by simp
    have "loaded readFile (heap st k) = loaded readFile (heap (mem s) k)" by (rule loaded_clear) (simp add: cl)
    then have "loaded readFile (heap st k) \<noteq> None" using read(4) by (simp add: loaded_def)
    moreover have "memory_inv readFile (mem s')" using mi read n unfolding memory_inv_def by auto
    ultimately show ?thesis using read cl kn by (auto simp: view_inv_def)
  next
    case (evict t k n e j)
    have "memory_inv readFile (mem s')" using mi evict unfolding memory_inv_def by (auto simp: evictOne_def)
    with cl kn evict show ?thesis by (auto simp: view_inv_def evictOne_def)
  next
    case (registered t k n e)
    have m: "heap (mem s') = heap (mem s)" using registered by (simp add: registerMessage_def)
    then have "memory_inv readFile (mem s')" using mi unfolding memory_inv_def by simp
    then show ?thesis using cl kn kn [of t] m registered by (cases e) (auto simp: view_inv_def)
  next
    case (take_msg t k)
    then obtain m0 where m0: "loaded readFile (heap st k) = Some m0" using kn [of t] by auto
    have "sm_msg (heap (mem s) k) = sm_msg m0 \<or> sm_msg (heap (mem s) k) = sm_msg (msg_clear m0)"
      using memory_inv_content [OF mi cl [of k]] m0 loaded_msg_clear [OF m0]
      by (cases "sm_filled (heap (mem s) k)") auto
    then show ?thesis using mi cl kn m0 take_msg by (auto simp: view_inv_def)
  next
    case (lockMemory t k n e)
    then show ?thesis using mi cl kn kn [of t] by (cases e) (auto simp: view_inv_def)
  qed (use mi cl kn in \<open>auto simp: view_inv_def\<close>)
qed

lemma view_inv_run:
  "(fetchStep readFile)\<^sup>*\<^sup>* s s' \<Longrightarrow> view_inv readFile st s \<Longrightarrow> view_inv readFile st s'"
  by (induction rule: rtranclp_induct) (simp_all add: view_inv_step)

lemma fetchStart_view: "memory_inv readFile st \<Longrightarrow> view_inv readFile st (fetchStart ks st)"
  by (simp add: view_inv_def fetchStart_def)

text \<open>A run of two threads in which the second one clears the message of the first.\<close>

lemma empty_trace:
  "\<exists>s :: sharing. (fetchStep oneByte)\<^sup>*\<^sup>* (fetchStart [0, 1] (initialMemory (Inr 0) (\<lambda>_. emptyMessage ''p''))) s \<and>
    (\<exists>m. pcs s 0 = Fetched 0 m \<and> mm_body m = [])"
  apply (rule run_more, rule fetchStep.enter [of _ 0 0])
    apply (simp_all add: trace_simps)
  apply (rule run_more, rule fetchStep.read [of _ 0 0 _ "''x''" 1])
      apply (simp_all add: trace_simps)
  apply (rule run_more, rule fetchStep.lockMemory [of _ 0 0 1 None])
    apply (simp_all add: trace_simps)
  apply (rule run_more, rule fetchStep.registered [of _ 0 0 1 None])
    apply (simp_all add: trace_simps)
  apply (rule run_more, rule fetchStep.enter [of _ 1 1])
    apply (simp_all add: trace_simps)
  apply (rule run_more, rule fetchStep.read [of _ 1 1 _ "''x''" 1])
      apply (simp_all add: trace_simps)
  apply (rule run_more, rule fetchStep.lockMemory [of _ 1 1 1 None])
    apply (simp_all add: trace_simps)
  apply (rule run_more, rule fetchStep.evict [of _ 1 1 1 None 0])
       apply (simp_all add: trace_simps)
  apply (rule run_more, rule fetchStep.take_msg [of _ 0 0])
   apply (simp_all add: trace_simps)
  apply (rule run_done)
  apply simp
  done



text \<open>A complete run of one thread, for the witness.\<close>

lemma one_thread_trace:
  "\<exists>s :: sharing. (fetchStep oneByte)\<^sup>*\<^sup>*
      (fetchStart [0] (initialMemory (Inr 0) (\<lambda>_. emptyMessage ''p''))) s \<and> (\<nexists>s'. fetchStep oneByte s s')"
  apply (rule run_more, rule fetchStep.enter [of _ 0 0])
    apply (simp_all add: trace_simps)
  apply (rule run_more, rule fetchStep.read [of _ 0 0 _ "''x''" 1])
      apply (simp_all add: trace_simps)
  apply (rule run_more, rule fetchStep.lockMemory [of _ 0 0 1 None])
    apply (simp_all add: trace_simps)
  apply (rule run_more, rule fetchStep.registered [of _ 0 0 1 None])
    apply (simp_all add: trace_simps)
  apply (rule run_more, rule fetchStep.take_msg [of _ 0 0])
   apply (simp_all add: trace_simps)
  apply (rule run_done)
  apply (auto elim!: fetchStepE split: if_splits)
  done

lemma fetches_never_deadlock_witness:
  "\<exists>s :: sharing. \<exists>n. n \<le> 6 \<and> (fetchStep oneByte ^^ n) (fetchStart [0] (initialMemory (Inr 0) (\<lambda>_. emptyMessage ''p''))) s \<and>
    (\<exists>m. pcs s 0 = Fetched 0 m)"
proof -
  let ?st = "initialMemory (Inr 0) (\<lambda>_. emptyMessage ''p'')"
  obtain s :: sharing and n where s: "(fetchStep oneByte ^^ n) (fetchStart [0] ?st) s" "\<nexists>s'. fetchStep oneByte s s'"
    using one_thread_trace rtranclp_imp_relpowp by metis
  have r: "readable oneByte" by (simp add: readable_def oneByte_def small_def maxInt32_def)
  have c: "distinct (cached ?st)" "\<forall>k \<in> set (cached ?st). sm_filled (heap ?st k)"
    by (simp_all add: initialMemory_def)
  from fetches_never_deadlock [OF r c s(1)] s show ?thesis by (auto simp: initialMemory_def)
qed

end
