(* ===== verification/Server.thy ===== *)
theory Server
  imports Cache Maildir Threading
begin

text \<open>
  The local read-only IMAP server's backend, \<open>core/srvbackend_mailbox.go\<close>, \<open>core/srvbackend_user.go\<close>
  and \<open>core/srvbackend.go\<close>: the mailboxes of a user are the maildirs below a directory, their messages
  the files in \<open>new\<close> and \<open>cur\<close>. The IMAP library's part (sequence sets, fetching items of a message,
  matching criteria, flag operations) is a parameter; \<open>os.ReadDir\<close> is the parameter \<open>readDir\<close>.
\<close>

section \<open>Mailboxes\<close>

record serverMailbox =
  maildir :: maildirPathT
  messages :: "nat list"

text \<open>The messages in memory and the next free address.\<close>

record serverHeap =
  memory :: backendMemory
  nextAddr :: nat

definition errReadOnlyServer :: gerr where
  "errReadOnlyServer = ''cannot execute action, this is a read-only IMAP server''"

definition mb_Name :: "serverMailbox \<Rightarrow> string" where
  "mb_Name mb = folderName (maildir mb)"

record mailboxInfo =
  mi_delimiter :: string
  mi_name :: string

definition mb_Info :: "serverMailbox \<Rightarrow> mailboxInfo" where
  "mb_Info mb = \<lparr>mi_delimiter = ''/'', mi_name = folderName (maildir mb)\<rparr>"

subsection \<open>Status\<close>

datatype statusItem =
  StatusMessages | StatusUidNext | StatusUidValidity | StatusRecent | StatusUnseen | StatusAppendLimit
  | OtherStatus string

record serverStatus =
  st_Name :: string
  st_Flags :: "string list"
  st_PermanentFlags :: "string list"
  st_UnseenSeqNum :: u32
  st_ReadOnly :: bool
  st_Messages :: u32
  st_UidNext :: u32
  st_UidValidity :: u32
  st_Recent :: u32
  st_Unseen :: u32
  st_AppendLimit :: u32

fun setItems :: "serverMailbox \<Rightarrow> statusItem list \<Rightarrow> serverStatus \<Rightarrow> serverStatus res" where
  "setItems mb [] st = Ok st"
| "setItems mb (item # items) st =
     bind_res
       (case item of
          StatusMessages \<Rightarrow>
            bind_res (intToUint32 (of_nat (length (messages mb)))) (\<lambda>n. Ok (st\<lparr>st_Messages := n\<rparr>))
        | StatusUidNext \<Rightarrow>
            bind_res (intToUint32 (of_nat (length (messages mb)))) (\<lambda>n. Ok (st\<lparr>st_UidNext := n + 1\<rparr>))
        | StatusUidValidity \<Rightarrow> Ok (st\<lparr>st_UidValidity := 1\<rparr>)
        | StatusRecent \<Rightarrow> Ok (st\<lparr>st_Recent := 0\<rparr>)
        | StatusUnseen \<Rightarrow> Ok (st\<lparr>st_Unseen := 0\<rparr>)
        | StatusAppendLimit \<Rightarrow> Ok (st\<lparr>st_AppendLimit := 0\<rparr>)
        | OtherStatus n \<Rightarrow> Ok st)
       (setItems mb items)"

text \<open>
  \<open>newStatus\<close> is \<open>imap.NewMailboxStatus\<close>, \<open>iter\<close> the iteration over a map, here the set of all flags
  that some message has.
\<close>

definition mb_Status ::
    "(string \<Rightarrow> statusItem list \<Rightarrow> serverStatus) \<Rightarrow> (string list \<Rightarrow> string list) \<Rightarrow> serverMailbox \<Rightarrow>
      statusItem list \<Rightarrow> backendMemory \<Rightarrow> serverStatus res" where
  "mb_Status newStatus iter mb items mem =
     (let allFlags = remdups (concat (map (\<lambda>k. mm_flags (sm_msg (heap mem k))) (messages mb)));
          flags = iter allFlags in
      setItems mb items
        ((newStatus (folderName (maildir mb)) items)
           \<lparr>st_Flags := flags, st_PermanentFlags := [CHR 0x5C # ''*''],
            st_UnseenSeqNum := 0, st_ReadOnly := True\<rparr>))"

subsection \<open>Reading messages\<close>

text \<open>
  The loops of \<open>ListMessages\<close>, \<open>SearchMessages\<close> and \<open>UpdateMessagesFlags\<close>: \<open>idx\<close> is the index of the
  first message of the list.
\<close>

fun listLoop ::
    "(memMessage \<Rightarrow> u32 \<Rightarrow> gerr + 'a) \<Rightarrow> (u32 \<Rightarrow> bool) \<Rightarrow> (string \<Rightarrow> string \<times> gerr option) \<Rightarrow>
      nat \<Rightarrow> nat list \<Rightarrow> backendMemory \<Rightarrow> backendMemory \<times> 'a list \<times> unit res" where
  "listLoop fetch inSet readFile idx [] mem = (mem, [], Ok ())"
| "listLoop fetch inSet readFile idx (k # ks) mem =
     (case intToUint32 (of_nat (idx + 1)) of
        Ok uidAndIdx \<Rightarrow>
          (if inSet uidAndIdx then
             (case withMessage fetch readFile k uidAndIdx mem of
                (mem, Ok (Inr fetched)) \<Rightarrow>
                  (case listLoop fetch inSet readFile (idx + 1) ks mem of
                     (mem, sent, r) \<Rightarrow> (mem, fetched # sent, r))
              | (mem, Ok (Inl e)) \<Rightarrow> listLoop fetch inSet readFile (idx + 1) ks mem
              | (mem, Err e) \<Rightarrow> (mem, [], Err e)
              | (mem, Panic p) \<Rightarrow> (mem, [], Panic p))
           else listLoop fetch inSet readFile (idx + 1) ks mem)
      | Err e \<Rightarrow> (mem, [], Err e)
      | Panic p \<Rightarrow> (mem, [], Panic p))"

text \<open>The messages sent on the channel; it is closed in any case.\<close>

definition mb_ListMessages ::
    "(memMessage \<Rightarrow> u32 \<Rightarrow> gerr + 'a) \<Rightarrow> (u32 \<Rightarrow> bool) \<Rightarrow> (string \<Rightarrow> string \<times> gerr option) \<Rightarrow>
      serverMailbox \<Rightarrow> backendMemory \<Rightarrow> backendMemory \<times> 'a list \<times> unit res" where
  "mb_ListMessages fetch inSet readFile mb mem = listLoop fetch inSet readFile 0 (messages mb) mem"

fun searchLoop ::
    "(memMessage \<Rightarrow> u32 \<Rightarrow> gerr + bool) \<Rightarrow> (string \<Rightarrow> string \<times> gerr option) \<Rightarrow>
      nat \<Rightarrow> nat list \<Rightarrow> backendMemory \<Rightarrow> backendMemory \<times> u32 list res" where
  "searchLoop match readFile idx [] mem = (mem, Ok [])"
| "searchLoop match readFile idx (k # ks) mem =
     (case intToUint32 (of_nat (idx + 1)) of
        Ok uidAndIdx \<Rightarrow>
          (case withMessage match readFile k uidAndIdx mem of
             (mem, Ok r) \<Rightarrow>
               (case searchLoop match readFile (idx + 1) ks mem of
                  (mem, Ok found) \<Rightarrow> (mem, Ok (if r = Inr True then uidAndIdx # found else found))
                | (mem, Err e) \<Rightarrow> (mem, Err e)
                | (mem, Panic p) \<Rightarrow> (mem, Panic p))
           | (mem, Err e) \<Rightarrow> (mem, Err e)
           | (mem, Panic p) \<Rightarrow> (mem, Panic p))
      | Err e \<Rightarrow> (mem, Err e)
      | Panic p \<Rightarrow> (mem, Panic p))"

definition mb_SearchMessages ::
    "(memMessage \<Rightarrow> u32 \<Rightarrow> gerr + bool) \<Rightarrow> (string \<Rightarrow> string \<times> gerr option) \<Rightarrow>
      serverMailbox \<Rightarrow> backendMemory \<Rightarrow> backendMemory \<times> u32 list res" where
  "mb_SearchMessages match readFile mb mem = searchLoop match readFile 0 (messages mb) mem"

fun flagsLoop ::
    "(string list \<Rightarrow> string list) \<Rightarrow> (u32 \<Rightarrow> bool) \<Rightarrow> nat \<Rightarrow> nat list \<Rightarrow> backendMemory \<Rightarrow> backendMemory \<times> unit res" where
  "flagsLoop update inSet idx [] mem = (mem, Ok ())"
| "flagsLoop update inSet idx (k # ks) mem =
     (case intToUint32 (of_nat (idx + 1)) of
        Ok uidAndIdx \<Rightarrow>
          flagsLoop update inSet (idx + 1) ks
            (if inSet uidAndIdx
             then mem\<lparr>heap := (heap mem)(k := (heap mem k)\<lparr>sm_msg :=
                    (sm_msg (heap mem k))\<lparr>mm_flags := update (mm_flags (sm_msg (heap mem k)))\<rparr>\<rparr>)\<rparr>
             else mem)
      | Err e \<Rightarrow> (mem, Err e)
      | Panic p \<Rightarrow> (mem, Panic p))"

definition mb_UpdateMessagesFlags ::
    "(string list \<Rightarrow> string list) \<Rightarrow> (u32 \<Rightarrow> bool) \<Rightarrow> serverMailbox \<Rightarrow> backendMemory \<Rightarrow> backendMemory \<times> unit res" where
  "mb_UpdateMessagesFlags update inSet mb mem = flagsLoop update inSet 0 (messages mb) mem"

text \<open>The operations that would change a mailbox.\<close>

definition mb_CreateMessage :: "string list \<Rightarrow> int \<Rightarrow> string \<Rightarrow> gerr option" where
  "mb_CreateMessage flags date body = Some errReadOnlyServer"

definition mb_CopyMessages :: "(u32 \<Rightarrow> bool) \<Rightarrow> string \<Rightarrow> gerr option" where
  "mb_CopyMessages inSet dest = Some errReadOnlyServer"

definition mb_Expunge :: "serverMailbox \<Rightarrow> gerr option" where
  "mb_Expunge mb = Some errReadOnlyServer"

definition mb_SetSubscribed :: "bool \<Rightarrow> gerr option" where
  "mb_SetSubscribed b = None"

definition mb_Check :: "serverMailbox \<Rightarrow> gerr option" where
  "mb_Check mb = None"

subsection \<open>Finding the messages\<close>

text \<open>An entry of a directory; \<open>Info()\<close> gives the modification time, or an error if it is gone.\<close>

record dirEntry =
  de_name :: string
  de_isDir :: bool
  de_info :: "gerr + int"

record pathAndInfo =
  pi_path :: string
  pi_modTime :: int

fun dirFiles :: "string \<Rightarrow> string \<Rightarrow> dirEntry list \<Rightarrow> pathAndInfo list" where
  "dirFiles bse dir [] = []"
| "dirFiles bse dir (d # ds) =
     (case de_info d of
        Inr t \<Rightarrow> \<lparr>pi_path = joinPath [bse, dir, de_name d], pi_modTime = t\<rparr> # dirFiles bse dir ds
      | Inl e \<Rightarrow> dirFiles bse dir ds)"

fun collectFiles :: "(string \<Rightarrow> gerr + dirEntry list) \<Rightarrow> string \<Rightarrow> string list \<Rightarrow> gerr + pathAndInfo list" where
  "collectFiles readDir bse [] = Inr []"
| "collectFiles readDir bse (dir # dirs) =
     (case readDir (joinPath [bse, dir]) of
        Inl e \<Rightarrow> Inl e
      | Inr moreFiles \<Rightarrow>
          (case collectFiles readDir bse dirs of
             Inl e \<Rightarrow> Inl e
           | Inr fs \<Rightarrow> Inr (dirFiles bse dir moreFiles @ fs)))"

definition seenFlag :: string where "seenFlag = CHR 0x5C # ''Seen''"

fun newMessages :: "nat \<Rightarrow> pathAndInfo list \<Rightarrow> serverHeap \<Rightarrow> serverHeap \<times> nat list res" where
  "newMessages idx [] sh = (sh, Ok [])"
| "newMessages idx (f # fs) sh =
     (case intToUint32 (of_nat (idx + 1)) of
        Ok u \<Rightarrow>
          (let a = nextAddr sh;
               m = \<lparr>sm_path = pi_path f, sm_filled = False,
                    sm_msg = \<lparr>mm_uid = u, mm_date = pi_modTime f, mm_flags = [seenFlag], mm_size = 0, mm_body = []\<rparr>\<rparr> in
           case newMessages (idx + 1) fs
               (sh\<lparr>memory := (memory sh)\<lparr>heap := (heap (memory sh))(a := m)\<rparr>, nextAddr := a + 1\<rparr>) of
             (sh, Ok as) \<Rightarrow> (sh, Ok (a # as))
           | (sh, Err e) \<Rightarrow> (sh, Err e)
           | (sh, Panic p) \<Rightarrow> (sh, Panic p))
      | Err e \<Rightarrow> (sh, Err e)
      | Panic p \<Rightarrow> (sh, Panic p))"

text \<open>\<open>sortFiles\<close> is \<open>sort.Slice\<close> by modification time, which is not stable.\<close>

definition addMessages ::
    "(string \<Rightarrow> gerr + dirEntry list) \<Rightarrow> (pathAndInfo list \<Rightarrow> pathAndInfo list) \<Rightarrow> serverMailbox \<Rightarrow>
      serverHeap \<Rightarrow> serverHeap \<times> serverMailbox \<times> gerr option res" where
  "addMessages readDir sortFiles mb sh =
     (case collectFiles readDir (folderPath (maildir mb)) [''new'', ''cur''] of
        Inl e \<Rightarrow> (sh, mb, Ok (Some e))
      | Inr files \<Rightarrow>
          (case newMessages 0 (sortFiles files) sh of
             (sh, Ok as) \<Rightarrow> (sh, mb\<lparr>messages := as\<rparr>, Ok None)
           | (sh, Err e) \<Rightarrow> (sh, mb, Err e)
           | (sh, Panic p) \<Rightarrow> (sh, mb, Panic p)))"

section \<open>Users\<close>

record serverUser =
  user_name :: string
  mailboxes :: "serverMailbox list"

definition user_Username :: "serverUser \<Rightarrow> string" where
  "user_Username u = user_name u"

definition user_ListMailboxes :: "serverUser \<Rightarrow> serverMailbox list" where
  "user_ListMailboxes u = mailboxes u"

fun findMailbox :: "string \<Rightarrow> serverMailbox list \<Rightarrow> gerr + serverMailbox" where
  "findMailbox name [] = Inl (''unknown mailbox '' @ name)"
| "findMailbox name (mb # mbs) = (if folderName (maildir mb) = name then Inr mb else findMailbox name mbs)"

definition user_GetMailbox :: "serverUser \<Rightarrow> string \<Rightarrow> gerr + serverMailbox" where
  "user_GetMailbox u name = findMailbox name (mailboxes u)"

definition user_CreateMailbox :: "string \<Rightarrow> gerr option" where
  "user_CreateMailbox name = Some errReadOnlyServer"

definition user_DeleteMailbox :: "string \<Rightarrow> gerr option" where
  "user_DeleteMailbox name = Some errReadOnlyServer"

definition user_RenameMailbox :: "string \<Rightarrow> string \<Rightarrow> gerr option" where
  "user_RenameMailbox old new = Some errReadOnlyServer"

definition user_Logout :: "serverUser \<Rightarrow> gerr option" where
  "user_Logout u = None"

fun maildirsOf :: "fsys \<Rightarrow> string \<Rightarrow> dirEntry list \<Rightarrow> serverMailbox list res" where
  "maildirsOf fs path [] = Ok []"
| "maildirsOf fs path (d # ds) =
     (let maildirPath = \<lparr>base = path, mfolder = de_name d\<rparr> in
      bind_res (if de_isDir d then isMaildir fs (folderPath maildirPath) else Ok False) (\<lambda>ok.
      bind_res (maildirsOf fs path ds) (\<lambda>boxes.
        Ok (if ok then \<lparr>maildir = maildirPath, messages = []\<rparr> # boxes else boxes))))"

fun addAllMessages ::
    "(string \<Rightarrow> gerr + dirEntry list) \<Rightarrow> (pathAndInfo list \<Rightarrow> pathAndInfo list) \<Rightarrow> serverMailbox list \<Rightarrow>
      threadSafeErrors \<Rightarrow> serverHeap \<Rightarrow> serverHeap \<times> serverMailbox list \<times> threadSafeErrors res" where
  "addAllMessages readDir sortFiles [] es sh = (sh, [], Ok es)"
| "addAllMessages readDir sortFiles (mb # mbs) es sh =
     (case addMessages readDir sortFiles mb sh of
        (sh, mb, Ok e) \<Rightarrow>
          (case addAllMessages readDir sortFiles mbs (errs_add e es) sh of (sh, mbs, r) \<Rightarrow> (sh, mb # mbs, r))
      | (sh, mb, Err e) \<Rightarrow> (sh, mb # mbs, Err e)
      | (sh, mb, Panic p) \<Rightarrow> (sh, mb # mbs, Panic p))"

definition addMailboxes ::
    "fsys \<Rightarrow> (string \<Rightarrow> gerr + dirEntry list) \<Rightarrow> (pathAndInfo list \<Rightarrow> pathAndInfo list) \<Rightarrow> string \<Rightarrow>
      serverUser \<Rightarrow> serverHeap \<Rightarrow> serverHeap \<times> serverUser \<times> gerr option res" where
  "addMailboxes fs readDir sortFiles path u sh =
     (case readDir path of
        Inl e \<Rightarrow> (sh, u, Ok (Some e))
      | Inr dirs \<Rightarrow>
          (case maildirsOf fs path dirs of
             Ok boxes \<Rightarrow>
               (case addAllMessages readDir sortFiles boxes \<lparr>errs = [], verbose = False\<rparr> sh of
                  (sh, boxes, Ok es) \<Rightarrow> (sh, u\<lparr>mailboxes := boxes\<rparr>, Ok (errs_err es))
                | (sh, boxes, Err e) \<Rightarrow> (sh, u\<lparr>mailboxes := boxes\<rparr>, Err e)
                | (sh, boxes, Panic p) \<Rightarrow> (sh, u\<lparr>mailboxes := boxes\<rparr>, Panic p))
           | Err e \<Rightarrow> (sh, u, Err e)
           | Panic p \<Rightarrow> (sh, u, Panic p)))"

section \<open>The backend\<close>

record serverBackend =
  be_path :: string
  be_username :: string
  be_password :: string
  be_user :: serverUser

definition be_Login :: "serverBackend \<Rightarrow> string \<Rightarrow> string \<Rightarrow> gerr + serverUser" where
  "be_Login b username password =
     (if username \<noteq> be_username b then Inl ''bad username or password''
      else if password \<noteq> be_password b then Inl ''bad username or password''
      else Inr (be_user b))"

text \<open>\<open>addUser\<close> within \<open>newBackend\<close>, which returns the backend also with an error.\<close>

definition newBackend ::
    "fsys \<Rightarrow> (string \<Rightarrow> gerr + dirEntry list) \<Rightarrow> (pathAndInfo list \<Rightarrow> pathAndInfo list) \<Rightarrow>
      string \<Rightarrow> string \<Rightarrow> string \<Rightarrow> serverHeap \<Rightarrow> serverHeap \<times> serverBackend \<times> gerr option res" where
  "newBackend fs readDir sortFiles path username password sh =
     (case addMailboxes fs readDir sortFiles path \<lparr>user_name = username, mailboxes = []\<rparr> sh of
        (sh, u, r) \<Rightarrow>
          (sh, \<lparr>be_path = path, be_username = username, be_password = password, be_user = u\<rparr>, r))"

text \<open>A mailbox with two messages for the witnesses.\<close>

definition twoFiles :: "string \<Rightarrow> string \<times> gerr option" where
  "twoFiles p = (p @ ''!'', None)"

definition twoMessages :: backendMemory where
  "twoMessages = initialMemory (Inr 0) (\<lambda>k. emptyMessage (if k = 0 then ''a'' else ''b''))"

definition twoBox :: serverMailbox where
  "twoBox = \<lparr>maildir = \<lparr>base = ''backup'', mfolder = ''INBOX''\<rparr>, messages = [0, 1]\<rparr>"

section \<open>Listing and searching\<close>

text \<open>The messages of a mailbox with their sequence numbers, which are their UIDs.\<close>

fun numbered :: "nat \<Rightarrow> nat list \<Rightarrow> (u32 \<times> nat) list" where
  "numbered idx [] = []"
| "numbered idx (k # ks) = (of_nat (idx + 1), k) # numbered (idx + 1) ks"

lemma withMessage_load:
  assumes "memory_inv readFile mem"
  shows "\<exists>e. withMessage f readFile k u mem =
    (case load_ok readFile k mem of (mem', ok) \<Rightarrow> (mem', Ok (if ok then f (sm_msg (heap mem' k)) u else Inl e)))"
proof -
  obtain mem' r where f: "fill readFile k mem = (mem', r)" by fastforce
  from fill_inv [OF assms f] have "r = Ok None \<or> (\<exists>e. r = Ok (Some e))" by (auto split: option.splits)
  then show ?thesis using f by (auto simp: withMessage_def load_ok_def)
qed

definition fetched :: "(memMessage \<Rightarrow> u32 \<Rightarrow> gerr + 'a) \<Rightarrow> u32 \<times> nat \<Rightarrow> serverMessage \<Rightarrow> 'a list" where
  "fetched fetch j m = (case fetch (sm_msg m) (fst j) of Inr x \<Rightarrow> [x] | Inl e \<Rightarrow> [])"

lemma listLoop_visit:
  assumes "memory_inv readFile mem" "int (idx + length ks) \<le> maxInt32"
  shows "listLoop fetch inSet readFile idx ks mem =
    (case files.visit readFile snd (fetched fetch) (filter (inSet \<circ> fst) (numbered idx ks)) mem of
       (mem', sent) \<Rightarrow> (mem', sent, Ok ()))"
  using assms
proof (induction ks arbitrary: idx mem)
  case (Cons k ks)
  have u: "intToUint32 (of_nat (idx + 1)) = Ok (of_nat (idx + 1))"
    using Cons.prems(2) by (intro intToUint32_of_nat) simp
  have n: "int (idx + 1 + length ks) \<le> maxInt32" using Cons.prems(2) by simp
  obtain mem1 ok where l: "load_ok readFile k mem = (mem1, ok)" by fastforce
  have m1: "memory_inv readFile mem1"
    using files.load_good [OF Cons.prems(1), of k] l by simp
  obtain e where w: "withMessage fetch readFile k (of_nat (idx + 1)) mem =
      (mem1, Ok (if ok then fetch (sm_msg (heap mem1 k)) (of_nat (idx + 1)) else Inl e))"
    using withMessage_load [OF Cons.prems(1), of fetch k "of_nat (idx + 1)"] l by auto
  show ?case
    using Cons.IH [OF m1 n] Cons.IH [OF Cons.prems(1) n] u w l
    by (auto simp: fetched_def split: prod.splits sum.splits)
qed simp

lemma searchLoop_visit:
  assumes "memory_inv readFile mem" "int (idx + length ks) \<le> maxInt32"
  shows "searchLoop match readFile idx ks mem =
    (case files.visit readFile snd (\<lambda>j m. if match (sm_msg m) (fst j) = Inr True then [fst j] else [])
       (numbered idx ks) mem of (mem', found) \<Rightarrow> (mem', Ok found))"
  using assms
proof (induction ks arbitrary: idx mem)
  case (Cons k ks)
  have u: "intToUint32 (of_nat (idx + 1)) = Ok (of_nat (idx + 1))"
    using Cons.prems(2) by (intro intToUint32_of_nat) simp
  have n: "int (idx + 1 + length ks) \<le> maxInt32" using Cons.prems(2) by simp
  obtain mem1 ok where l: "load_ok readFile k mem = (mem1, ok)" by fastforce
  have m1: "memory_inv readFile mem1"
    using files.load_good [OF Cons.prems(1), of k] l by simp
  obtain e where w: "withMessage match readFile k (of_nat (idx + 1)) mem =
      (mem1, Ok (if ok then match (sm_msg (heap mem1 k)) (of_nat (idx + 1)) else Inl e))"
    using withMessage_load [OF Cons.prems(1), of match k "of_nat (idx + 1)"] l by auto
  show ?case
    using Cons.IH [OF m1 n] u w l by (auto split: prod.splits)
qed simp

text \<open>Two files with names of at most one letter.\<close>

lemma twoMessages_inv: "memory_inv (\<lambda>p. if length p \<le> 1 then twoFiles p else ([], Some enoent)) twoMessages"
  by (auto simp: memory_inv_def twoFiles_def small_def maxInt32_def twoMessages_def initialMemory_def)
    (simp_all add: emptyMessage_def)

lemmas two_simps = loaded_def twoFiles_def twoMessages_def twoBox_def initialMemory_def emptyMessage_def
  msg_load_def fetched_def

lemma listing:
  assumes "memory_inv readFile mem" "int (length (messages mb)) \<le> maxInt32"
    and "mb_ListMessages fetch inSet readFile mb mem = (mem', sent, r)"
  shows "r = Ok () \<and> memory_inv readFile mem' \<and>
    (\<forall>k. msg_clear (heap mem' k) = msg_clear (heap mem k)) \<and>
    sent = concat (map (\<lambda>j. case loaded readFile (heap mem (snd j)) of None \<Rightarrow> [] | Some m \<Rightarrow> fetched fetch j m)
      (filter (inSet \<circ> fst) (numbered 0 (messages mb))))"
proof -
  let ?js = "filter (inSet \<circ> fst) (numbered 0 (messages mb))"
  obtain mem1 sent1 where v: "files.visit readFile snd (fetched fetch) ?js mem = (mem1, sent1)" by fastforce
  then have e: "mem' = mem1" "sent = sent1" "r = Ok ()"
    using assms(3) listLoop_visit [OF assms(1), of 0 "messages mb" fetch inSet] assms(2)
    by (simp_all add: mb_ListMessages_def)
  have l: "loaded readFile (msg_clear m) = loaded readFile m" for m by (rule loaded_clear) simp
  from files.visit_view [OF assms(1) v] e show ?thesis
    by (simp add: l fun_eq_iff cong: option.case_cong)
qed

text \<open>
  C22: Listing a mailbox never fails: it sends, in order, what the library makes of every selected
  message with the content of its file, and leaves out those whose file cannot be read. What is in the
  shared memory, and how often it is cleared meanwhile, makes no difference.
\<close>

theorem list_messages_spec:
  assumes "memory_inv readFile mem" "int (length (messages mb)) \<le> maxInt32"
    and "mb_ListMessages fetch inSet readFile mb mem = (mem', sent, r)"
  shows "r = Ok () \<and> memory_inv readFile mem' \<and>
    (\<forall>k. msg_clear (heap mem' k) = msg_clear (heap mem k)) \<and>
    sent = concat (map (\<lambda>j. case loaded readFile (heap mem (snd j)) of None \<Rightarrow> [] | Some m \<Rightarrow> fetched fetch j m)
      (filter (inSet \<circ> fst) (numbered 0 (messages mb))))"
  using listing [OF assms] .

lemma list_messages_spec_witness:
  "fst (snd (mb_ListMessages (\<lambda>m u. Inr (mm_body m)) (\<lambda>u. True)
     (\<lambda>p. if length p \<le> 1 then twoFiles p else ([], Some enoent)) twoBox twoMessages)) = [''a!'', ''b!'']"
proof -
  let ?l = "mb_ListMessages (\<lambda>m u. Inr (mm_body m) :: gerr + string) (\<lambda>u. True)
     (\<lambda>p. if length p \<le> 1 then twoFiles p else ([], Some enoent)) twoBox twoMessages"
  have l: "int (length (messages twoBox)) \<le> maxInt32" by (simp add: twoBox_def maxInt32_def)
  have "?l = (fst ?l, fst (snd ?l), snd (snd ?l))" by simp
  from list_messages_spec [OF twoMessages_inv l this] show ?thesis by (simp add: two_simps)
qed

text \<open>
  A search never fails and finds exactly the numbers of the messages whose file can be read and
  whose content matches.
\<close>

theorem search_messages_spec:
  assumes "memory_inv readFile mem" "int (length (messages mb)) \<le> maxInt32"
    and "mb_SearchMessages match readFile mb mem = (mem', r)"
  shows "memory_inv readFile mem' \<and>
    r = Ok (map fst (filter (\<lambda>j. \<exists>m. loaded readFile (heap mem (snd j)) = Some m \<and> match (sm_msg m) (fst j) = Inr True)
      (numbered 0 (messages mb))))"
proof -
  let ?f = "\<lambda>j m. if match (sm_msg m) (fst j) = Inr True then [fst j] else []"
  obtain mem1 found where v: "files.visit readFile snd ?f (numbered 0 (messages mb)) mem = (mem1, found)" by fastforce
  then have e: "mem' = mem1" "r = Ok found"
    using assms(3) searchLoop_visit [OF assms(1), of 0 "messages mb" match] assms(2)
    by (simp_all add: mb_SearchMessages_def)
  have l: "loaded readFile (msg_clear m) = loaded readFile m" for m by (rule loaded_clear) simp
  have "concat (map (\<lambda>j. case loaded readFile (heap mem (snd j)) of None \<Rightarrow> [] | Some m \<Rightarrow> ?f j m) js) =
      map fst (filter (\<lambda>j. \<exists>m. loaded readFile (heap mem (snd j)) = Some m \<and> match (sm_msg m) (fst j) = Inr True) js)" for js
    by (induction js) (auto split: option.splits)
  with files.visit_view [OF assms(1) v] e show ?thesis by (simp add: l)
qed

lemma search_messages_spec_witness:
  "snd (mb_SearchMessages (\<lambda>m u. Inr (mm_body m = ''b!''))
     (\<lambda>p. if length p \<le> 1 then twoFiles p else ([], Some enoent)) twoBox twoMessages) = Ok [2]"
proof -
  let ?l = "mb_SearchMessages (\<lambda>m u. Inr (mm_body m = ''b!''))
     (\<lambda>p. if length p \<le> 1 then twoFiles p else ([], Some enoent)) twoBox twoMessages"
  have l: "int (length (messages twoBox)) \<le> maxInt32" by (simp add: twoBox_def maxInt32_def)
  have "?l = (fst ?l, snd ?l)" by simp
  from search_messages_spec [OF twoMessages_inv l this] show ?thesis by (simp add: two_simps)
qed

section \<open>Requests never change what a mailbox serves\<close>

text \<open>The requests of any number of clients, one after the other.\<close>

datatype request =
    ListRequest "u32 \<Rightarrow> bool"
  | SearchRequest "memMessage \<Rightarrow> u32 \<Rightarrow> gerr + bool"
  | FlagsRequest "string list \<Rightarrow> string list" "u32 \<Rightarrow> bool"

fun handle ::
    "(string \<Rightarrow> string \<times> gerr option) \<Rightarrow> serverMailbox \<times> request \<Rightarrow> backendMemory \<Rightarrow> backendMemory" where
  "handle readFile (mb, ListRequest inSet) mem = fst (mb_ListMessages (\<lambda>m u. Inr m) inSet readFile mb mem)"
| "handle readFile (mb, SearchRequest match) mem = fst (mb_SearchMessages match readFile mb mem)"
| "handle readFile (mb, FlagsRequest update inSet) mem = fst (mb_UpdateMessagesFlags update inSet mb mem)"

definition handleAll ::
    "(string \<Rightarrow> string \<times> gerr option) \<Rightarrow> (serverMailbox \<times> request) list \<Rightarrow> backendMemory \<Rightarrow> backendMemory" where
  "handleAll readFile rs mem = foldl (\<lambda>mem r. handle readFile r mem) mem rs"

text \<open>What requests cannot change: path, UID and date.\<close>

definition noFlags :: "serverMessage \<Rightarrow> serverMessage" where
  "noFlags m = (msg_clear m)\<lparr>sm_msg := (sm_msg (msg_clear m))\<lparr>mm_flags := []\<rparr>\<rparr>"

definition setFlags :: "string list \<Rightarrow> serverMessage \<Rightarrow> serverMessage" where
  "setFlags fl m = m\<lparr>sm_msg := (sm_msg m)\<lparr>mm_flags := fl\<rparr>\<rparr>"

lemma setFlags_simps [simp]:
  "sm_path (setFlags fl m) = sm_path m" "sm_filled (setFlags fl m) = sm_filled m"
  "msg_clear (setFlags fl m) = setFlags fl (msg_clear m)"
  "msg_load b n (setFlags fl m) = setFlags fl (msg_load b n m)"
  "noFlags (setFlags fl m) = noFlags m"
  by (simp_all add: setFlags_def msg_clear_def msg_load_def noFlags_def)

lemma noFlags_clear: "msg_clear m = msg_clear m' \<Longrightarrow> noFlags m = noFlags m'"
  by (simp add: noFlags_def)

lemma memory_inv_setFlags:
  assumes "memory_inv readFile mem"
  shows "memory_inv readFile (mem\<lparr>heap := (heap mem)(k := setFlags fl (heap mem k))\<rparr>)"
proof -
  let ?m = "heap mem k"
  have "if sm_filled ?m
    then \<exists>body. readFile (sm_path ?m) = (body, None) \<and>
      setFlags fl ?m = msg_load body (of_nat (length body)) (setFlags fl ?m)
    else setFlags fl ?m = msg_clear (setFlags fl ?m)"
    using assms unfolding memory_inv_def setFlags_simps by metis
  then show ?thesis using assms unfolding memory_inv_def by (auto split: if_splits)
qed

lemma flagsLoop_Cons:
  "flagsLoop update inSet idx (k # ks) mem =
     (case intToUint32 (of_nat (idx + 1)) of
        Ok u \<Rightarrow> flagsLoop update inSet (idx + 1) ks
          (if inSet u then mem\<lparr>heap := (heap mem)(k := setFlags (update (mm_flags (sm_msg (heap mem k)))) (heap mem k))\<rparr>
           else mem)
      | Err e \<Rightarrow> (mem, Err e)
      | Panic p \<Rightarrow> (mem, Panic p))"
  by (simp only: flagsLoop.simps setFlags_def)

lemma flagsLoop_inv:
  assumes "memory_inv readFile mem"
  shows "memory_inv readFile (fst (flagsLoop update inSet idx ks mem)) \<and>
    noFlags \<circ> heap (fst (flagsLoop update inSet idx ks mem)) = noFlags \<circ> heap mem"
  using assms
proof (induction ks arbitrary: idx mem)
  case (Cons k ks)
  let ?mem = "mem\<lparr>heap := (heap mem)(k := setFlags (update (mm_flags (sm_msg (heap mem k)))) (heap mem k))\<rparr>"
  have m: "memory_inv readFile ?mem" using Cons.prems by (rule memory_inv_setFlags)
  have n: "noFlags \<circ> heap ?mem = noFlags \<circ> heap mem" by (simp add: fun_eq_iff)
  show ?case
    using Cons.IH [OF m] Cons.IH [OF Cons.prems] Cons.prems
    unfolding flagsLoop_Cons n by (simp split: res.split)
qed simp

lemma visit_inv:
  assumes "memory_inv readFile mem" "files.visit readFile key f js mem = (mem', rs)"
  shows "memory_inv readFile mem' \<and> noFlags \<circ> heap mem' = noFlags \<circ> heap mem"
  using files.visit_view [OF assms] by (auto simp: fun_eq_iff intro: noFlags_clear)

lemma handle_inv:
  assumes "memory_inv readFile mem" "int (length (messages mb)) \<le> maxInt32"
  shows "memory_inv readFile (handle readFile (mb, r) mem) \<and>
    noFlags \<circ> heap (handle readFile (mb, r) mem) = noFlags \<circ> heap mem"
proof (cases r)
  case (ListRequest inSet)
  then show ?thesis
    using listLoop_visit [OF assms(1), of 0 "messages mb" "\<lambda>m u. Inr m" inSet] assms(2)
    by (auto simp: mb_ListMessages_def split: prod.split dest: visit_inv [OF assms(1)])
next
  case (SearchRequest match)
  then show ?thesis
    using searchLoop_visit [OF assms(1), of 0 "messages mb" match] assms(2)
    by (auto simp: mb_SearchMessages_def split: prod.split dest: visit_inv [OF assms(1)])
next
  case (FlagsRequest update inSet)
  then show ?thesis using flagsLoop_inv [OF assms(1)] by (simp add: mb_UpdateMessagesFlags_def)
qed



section \<open>The messages of a mailbox\<close>

lemma intToUint32_of_nat_iff:
  assumes "int n \<le> maxInt32 + 1"
  shows "intToUint32 (of_nat n) = Ok u \<longleftrightarrow> int n \<le> maxInt32 \<and> u = of_nat n"
proof (cases "int n \<le> maxInt32")
  case False
  have "int n < 2 ^ 63" using assms by (simp add: maxInt32_def)
  then have "sint (of_nat n :: goint) = int n" by (simp add: signed_of_nat signed_take_bit_int_eq_self)
  with False show ?thesis by (simp add: intToUint32_def)
qed (auto simp: intToUint32_of_nat)

definition freshMessage :: "nat \<Rightarrow> pathAndInfo \<Rightarrow> serverMessage" where
  "freshMessage n f = \<lparr>sm_path = pi_path f, sm_filled = False,
     sm_msg = \<lparr>mm_uid = of_nat n, mm_date = pi_modTime f, mm_flags = [seenFlag], mm_size = 0, mm_body = []\<rparr>\<rparr>"

lemma freshMessage_clear [simp]: "msg_clear (freshMessage n f) = freshMessage n f"
  by (simp add: freshMessage_def msg_clear_def)

text \<open>Memory that was used before is not touched.\<close>

definition extends :: "serverHeap \<Rightarrow> serverHeap \<Rightarrow> bool" where
  "extends sh sh' \<longleftrightarrow> nextAddr sh \<le> nextAddr sh' \<and>
     (\<forall>a < nextAddr sh. heap (memory sh') a = heap (memory sh) a) \<and>
     (\<forall>a \<ge> nextAddr sh'. heap (memory sh') a = heap (memory sh) a) \<and>
     (\<forall>a. nextAddr sh \<le> a \<and> a < nextAddr sh' \<longrightarrow> msg_clear (heap (memory sh') a) = heap (memory sh') a) \<and>
     memory sh' = (memory sh)\<lparr>heap := heap (memory sh')\<rparr>"

lemma extends_refl [simp]: "extends sh sh"
  by (auto simp: extends_def)

lemma extends_trans: "extends a b \<Longrightarrow> extends b c \<Longrightarrow> extends a c"
  unfolding extends_def by (smt (verit) backendMemory.surjective backendMemory.update_convs(1) le_trans
      linorder_not_less order_less_le_trans)

lemma newMessages_Ok:
  assumes "newMessages idx fs sh = (sh', Ok as)" "int idx \<le> maxInt32"
  shows "extends sh sh' \<and> as = [nextAddr sh ..< nextAddr sh + length fs] \<and>
    nextAddr sh' = nextAddr sh + length fs \<and> int (idx + length fs) \<le> maxInt32 \<and>
    (\<forall>i < length fs. heap (memory sh') (nextAddr sh + i) = freshMessage (idx + 1 + i) (fs ! i))"
  using assms
proof (induction fs arbitrary: idx sh as)
  case (Cons f fs)
  let ?sh = "sh\<lparr>memory := (memory sh)\<lparr>heap := (heap (memory sh))(nextAddr sh := freshMessage (idx + 1) f)\<rparr>,
    nextAddr := nextAddr sh + 1\<rparr>"
  obtain u where u: "intToUint32 (of_nat (idx + 1)) = Ok u"
    using Cons.prems(1) by (auto simp: Let_def simp del: of_nat_Suc of_nat_add split: res.splits)
  with Cons.prems(2) intToUint32_of_nat_iff [of "idx + 1" u]
  have i: "int (idx + 1) \<le> maxInt32" "u = of_nat (idx + 1)" by simp_all
  obtain as' where as': "newMessages (idx + 1) fs ?sh = (sh', Ok as')" "as = nextAddr sh # as'"
    using Cons.prems(1) u i(2)
    by (auto simp: Let_def freshMessage_def simp del: of_nat_Suc of_nat_add split: res.splits prod.splits)
  note IH = Cons.IH [OF as'(1) i(1)]
  have e: "extends sh ?sh" by (simp add: extends_def)
  have h: "heap (memory sh') (nextAddr sh) = freshMessage (idx + 1) f"
    using IH by (simp add: extends_def)
  have "heap (memory sh') (nextAddr sh + j) = freshMessage (idx + 1 + j) ((f # fs) ! j)"
    if "j < length (f # fs)" for j
    using h IH that by (cases j) simp_all
  moreover have "as = [nextAddr sh ..< nextAddr sh + length (f # fs)]"
    using IH as'(2) by (simp add: upt_conv_Cons del: upt_Suc)
  ultimately show ?case using IH extends_trans [OF e] by auto
qed simp

text \<open>\<open>sort.Slice\<close>: a permutation in the order of the modification time.\<close>

definition sorts :: "(pathAndInfo list \<Rightarrow> pathAndInfo list) \<Rightarrow> bool" where
  "sorts sortFiles \<longleftrightarrow> (\<forall>fs. mset (sortFiles fs) = mset fs \<and> sorted (map pi_modTime (sortFiles fs)))"

lemma sorts_length: "sorts sortFiles \<Longrightarrow> length (sortFiles fs) = length fs"
  by (metis sorts_def size_mset)

definition present :: "dirEntry \<Rightarrow> bool" where
  "present d \<longleftrightarrow> \<not> isl (de_info d)"

lemma dirFiles_mset:
  "dirFiles bse dir ds = map (\<lambda>d. \<lparr>pi_path = joinPath [bse, dir, de_name d], pi_modTime = projr (de_info d)\<rparr>)
     (filter present ds)"
  by (induction ds) (auto simp: present_def split: sum.split)

lemma addMessages_Ok:
  assumes "addMessages readDir sortFiles mb sh = (sh', mb', Ok None)" "sorts sortFiles"
  shows "\<exists>fs. collectFiles readDir (folderPath (maildir mb)) [''new'', ''cur''] = Inr fs \<and>
    maildir mb' = maildir mb \<and> extends sh sh' \<and> nextAddr sh' = nextAddr sh + length fs \<and>
    messages mb' = [nextAddr sh ..< nextAddr sh'] \<and> int (length fs) \<le> maxInt32 \<and>
    map (heap (memory sh')) (messages mb') = map2 freshMessage [1 ..< Suc (length fs)] (sortFiles fs)"
proof -
  obtain fs as where fs: "collectFiles readDir (folderPath (maildir mb)) [''new'', ''cur''] = Inr fs"
    and n: "newMessages 0 (sortFiles fs) sh = (sh', Ok as)" and mb': "mb' = mb\<lparr>messages := as\<rparr>"
    using assms(1) by (auto simp: addMessages_def split: sum.splits res.splits prod.splits)
  have l: "length (sortFiles fs) = length fs" using assms(2) by (metis sorts_def size_mset)
  note N = newMessages_Ok [OF n, simplified l]
  have "map (heap (memory sh')) as = map2 freshMessage [1 ..< Suc (length fs)] (sortFiles fs)"
    using N l by (intro nth_equalityI) (auto simp: maxInt32_def nth_append simp del: upt_Suc)
  with fs mb' N show ?thesis by (auto simp: maxInt32_def simp del: upt_Suc)
qed

lemma map_freshMessage:
  "(\<And>n f. h (freshMessage n f) = g f) \<Longrightarrow> length fs = k \<Longrightarrow> map h (map2 freshMessage [1 ..< Suc k] fs) = map g fs"
  "(\<And>n f. h (freshMessage n f) = g' n) \<Longrightarrow> length fs = k \<Longrightarrow>
    map h (map2 freshMessage [1 ..< Suc k] fs) = map g' [1 ..< Suc k]"
  by (intro nth_equalityI; simp del: upt_Suc)+

text \<open>
  C26: A mailbox has exactly the files of \<open>new\<close> and \<open>cur\<close> whose information could be read, each once, in
  the order of their modification time, with UIDs that count from 1, the flag \<open>\Seen\<close> and no content
  in memory yet.
\<close>

theorem mailbox_lists_files:
  assumes "addMessages readDir sortFiles mb sh = (sh', mb', Ok None)" "sorts sortFiles"
    and "readDir (joinPath [folderPath (maildir mb), ''new'']) = Inr ns"
    and "readDir (joinPath [folderPath (maildir mb), ''cur'']) = Inr cs"
  shows "let ms = map (heap (memory sh')) (messages mb') in
    mset (map sm_path ms) =
      image_mset (\<lambda>d. joinPath [folderPath (maildir mb), ''new'', de_name d]) (mset (filter present ns)) +
      image_mset (\<lambda>d. joinPath [folderPath (maildir mb), ''cur'', de_name d]) (mset (filter present cs)) \<and>
    sorted (map (mm_date \<circ> sm_msg) ms) \<and>
    map (mm_uid \<circ> sm_msg) ms = map of_nat [1 ..< length ms + 1] \<and> int (length ms) \<le> maxInt32 \<and>
    (\<forall>m \<in> set ms. mm_flags (sm_msg m) = [seenFlag] \<and> \<not> sm_filled m) \<and> distinct (messages mb')"
proof -
  let ?b = "folderPath (maildir mb)"
  let ?fs = "dirFiles ?b ''new'' ns @ dirFiles ?b ''cur'' cs"
  have c: "collectFiles readDir ?b [''new'', ''cur''] = Inr ?fs" using assms(3,4) by simp
  let ?ms = "map (heap (memory sh')) (messages mb')"
  from addMessages_Ok [OF assms(1,2)] c have a: "messages mb' = [nextAddr sh ..< nextAddr sh']"
    "int (length ?fs) \<le> maxInt32" "nextAddr sh' = nextAddr sh + length ?fs"
    "?ms = map2 freshMessage [1 ..< Suc (length ?fs)] (sortFiles ?fs)"
    by auto
  have so: "mset (sortFiles ?fs) = mset ?fs" "sorted (map pi_modTime (sortFiles ?fs))" "length (sortFiles ?fs) = length ?fs"
    using assms(2) sorts_length [OF assms(2)] unfolding sorts_def by blast+
  have n: "length ?ms = length ?fs" by (simp add: a(1,3))
  have p: "map sm_path ?ms = map pi_path (sortFiles ?fs)" "map (mm_date \<circ> sm_msg) ?ms = map pi_modTime (sortFiles ?fs)"
    "map (mm_uid \<circ> sm_msg) ?ms = map of_nat [1 ..< Suc (length ?fs)]"
    unfolding a(4) by (intro map_freshMessage; simp add: freshMessage_def so)+
  have "mset (map sm_path ?ms) = image_mset pi_path (mset ?fs)" by (simp only: p(1) mset_map so(1))
  also have "\<dots> = image_mset (\<lambda>d. joinPath [?b, ''new'', de_name d]) (mset (filter present ns)) +
      image_mset (\<lambda>d. joinPath [?b, ''cur'', de_name d]) (mset (filter present cs))"
    by (simp add: dirFiles_mset multiset.map_comp comp_def)
  finally have "mset (map sm_path ?ms) = \<dots>" .
  moreover have "mm_flags (sm_msg m) = [seenFlag]" "\<not> sm_filled m" if "m \<in> set ?ms" for m
  proof -
    from that obtain n f where "m = freshMessage n f" unfolding a(4) by auto
    then show "mm_flags (sm_msg m) = [seenFlag]" "\<not> sm_filled m" by (simp_all add: freshMessage_def)
  qed
  moreover have "distinct (messages mb')" by (simp add: a(1))
  ultimately show ?thesis
    unfolding Let_def p(2,3) n Suc_eq_plus1 [symmetric] using so(2) a(2) by blast
qed

text \<open>A directory with two files in \<open>cur\<close>, one of which is gone when its information is read.\<close>

definition exampleFiles :: "string \<Rightarrow> gerr + dirEntry list" where
  "exampleFiles p =
     (if p = ''backup/INBOX/new'' then Inr [\<lparr>de_name = ''c'', de_isDir = False, de_info = Inr 5\<rparr>]
      else if p = ''backup/INBOX/cur''
      then Inr [\<lparr>de_name = ''a'', de_isDir = False, de_info = Inr 3\<rparr>, \<lparr>de_name = ''b'', de_isDir = False, de_info = Inl ''gone''\<rparr>]
      else Inl enoent)"

lemma sorts_example: "sorts (sort_key pi_modTime)"
  by (simp add: sorts_def)

lemma mailbox_lists_files_witness:
  "let r = addMessages exampleFiles (sort_key pi_modTime) twoBox \<lparr>memory = twoMessages, nextAddr = 7\<rparr>;
       ms = map (heap (memory (fst r))) (messages (fst (snd r))) in
     mset (map sm_path ms) = {# ''backup/INBOX/new/c'', ''backup/INBOX/cur/a'' #} \<and>
     sorted (map (mm_date \<circ> sm_msg) ms)"
proof -
  let ?r = "addMessages exampleFiles (sort_key pi_modTime) twoBox \<lparr>memory = twoMessages, nextAddr = 7\<rparr>"
  have n: "snd (snd ?r) = Ok None" by code_simp
  have r: "?r = (fst ?r, fst (snd ?r), snd (snd ?r))" by simp
  have j: "joinPath [folderPath (maildir twoBox), ''new''] = ''backup/INBOX/new''"
    "joinPath [folderPath (maildir twoBox), ''cur''] = ''backup/INBOX/cur''"
    "joinPath [folderPath (maildir twoBox), ''new'', ''c''] = ''backup/INBOX/new/c''"
    "joinPath [folderPath (maildir twoBox), ''cur'', ''a''] = ''backup/INBOX/cur/a''" by code_simp+
  have d: "exampleFiles (joinPath [folderPath (maildir twoBox), ''new'']) =
      Inr [\<lparr>de_name = ''c'', de_isDir = False, de_info = Inr 5\<rparr>]"
    "exampleFiles (joinPath [folderPath (maildir twoBox), ''cur'']) =
      Inr [\<lparr>de_name = ''a'', de_isDir = False, de_info = Inr 3\<rparr>, \<lparr>de_name = ''b'', de_isDir = False, de_info = Inl ''gone''\<rparr>]"
    by (simp_all add: j exampleFiles_def)
  from mailbox_lists_files [OF r [unfolded n] sorts_example d] show ?thesis
    by (simp add: Let_def j present_def del: map_map)
qed

section \<open>The mailboxes of a user\<close>

lemma maildirsOf_Ok:
  "maildirsOf fs path ds = Ok boxes \<Longrightarrow>
    boxes = map (\<lambda>d. \<lparr>maildir = \<lparr>base = path, mfolder = de_name d\<rparr>, messages = []\<rparr>)
      (filter (\<lambda>d. de_isDir d \<and> isMaildir fs (folderPath \<lparr>base = path, mfolder = de_name d\<rparr>) = Ok True) ds)"
proof (induction ds arbitrary: boxes)
  case (Cons d ds)
  let ?m = "\<lparr>base = path, mfolder = de_name d\<rparr>"
  obtain ok bs where "(if de_isDir d then isMaildir fs (folderPath ?m) else Ok False) = Ok ok"
    "maildirsOf fs path ds = Ok bs"
    "boxes = (if ok then \<lparr>maildir = ?m, messages = []\<rparr> # bs else bs)"
    using Cons.prems
    by (cases "if de_isDir d then isMaildir fs (folderPath ?m) else Ok False"; cases "maildirsOf fs path ds")
      (auto simp: Let_def)
  with Cons.IH [OF this(2)] show ?case by (auto split: if_splits)
qed simp

lemma addAllMessages_Ok:
  assumes "addAllMessages readDir sortFiles mbs es sh = (sh', mbs', Ok es')" "errs es' = []" "sorts sortFiles"
  shows "errs es = [] \<and> extends sh sh' \<and>
    list_all2 (\<lambda>mb mb'. maildir mb' = maildir mb \<and>
      (\<exists>s1 s2. addMessages readDir sortFiles mb s1 = (s2, mb', Ok None) \<and> extends s2 sh')) mbs mbs'"
  using assms(1,2)
proof (induction mbs arbitrary: es sh mbs')
  case (Cons mb mbs)
  obtain s2 mb2 e mbs2 where a: "addMessages readDir sortFiles mb sh = (s2, mb2, Ok e)"
    "addAllMessages readDir sortFiles mbs (errs_add e es) s2 = (sh', mbs2, Ok es')" "mbs' = mb2 # mbs2"
    using Cons.prems(1) by (auto split: prod.splits res.splits)
  note IH = Cons.IH [OF a(2) Cons.prems(2)]
  then have e: "e = None" "errs es = []" by (auto simp: errs_add_def split: option.splits)
  from addMessages_Ok [OF a(1) [unfolded e(1)] assms(3)] have "extends sh s2" "maildir mb2 = maildir mb" by auto
  with IH a e show ?case by (auto intro: extends_trans)
qed simp

definition maildirEntry :: "fsys \<Rightarrow> string \<Rightarrow> dirEntry \<Rightarrow> bool" where
  "maildirEntry fs path d \<longleftrightarrow> de_isDir d \<and> isMaildir fs (folderPath \<lparr>base = path, mfolder = de_name d\<rparr>) = Ok True"

definition offered ::
    "(string \<Rightarrow> gerr + dirEntry list) \<Rightarrow> (pathAndInfo list \<Rightarrow> pathAndInfo list) \<Rightarrow> serverHeap \<Rightarrow> string \<Rightarrow>
      dirEntry \<Rightarrow> serverMailbox \<Rightarrow> bool" where
  "offered readDir sortFiles sh' path d mb' \<longleftrightarrow> maildir mb' = \<lparr>base = path, mfolder = de_name d\<rparr> \<and>
     (\<exists>s1 s2. addMessages readDir sortFiles \<lparr>maildir = \<lparr>base = path, mfolder = de_name d\<rparr>, messages = []\<rparr> s1 =
        (s2, mb', Ok None) \<and> extends s2 sh')"

lemma newBackend_Ok:
  assumes "newBackend fs readDir sortFiles path username password sh = (sh', be, Ok None)" "sorts sortFiles"
  obtains dirs where "readDir path = Inr dirs" "be_username be = username" "be_password be = password" "extends sh sh'"
    "list_all2 (offered readDir sortFiles sh' path) (filter (maildirEntry fs path) dirs) (mailboxes (be_user be))"
proof -
  obtain u where u: "addMailboxes fs readDir sortFiles path \<lparr>user_name = username, mailboxes = []\<rparr> sh = (sh', u, Ok None)"
    "be = \<lparr>be_path = path, be_username = username, be_password = password, be_user = u\<rparr>"
    using assms(1) by (auto simp: newBackend_def split: prod.splits)
  then obtain dirs boxes es mbs where d: "readDir path = Inr dirs" "maildirsOf fs path dirs = Ok boxes"
    "addAllMessages readDir sortFiles boxes \<lparr>errs = [], verbose = False\<rparr> sh = (sh', mbs, Ok es)" "errs_err es = None"
    "u = \<lparr>user_name = username, mailboxes = mbs\<rparr>"
    by (auto simp: addMailboxes_def split: sum.splits res.splits prod.splits)
  have "errs es = []" using d(4) by (auto simp: errs_err_def split: if_splits)
  note a = addAllMessages_Ok [OF d(3) this assms(2)]
  then have "list_all2 (offered readDir sortFiles sh' path) (filter (maildirEntry fs path) dirs) mbs"
    unfolding maildirsOf_Ok [OF d(2)] list_all2_map1 maildirEntry_def [abs_def]
    by (elim conjE list_all2_mono) (simp add: offered_def)
  with a d u that [of dirs] show ?thesis by simp
qed

text \<open>
  The server offers exactly those directories directly below the path that are maildirs, under
  their directory name and each reachable by that name; it lets in the configured user only.
\<close>

theorem served_mailboxes:
  assumes "newBackend fs readDir sortFiles path username password sh = (sh', be, Ok None)" "sorts sortFiles"
    and "readDir path = Inr dirs" "distinct (map de_name dirs)"
  shows "map mb_Name (user_ListMailboxes (be_user be)) =
      map de_name (filter (maildirEntry fs path) dirs) \<and>
    (\<forall>mb \<in> set (user_ListMailboxes (be_user be)). user_GetMailbox (be_user be) (mb_Name mb) = Inr mb) \<and>
    (be_Login be name pw = Inr u \<longleftrightarrow> name = username \<and> pw = password \<and> u = be_user be)"
proof -
  let ?ds = "filter (maildirEntry fs path) dirs" and ?mbs = "mailboxes (be_user be)"
  obtain ds where b: "readDir path = Inr ds" "be_username be = username" "be_password be = password"
    "list_all2 (offered readDir sortFiles sh' path) (filter (maildirEntry fs path) ds) ?mbs"
    by (rule newBackend_Ok [OF assms(1,2)])
  then have "list_all2 (\<lambda>d mb. mb_Name mb = de_name d) ?ds ?mbs"
    using assms(3) by (auto simp: offered_def mb_Name_def folderName_def elim!: list_all2_mono)
  then have n: "map mb_Name ?mbs = map de_name ?ds"
    by (induction rule: list_all2_induct) simp_all
  have di: "distinct (map mb_Name ?mbs)" unfolding n using assms(4) by (rule distinct_map_filter)
  have "findMailbox (mb_Name mb) mbs = Inr mb" if "mb \<in> set mbs" "distinct (map mb_Name mbs)" for mb mbs
    using that by (induction mbs) (auto simp: mb_Name_def image_iff)
  then show ?thesis using n di b(2,3) by (auto simp: user_GetMailbox_def user_ListMailboxes_def be_Login_def)
qed

section \<open>What was downloaded is served\<close>

text \<open>
  \<open>os.ReadDir\<close> and \<open>os.ReadFile\<close> on a file system: the entries of a directory, and the content of a
  file.
\<close>

definition lists :: "fsys \<Rightarrow> (string \<Rightarrow> gerr + dirEntry list) \<Rightarrow> bool" where
  "lists fs readDir \<longleftrightarrow> (\<forall>p es. readDir p = Inr es \<longrightarrow>
     (\<forall>c. plain c \<longrightarrow> (look fs (path_key p @ [c]) \<noteq> None \<longleftrightarrow> c \<in> de_name ` set es)) \<and>
     (\<forall>d \<in> set es. (de_isDir d \<longleftrightarrow> look fs (path_key p @ [de_name d]) = Some Dir) \<and> present d))"

definition fileReader :: "fsys \<Rightarrow> string \<Rightarrow> string \<times> gerr option" where
  "fileReader fs p = (case os_ReadAll fs (path_key p) of Ok c \<Rightarrow> (c, None) | Err e \<Rightarrow> ([], Some e) | Panic e \<Rightarrow> ([], Some e))"

lemma deliverMessage_stores:
  assumes "deliverMessage env body mb (fs0, c) = ((fs, c'), Ok ())" "mb \<noteq> []"
  obtains f where "plain f" "look fs (newKey mb f) = Some (File body)"
proof -
  obtain f fc where f: "newUniqueName env [] c = (fc, Ok f)" "deliverFile body mb f fs0 = (fs, Ok ())"
    using assms(1) by (auto simp: deliverMessage_def split: prod.splits res.splits)
  then have "plain f" by (auto simp: newUniqueName_def Let_def split: prod.splits intro: uniqueName_plain)
  with that deliverFile_Ok(3) [OF f(2) assms(2) this] show ?thesis by simp
qed

lemma numbered_snd: "snd ` set (numbered i ks) = set ks"
  by (induction ks arbitrary: i) auto

text \<open>A file in \<open>new\<close> is a message of the mailbox.\<close>

lemma offered_file:
  assumes o: "offered readDir sortFiles sh path d mb" and l: "lists fs readDir" "sorts sortFiles"
    and f: "plain f" "look fs (newKey (folderPath (maildir mb)) f) \<noteq> None"
  obtains k n t where "k \<in> set (messages mb)" "int (length (messages mb)) \<le> maxInt32"
    "heap (memory sh) k = freshMessage n \<lparr>pi_path = joinPath [folderPath (maildir mb), ''new'', f], pi_modTime = t\<rparr>"
proof -
  let ?b = "folderPath (maildir mb)"
  obtain s1 s2 where a: "addMessages readDir sortFiles \<lparr>maildir = maildir mb, messages = []\<rparr> s1 = (s2, mb, Ok None)"
    "extends s2 sh" using o by (auto simp: offered_def)
  from addMessages_Ok [OF a(1) l(2)] obtain fs where c: "collectFiles readDir ?b [''new'', ''cur''] = Inr fs"
    "messages mb = [nextAddr s1 ..< nextAddr s2]" "nextAddr s2 = nextAddr s1 + length fs" "int (length fs) \<le> maxInt32"
    "map (heap (memory s2)) (messages mb) = map2 freshMessage [1 ..< Suc (length fs)] (sortFiles fs)"
    by auto
  then obtain ns cs where n: "readDir (joinPath [?b, ''new'']) = Inr ns"
    "fs = dirFiles ?b ''new'' ns @ dirFiles ?b ''cur'' cs" by (auto split: sum.splits)
  have "path_key (joinPath [?b, newMaildir]) = path_key ?b @ [newMaildir]" by (rule path_key_joinPath) auto
  then have "newKey ?b f = path_key (joinPath [?b, ''new'']) @ [f]" by (simp add: newKey_def newMaildir_def)
  with f l(1) n(1) obtain e where e: "e \<in> set ns" "de_name e = f" "present e" unfolding lists_def by force
  let ?p = "\<lparr>pi_path = joinPath [?b, ''new'', f], pi_modTime = projr (de_info e)\<rparr>"
  have "?p \<in> set fs" using e by (auto simp: n(2) dirFiles_mset)
  then have "?p \<in> set (sortFiles fs)" using l(2) by (metis sorts_def set_mset_mset)
  then obtain i where i: "i < length fs" "sortFiles fs ! i = ?p"
    using sorts_length [OF l(2), of fs] by (metis in_set_conv_nth)
  let ?k = "nextAddr s1 + i"
  have "heap (memory s2) ?k = map (heap (memory s2)) (messages mb) ! i" using c(2,3) i(1) by simp
  also have "\<dots> = freshMessage ([1 ..< Suc (length fs)] ! i) ?p"
    unfolding c(5) using i sorts_length [OF l(2), of fs] by (simp del: upt_Suc)
  finally have "heap (memory sh) ?k = freshMessage ([1 ..< Suc (length fs)] ! i) ?p"
    using a(2) c(3) i(1) by (simp add: extends_def)
  then show ?thesis using that [of ?k] c(2-4) i(1) by simp
qed

text \<open>A file in \<open>new\<close> of a maildir directly below the path is served.\<close>

lemma stored_file_served:
  assumes f: "plain f" "look fs (newKey (folderPath p) f) = Some (File body)"
    and d: "plain (mfolder p)" "isMaildir fs (folderPath p) = Ok True" "look fs (path_key (folderPath p)) = Some Dir"
    and l: "lists fs readDir" "sorts sortFiles" "\<forall>k. faults fs OpRead k 0 = None" "\<forall>p. small (fst (fileReader fs p))"
    and nb: "newBackend fs readDir sortFiles (base p) username password (\<lparr>memory = initialMemory parsed h, nextAddr = 0\<rparr>) =
      (sh, be, Ok None)" and h: "\<forall>k. h k = msg_clear (h k)"
  shows "\<exists>mb \<in> set (user_ListMailboxes (be_user be)). mb_Name mb = mfolder p \<and>
    body \<in> set (fst (snd (mb_ListMessages (\<lambda>m u. Inr (mm_body m)) (\<lambda>u. True) (fileReader fs) mb (memory sh))))"
proof -
  let ?mb = "folderPath p" and ?rf = "fileReader fs"
  obtain dirs where b: "readDir (base p) = Inr dirs" "extends \<lparr>memory = initialMemory parsed h, nextAddr = 0\<rparr> sh"
    "list_all2 (offered readDir sortFiles sh (base p)) (filter (maildirEntry fs (base p)) dirs) (mailboxes (be_user be))"
    by (rule newBackend_Ok [OF nb l(2)])
  have "CHR ''/'' \<notin> set (mfolder p)" using d(1) by (simp add: plain_def proper_def)
  then have k: "path_key ?mb = path_key (base p) @ [mfolder p]"
    using path_key_folder [of p] d(1) by (simp add: inside_def)
  obtain e where e: "e \<in> set dirs" "de_name e = mfolder p" "de_isDir e"
    using d(1,3) l(1) b(1) k unfolding lists_def by (metis (no_types, lifting) imageE option.distinct(1))
  moreover have "isMaildir fs (folderPath \<lparr>base = base p, mfolder = mfolder p\<rparr>) = Ok True"
    using d(2) by (cases p) simp
  ultimately have "e \<in> set (filter (maildirEntry fs (base p)) dirs)"
    by (simp add: maildirEntry_def)
  then obtain mb where mb: "mb \<in> set (mailboxes (be_user be))" "offered readDir sortFiles sh (base p) e mb"
    using b(3) by (metis in_set_conv_nth list_all2_conv_all_nth)
  then have m: "maildir mb = p" using e(2) by (simp add: offered_def)
  obtain a n t where a: "a \<in> set (messages mb)" "int (length (messages mb)) \<le> maxInt32"
    "heap (memory sh) a = freshMessage n \<lparr>pi_path = joinPath [?mb, ''new'', f], pi_modTime = t\<rparr>"
    by (rule offered_file [OF mb(2) l(1,2) f(1)]) (use f(2) m in auto)
  have "msg_clear (heap (memory sh) k) = heap (memory sh) k" for k
    using b(2) h by (cases "k < nextAddr sh") (simp_all add: extends_def initialMemory_def)
  then have i: "memory_inv ?rf (memory sh)" using l(4) msg_simps(5) unfolding memory_inv_def by metis
  have "path_key (joinPath [?mb, newMaildir, f]) = newKey ?mb f" using f(1) by simp
  then have "?rf (joinPath [?mb, ''new'', f]) = (body, None)"
    using f(2) l(3) by (simp add: fileReader_def os_ReadAll_def newMaildir_def)
  then have ld: "loaded ?rf (heap (memory sh) a) = Some (msg_load body (of_nat (length body)) (heap (memory sh) a))"
    by (simp add: loaded_def a(3) freshMessage_def)
  obtain mem' sent r where s: "mb_ListMessages (\<lambda>m u. Inr (mm_body m)) (\<lambda>u. True) ?rf mb (memory sh) = (mem', sent, r)"
    by (metis prod.collapse)
  obtain u where "(u, a) \<in> set (numbered 0 (messages mb))" using a(1) numbered_snd by fastforce
  with ld have "body \<in> set sent"
    using listing [OF i a(2) s] by (force simp: fetched_def)
  then show ?thesis using mb(1) m s by (auto simp: mb_Name_def folderName_def user_ListMailboxes_def)
qed


text \<open>The example delivery of \<open>Maildir\<close> and a directory reader for the file system it leaves.\<close>

definition deliveredFs :: fsys where
  "deliveredFs = fst (fst (deliverMessage exampleEnv ''hello'' ''backup/INBOX'' (exampleFs, \<lparr>threadSafeCounter.count = 0\<rparr>)))"

definition deliveredName :: string where
  "deliveredName = ''17.M42P7Q1R6162636465666768.host''"

definition deliveredDir :: "string \<Rightarrow> gerr + dirEntry list" where
  "deliveredDir p =
     (if p = ''backup'' then Inr [\<lparr>de_name = ''INBOX'', de_isDir = True, de_info = Inr 1\<rparr>]
      else if p = ''backup/INBOX/new'' then Inr [\<lparr>de_name = deliveredName, de_isDir = False, de_info = Inr 2\<rparr>]
      else if p = ''backup/INBOX/cur'' then Inr []
      else Inl enoent)"

definition deliveredPath :: maildirPathT where
  "deliveredPath = \<lparr>base = ''backup'', mfolder = ''INBOX''\<rparr>"

lemma delivered_example:
  "folderPath deliveredPath = ''backup/INBOX''" "plain deliveredName"
  "snd (deliverMessage exampleEnv ''hello'' ''backup/INBOX'' (exampleFs, \<lparr>threadSafeCounter.count = 0\<rparr>)) = Ok ()"
  "isMaildir deliveredFs ''backup/INBOX'' = Ok True"
  by code_simp+

lemma deliveredFs_eq:
  "deliveredFs = put_node [''backup'', ''INBOX'', ''new'', deliveredName] (Some (File ''hello'')) exampleFs"
proof -
  have n: "newUniqueName exampleEnv [] \<lparr>threadSafeCounter.count = 0\<rparr> = (\<lparr>threadSafeCounter.count = 1\<rparr>, Ok deliveredName)"
    by code_simp
  obtain fs r where d: "deliverFile ''hello'' ''backup/INBOX'' deliveredName exampleFs = (fs, r)" by fastforce
  then have "r = Ok ()" "deliveredFs = fs"
    using delivered_example(3) by (simp_all add: deliveredFs_def deliverMessage_def n)
  with deliverFile_Ok(3) [of "''hello''" "''backup/INBOX''" deliveredName exampleFs fs "()"] d delivered_example(2)
  show ?thesis
    by (simp add: newKey_def newMaildir_def path_key_def rooted_def hasPrefix_def clean_step_def)
qed

lemma deliveredDir_lists: "lists deliveredFs deliveredDir"
proof -
  have k: "path_key ''backup'' = [''backup'']" "path_key ''backup/INBOX/new'' = [''backup'', ''INBOX'', ''new'']"
    "path_key ''backup/INBOX/cur'' = [''backup'', ''INBOX'', ''cur'']" by code_simp+
  show ?thesis
    by (auto simp: lists_def deliveredDir_def k deliveredFs_eq look_def exampleFs_def present_def split: if_splits)
qed

lemma deliveredFs_small: "small (fst (fileReader deliveredFs p))"
  by (auto simp: fileReader_def os_ReadAll_def deliveredFs_eq exampleFs_def look_def small_def maxInt32_def
      split: option.splits node.splits if_splits)


lemma served_mailboxes_witness:
  "let r = newBackend deliveredFs deliveredDir (sort_key pi_modTime) ''backup'' ''me'' ''secret''
       \<lparr>memory = initialMemory (Inr 100) (\<lambda>k. emptyMessage []), nextAddr = 0\<rparr> in
     map mb_Name (user_ListMailboxes (be_user (fst (snd r)))) = [''INBOX''] \<and>
     (\<forall>u. be_Login (fst (snd r)) ''me'' ''wrong'' \<noteq> Inr u)"
proof -
  let ?r = "newBackend deliveredFs deliveredDir (sort_key pi_modTime) ''backup'' ''me'' ''secret''
       \<lparr>memory = initialMemory (Inr 100) (\<lambda>k. emptyMessage []), nextAddr = 0\<rparr>"
  have "snd (snd ?r) = Ok None" by code_simp
  then have r: "?r = (fst ?r, fst (snd ?r), Ok None)" by (metis prod.collapse)
  have d: "deliveredDir ''backup'' = Inr [\<lparr>de_name = ''INBOX'', de_isDir = True, de_info = Inr 1\<rparr>]"
    "distinct (map de_name [\<lparr>de_name = ''INBOX'', de_isDir = True, de_info = Inr 1\<rparr>])"
    by (simp_all add: deliveredDir_def)
  have "folderPath \<lparr>base = ''backup'', mfolder = ''INBOX''\<rparr> = ''backup/INBOX''" by code_simp
  then have "maildirEntry deliveredFs ''backup'' \<lparr>de_name = ''INBOX'', de_isDir = True, de_info = Inr 1\<rparr>"
    by (simp add: maildirEntry_def delivered_example)
  with served_mailboxes [OF r sorts_example d, of "''me''" "''wrong''"] show ?thesis by (auto simp: Let_def)
qed

end
