(* ===== verification/CliLock.thy ===== *)
theory CliLock
  imports Prelude
begin

text \<open>
  The lock on a local directory, \<open>cli/lock.go\<close>: one goroutine obtains the lock on the file, the caller
  waits for it or for a timeout, and after a timeout another goroutine gives back a lock that arrives
  too late. The lock on the file itself (package \<open>lockedfile\<close>) is either free, ours, or another
  process's, which takes and releases it at any time.
\<close>

section \<open>Model\<close>

datatype owner = Free | Ours | Others

text \<open>\<open>lockedT\<close>: a function to unlock, or an error.\<close>

datatype lockedT = Locked | NotLocked gerr

datatype acquirer_pc = NotCalled | Acquiring | Sending lockedT | Sent

datatype caller_pc = Starting | Waiting | Holding | Unlocked | LockError gerr | TimedOut

datatype cleaner_pc = NotStarted | Receiving | Cleaned

record lockSys =
  owner :: owner
  resultChan :: "lockedT option"
  acquirer :: acquirer_pc
  caller :: caller_pc
  cleaner :: cleaner_pc

definition lockInit :: "owner \<Rightarrow> lockSys" where
  "lockInit ow = \<lparr>owner = ow, resultChan = None, acquirer = NotCalled, caller = Starting, cleaner = NotStarted\<rparr>"

text \<open>\<open>doLock\<close> returns when the file is free, or with an error; what is sent depends on that only.\<close>

inductive acquireStep :: "lockSys \<Rightarrow> lockSys \<Rightarrow> bool" where
  doLock: "acquirer s = Acquiring \<Longrightarrow> owner s = Free \<Longrightarrow>
    acquireStep s (s\<lparr>owner := Ours, acquirer := Sending Locked\<rparr>)"
| doLockError: "acquirer s = Acquiring \<Longrightarrow> acquireStep s (s\<lparr>acquirer := Sending (NotLocked e)\<rparr>)"
| send: "acquirer s = Sending r \<Longrightarrow> resultChan s = None \<Longrightarrow>
    acquireStep s (s\<lparr>resultChan := Some r, acquirer := Sent\<rparr>)"

inductive cleanStep :: "lockSys \<Rightarrow> lockSys \<Rightarrow> bool" where
  cleanLocked: "cleaner s = Receiving \<Longrightarrow> resultChan s = Some Locked \<Longrightarrow>
    cleanStep s (s\<lparr>resultChan := None, owner := Free, cleaner := Cleaned\<rparr>)"
| cleanError: "cleaner s = Receiving \<Longrightarrow> resultChan s = Some (NotLocked e) \<Longrightarrow>
    cleanStep s (s\<lparr>resultChan := None, cleaner := Cleaned\<rparr>)"

text \<open>Creating the directory, the \<open>select\<close> of \<open>lock\<close>, and the call of the function it returned.\<close>

inductive callerStep :: "lockSys \<Rightarrow> lockSys \<Rightarrow> bool" where
  mkdirAll: "caller s = Starting \<Longrightarrow> callerStep s (s\<lparr>caller := Waiting, acquirer := Acquiring\<rparr>)"
| mkdirAllError: "caller s = Starting \<Longrightarrow> callerStep s (s\<lparr>caller := LockError e\<rparr>)"
| gotLock: "caller s = Waiting \<Longrightarrow> resultChan s = Some Locked \<Longrightarrow>
    callerStep s (s\<lparr>resultChan := None, caller := Holding\<rparr>)"
| gotError: "caller s = Waiting \<Longrightarrow> resultChan s = Some (NotLocked e) \<Longrightarrow>
    callerStep s (s\<lparr>resultChan := None, caller := LockError e\<rparr>)"
| timeout: "caller s = Waiting \<Longrightarrow> callerStep s (s\<lparr>caller := TimedOut, cleaner := Receiving\<rparr>)"
| unlock: "caller s = Holding \<Longrightarrow> callerStep s (s\<lparr>owner := Free, caller := Unlocked\<rparr>)"

inductive othersStep :: "lockSys \<Rightarrow> lockSys \<Rightarrow> bool" where
  othersLock: "owner s = Free \<Longrightarrow> othersStep s (s\<lparr>owner := Others\<rparr>)"
| othersUnlock: "owner s = Others \<Longrightarrow> othersStep s (s\<lparr>owner := Free\<rparr>)"

definition lockStep :: "lockSys \<Rightarrow> lockSys \<Rightarrow> bool" where
  "lockStep s s' \<longleftrightarrow> acquireStep s s' \<or> cleanStep s s' \<or> callerStep s s' \<or> othersStep s s'"

inductive_cases acquireE: "acquireStep s s'"
inductive_cases cleanE: "cleanStep s s'"
inductive_cases callerE: "callerStep s s'"
inductive_cases othersE: "othersStep s s'"

section \<open>The lock has one place\<close>

text \<open>
  The right to unlock is held by exactly one part of the program while the file is locked by us: it is
  about to be sent, in the channel, or with the caller.
\<close>

fun sendsLock :: "acquirer_pc \<Rightarrow> bool" where
  "sendsLock (Sending r) = (r = Locked)"
| "sendsLock _ = False"

definition places :: "lockSys \<Rightarrow> bool list" where
  "places s = [sendsLock (acquirer s), resultChan s = Some Locked, caller s = Holding]"

definition lockInv :: "lockSys \<Rightarrow> bool" where
  "lockInv s \<longleftrightarrow>
     length (filter id (places s)) = (if owner s = Ours then 1 else 0) \<and>
     (resultChan s \<noteq> None \<longrightarrow> acquirer s = Sent) \<and>
     (caller s \<in> {Holding, Unlocked} \<union> range LockError \<longrightarrow> acquirer s \<in> {Sent, NotCalled} \<and> resultChan s = None) \<and>
     (caller s = Starting \<longrightarrow> acquirer s = NotCalled) \<and>
     (caller s = TimedOut \<longleftrightarrow> cleaner s \<noteq> NotStarted) \<and>
     (cleaner s = Cleaned \<longrightarrow> acquirer s = Sent \<and> resultChan s = None)"

lemma lockInit_inv: "ow \<noteq> Ours \<Longrightarrow> lockInv (lockInit ow)"
  by (auto simp: lockInv_def lockInit_def places_def)

lemma acquire_inv: "lockInv s \<Longrightarrow> acquireStep s s' \<Longrightarrow> lockInv s'"
  by (erule acquireE) (auto simp: lockInv_def places_def split: lockedT.splits if_splits)

lemma clean_inv: "lockInv s \<Longrightarrow> cleanStep s s' \<Longrightarrow> lockInv s'"
  by (erule cleanE) (auto simp: lockInv_def places_def split: if_splits)

lemma caller_inv: "lockInv s \<Longrightarrow> callerStep s s' \<Longrightarrow> lockInv s'"
  by (erule callerE) (auto simp: lockInv_def places_def split: if_splits)

lemma others_inv: "lockInv s \<Longrightarrow> othersStep s s' \<Longrightarrow> lockInv s'"
  by (erule othersE) (auto simp: lockInv_def places_def split: if_splits)

lemma lock_run_inv: "lockStep\<^sup>*\<^sup>* s s' \<Longrightarrow> lockInv s \<Longrightarrow> lockInv s'"
  by (induction rule: rtranclp_induct)
    (auto simp: lockStep_def intro: acquire_inv clean_inv caller_inv others_inv)

text \<open>After a timeout a lock that is ours is on its way to the goroutine that releases it.\<close>

lemma late_lock_released:
  assumes "lockInv s" "caller s = TimedOut" "owner s = Ours"
  shows "\<exists>s'. (sup acquireStep cleanStep)\<^sup>*\<^sup>* s s' \<and> owner s' = Free"
proof -
  have r: "cleaner s = Receiving" "sendsLock (acquirer s) \<or> resultChan s = Some Locked"
    using assms by (cases "cleaner s"; auto simp: lockInv_def places_def split: if_splits)+
  have clean: "\<exists>s'. (sup acquireStep cleanStep)\<^sup>*\<^sup>* t s' \<and> owner s' = Free"
    if "cleaner t = Receiving" "resultChan t = Some Locked" for t
    using cleanStep.cleanLocked [OF that] by (auto intro!: exI r_into_rtranclp)
  show ?thesis
  proof (cases "resultChan s = Some Locked")
    case False
    with r have a: "acquirer s = Sending Locked" by (cases "acquirer s") auto
    with assms(1) have c: "resultChan s = None" by (auto simp: lockInv_def)
    let ?t = "s\<lparr>resultChan := Some Locked, acquirer := Sent\<rparr>"
    obtain s' where "(sup acquireStep cleanStep)\<^sup>*\<^sup>* ?t s'" "owner s' = Free" using clean [of ?t] r by auto
    moreover have "sup acquireStep cleanStep s ?t" using acquireStep.send [OF a c] by simp
    ultimately show ?thesis by (meson converse_rtranclp_into_rtranclp)
  qed (use clean r in blast)
qed

text \<open>
  C28: When \<open>lock\<close> reports success the file is locked by us and stays so until the caller unlocks it;
  when it reports an error, or after unlocking, it is not locked by us; and when it reports a timeout, a
  lock that arrives too late is released again.
\<close>

theorem lock_is_held_and_not_leaked:
  assumes "ow \<noteq> Ours" "lockStep\<^sup>*\<^sup>* (lockInit ow) s"
  shows "(caller s = Holding \<longrightarrow> owner s = Ours) \<and>
    (caller s = Unlocked \<or> (\<exists>e. caller s = LockError e) \<longrightarrow> owner s \<noteq> Ours) \<and>
    (caller s = TimedOut \<and> owner s = Ours \<longrightarrow> (\<exists>s'. (sup acquireStep cleanStep)\<^sup>*\<^sup>* s s' \<and> owner s' = Free))"
proof -
  have i: "lockInv s" by (rule lock_run_inv [OF assms(2) lockInit_inv [OF assms(1)]])
  have "caller s = Holding \<longrightarrow> owner s = Ours"
    using i by (auto simp: lockInv_def places_def split: if_splits)
  moreover have "caller s = Unlocked \<or> (\<exists>e. caller s = LockError e) \<longrightarrow> owner s \<noteq> Ours"
    using i by (auto simp: lockInv_def places_def split: if_splits)
  ultimately show ?thesis using late_lock_released [OF i] by blast
qed

text \<open>A run in which the lock arrives after the timeout.\<close>

lemma lock_is_held_and_not_leaked_witness:
  "\<exists>s s'. lockStep\<^sup>*\<^sup>* (lockInit Others) s \<and> caller s = TimedOut \<and> owner s = Ours \<and>
    (sup acquireStep cleanStep)\<^sup>*\<^sup>* s s' \<and> owner s' = Free"
proof -
  let ?s0 = "(lockInit Others)\<lparr>caller := Waiting, acquirer := Acquiring\<rparr>"
  let ?s1 = "?s0\<lparr>caller := TimedOut, cleaner := Receiving\<rparr>"
  let ?s2 = "?s1\<lparr>owner := Free\<rparr>"
  let ?s3 = "?s2\<lparr>owner := Ours, acquirer := Sending Locked\<rparr>"
  have "lockStep (lockInit Others) ?s0"
    using callerStep.mkdirAll [of "lockInit Others"] by (simp add: lockStep_def lockInit_def)
  moreover have "lockStep ?s0 ?s1"
    using callerStep.timeout [of ?s0] by (simp add: lockStep_def lockInit_def)
  moreover have "lockStep ?s1 ?s2"
    using othersStep.othersUnlock [of ?s1] by (simp add: lockStep_def lockInit_def)
  moreover have "lockStep ?s2 ?s3"
    using acquireStep.doLock [of ?s2] by (simp add: lockStep_def lockInit_def)
  ultimately have r: "lockStep\<^sup>*\<^sup>* (lockInit Others) ?s3"
    by (meson converse_rtranclp_into_rtranclp rtranclp.rtrancl_refl)
  moreover have "caller ?s3 = TimedOut" "owner ?s3 = Ours" by simp_all
  moreover obtain s' where "(sup acquireStep cleanStep)\<^sup>*\<^sup>* ?s3 s'" "owner s' = Free"
    using lock_is_held_and_not_leaked [OF _ r] by auto
  ultimately show ?thesis by blast
qed

end
