(* ===== verification/Cli.thy ===== *)
theory Cli
  imports ImapClient "HOL-Library.List_Lexorder" "HOL-Library.Char_ord"
begin

text \<open>
  The command line, \<open>cli/\<close>: where the password comes from (\<open>keyring.go\<close>), the commands \<open>login\<close>,
  \<open>list\<close>, \<open>download\<close> and \<open>serve\<close>, and the hint to store credentials (\<open>login.go\<close>). The keyring
  (package \<open>go-keyring\<close>) and the operations of the core library are parameters, as they are for the
  program (interfaces \<open>keyringOps\<close> and \<open>coreOps\<close>); flag parsing is left to the package \<open>cobra\<close>.
\<close>

section \<open>Configuration\<close>

definition localhost :: string where "localhost = ''127.0.0.1''"
definition defaultPort :: goint where "defaultPort = 993"
definition lockfileName :: string where "lockfileName = ''.go-imapgrab.lock''"
definition passwdEnvVar :: string where "passwdEnvVar = ''IGRAB_PASSWORD''"
definition serviceName :: string where "serviceName = ''go-imapgrab''"

record rootConfigT =
  rc_server :: string
  rc_port :: goint
  rc_username :: string
  rc_password :: string
  rc_verbose :: bool
  rc_noKeyring :: bool

definition exists :: "fsys \<Rightarrow> string \<Rightarrow> bool" where
  "exists fs path \<longleftrightarrow> os_Stat fs (path_key path) \<noteq> StatNotExist"

section \<open>White space\<close>

text \<open>
  Go strings are UTF-8; these are the encodings of the characters for which \<open>unicode.IsSpace\<close> holds.
  The first byte of each never occurs inside another character, so a string has a space iff one of
  them occurs in it.
\<close>

definition spaces :: "string list" where
  "spaces = map (\<lambda>c. [c]) [CHR 0x09, CHR 0x0A, CHR 0x0B, CHR 0x0C, CHR 0x0D, CHR 0x20] @
     [[CHR 0xC2, CHR 0x85], [CHR 0xC2, CHR 0xA0], [CHR 0xE1, CHR 0x9A, CHR 0x80]] @
     map (\<lambda>c. [CHR 0xE2, CHR 0x80, c])
       [CHR 0x80, CHR 0x81, CHR 0x82, CHR 0x83, CHR 0x84, CHR 0x85, CHR 0x86, CHR 0x87, CHR 0x88, CHR 0x89,
        CHR 0x8A, CHR 0xA8, CHR 0xA9, CHR 0xAF] @
     [[CHR 0xE2, CHR 0x81, CHR 0x9F], [CHR 0xE3, CHR 0x80, CHR 0x80]]"

definition hasSpace :: "string \<Rightarrow> bool" where
  "hasSpace s \<longleftrightarrow> list_ex (\<lambda>p. contains s p) spaces"

function dropAll :: "string list \<Rightarrow> string \<Rightarrow> string" where
  "dropAll ps s =
     (case find (\<lambda>p. p \<noteq> [] \<and> hasPrefix s p) ps of None \<Rightarrow> s | Some p \<Rightarrow> dropAll ps (drop (length p) s))"
  by pat_completeness auto
termination
  by (relation "measure (length \<circ> snd)") (auto simp: find_Some_iff hasPrefix_iff)

declare dropAll.simps [simp del]

text \<open>\<open>strings.TrimSpace\<close>.\<close>

definition trimSpace :: "string \<Rightarrow> string" where
  "trimSpace s = rev (dropAll (map rev spaces) (rev (dropAll spaces s)))"

section \<open>The keyring\<close>

datatype keyringError = ErrNotFound | KeyringError gerr

record 'k keyringOps =
  kr_Get :: "'k \<Rightarrow> string \<Rightarrow> string \<Rightarrow> keyringError + string"
  kr_Set :: "'k \<Rightarrow> string \<Rightarrow> string \<Rightarrow> string \<Rightarrow> 'k \<times> keyringError option"

definition keyringServiceSpec :: "rootConfigT \<Rightarrow> string" where
  "keyringServiceSpec cfg =
     serviceName @ ''/'' @ rc_username cfg @ ''@'' @ rc_server cfg @ '':'' @ showGoint (rc_port cfg)"

text \<open>\<open>currentUser\<close> is the user name of \<open>user.Current()\<close>.\<close>

definition retrieveFromKeyring ::
    "gerr + string \<Rightarrow> 'k keyringOps \<Rightarrow> 'k \<Rightarrow> rootConfigT \<Rightarrow> string \<times> keyringError option" where
  "retrieveFromKeyring currentUser keyring k cfg =
     (case currentUser of
        Inl e \<Rightarrow> ([], Some (KeyringError e))
      | Inr systemUserName \<Rightarrow>
          (case kr_Get keyring k (keyringServiceSpec cfg) systemUserName of
             Inl e \<Rightarrow> ([], Some e)
           | Inr secret \<Rightarrow> (secret, None)))"

definition addToKeyring ::
    "gerr + string \<Rightarrow> 'k keyringOps \<Rightarrow> 'k \<Rightarrow> rootConfigT \<Rightarrow> string \<Rightarrow> 'k \<times> keyringError option" where
  "addToKeyring currentUser keyring k cfg password =
     (case currentUser of
        Inl e \<Rightarrow> (k, Some (KeyringError e))
      | Inr systemUserName \<Rightarrow> kr_Set keyring k (keyringServiceSpec cfg) systemUserName password)"

text \<open>\<open>env\<close> is the value of the environment variable, if it is set.\<close>

definition initCredentials ::
    "string option \<Rightarrow> (string \<Rightarrow> gerr + string) \<Rightarrow> gerr + string \<Rightarrow> 'k keyringOps \<Rightarrow> rootConfigT \<times> 'k \<Rightarrow>
      (rootConfigT \<times> 'k) \<times> keyringError option" where
  "initCredentials env readFile currentUser keyring st =
     (case st of (rootConf, k) \<Rightarrow>
        (case env of
           Some passwordInput \<Rightarrow>
             (let password = (case readFile passwordInput of Inr c \<Rightarrow> trimSpace c | Inl e \<Rightarrow> passwordInput);
                  rootConf = rootConf\<lparr>rc_password := password\<rparr> in
              if rc_noKeyring rootConf then ((rootConf, k), None)
              else (case addToKeyring currentUser keyring k rootConf password of
                      (k, e) \<Rightarrow> ((rootConf, k), e)))
         | None \<Rightarrow>
             (if rc_noKeyring rootConf
              then ((rootConf, k),
                Some (KeyringError (''password not set via env var '' @ passwdEnvVar @ '' and keyring disabled'')))
              else (case retrieveFromKeyring currentUser keyring k rootConf of
                      (p, e) \<Rightarrow> ((rootConf\<lparr>rc_password := p\<rparr>, k), e)))))"

definition credentialsNotFound :: "keyringError option \<Rightarrow> bool" where
  "credentialsNotFound e \<longleftrightarrow> e = Some ErrNotFound"

section \<open>The hint to log in\<close>

definition quoteArg :: "string \<Rightarrow> string" where
  "quoteArg arg = (if arg = [] \<or> hasSpace arg then CHR 0x22 # arg @ [CHR 0x22] else arg)"

definition quote :: "string list \<Rightarrow> string list" where
  "quote args = map quoteArg args"

definition loginEquivalent :: "rootConfigT \<Rightarrow> string \<Rightarrow> string list" where
  "loginEquivalent rootConf prog =
     [prog, ''login'', ''--server'', rc_server rootConf, ''--port'', showGoint (rc_port rootConf),
      ''--user'', rc_username rootConf]"

definition loginCmdUse :: "rootConfigT \<Rightarrow> string list \<Rightarrow> string res" where
  "loginCmdUse rootConf args =
     (case args of
        [] \<Rightarrow> Panic ''runtime error: index out of range [0] with length 0''
      | prog # _ \<Rightarrow>
          Ok (''To store credentials in your system keyring, run'' @ [nl, nl] @ ''  '' @
            joinWith '' '' (quote (loginEquivalent rootConf prog)) @ [nl, nl] @
            ''Then enter your password at the prompt. Afterwards, run'' @ [nl, nl] @ ''  '' @
            joinWith '' '' (quote args) @ [nl, nl] @
            ''again and go-imapgrab will take the password from the keyring.'' @ [nl]))"

section \<open>The commands\<close>

definition commandConfig :: "rootConfigT \<Rightarrow> IMAPConfig" where
  "commandConfig rootConf =
     \<lparr>Server = rc_server rootConf, Port = rc_port rootConf, User = rc_username rootConf,
      Password = rc_password rootConf, Insecure = (rc_server rootConf = localhost)\<rparr>"

text \<open>\<open>PreRunE\<close> of \<open>list\<close>, \<open>download\<close> and \<open>serve\<close>; \<open>errText\<close> is the text of an error.\<close>

definition preRun ::
    "(keyringError \<Rightarrow> string) \<Rightarrow> string list \<Rightarrow> string option \<Rightarrow> (string \<Rightarrow> gerr + string) \<Rightarrow> gerr + string \<Rightarrow>
      'k keyringOps \<Rightarrow> rootConfigT \<times> 'k \<Rightarrow> (rootConfigT \<times> 'k) \<times> gerr option res" where
  "preRun errText args env readFile currentUser keyring st =
     (case initCredentials env readFile currentUser keyring st of
        (st, e) \<Rightarrow>
          (st, if credentialsNotFound e
               then bind_res (loginCmdUse (fst st) args) (\<lambda>u. Ok (Some (errText ErrNotFound @ [nl, nl] @ u)))
               else Ok (map_option errText e)))"

text \<open>
  \<open>RunE\<close> of \<open>download\<close> and \<open>serve\<close>: \<open>lockFn\<close> gives a function that unlocks, which is deferred, so it
  also runs when the operation panics. The timeout is a product of 64-bit integers.
\<close>

definition withLock ::
    "(string \<Rightarrow> goint \<Rightarrow> 'w \<Rightarrow> 'w \<times> (gerr + ('w \<Rightarrow> 'w))) \<Rightarrow> string \<Rightarrow> string \<Rightarrow> goint \<Rightarrow>
      ('w \<Rightarrow> 'w \<times> gerr option res) \<Rightarrow> 'w \<Rightarrow> 'w \<times> gerr option res" where
  "withLock lockFn message path timeoutSeconds op w =
     (case lockFn (joinPath [path, lockfileName]) (timeoutSeconds * 1000000000) w of
        (w, Inl e) \<Rightarrow> (w, Ok (Some (message @ e)))
      | (w, Inr unlock) \<Rightarrow> (case op w of (w, r) \<Rightarrow> (unlock w, r)))"

record downloadConfigT =
  dc_folders :: "string list"
  dc_path :: string
  dc_threads :: goint
  dc_timeoutSeconds :: goint

definition downloadRun ::
    "(string \<Rightarrow> goint \<Rightarrow> 'w \<Rightarrow> 'w \<times> (gerr + ('w \<Rightarrow> 'w))) \<Rightarrow>
      (IMAPConfig \<Rightarrow> string list \<Rightarrow> string \<Rightarrow> goint \<Rightarrow> 'w \<Rightarrow> 'w \<times> gerr option res) \<Rightarrow>
      rootConfigT \<Rightarrow> downloadConfigT \<Rightarrow> 'w \<Rightarrow> 'w \<times> gerr option res" where
  "downloadRun lockFn downloadFolder rootConf conf w =
     withLock lockFn ''cannot get lock on download folder, another process might be downloading: ''
       (dc_path conf) (dc_timeoutSeconds conf)
       (downloadFolder (commandConfig rootConf) (dc_folders conf) (dc_path conf) (dc_threads conf)) w"

record serveConfigT =
  sc_path :: string
  sc_timeoutSeconds :: goint
  sc_serverPort :: goint

definition serveRun ::
    "(string \<Rightarrow> goint \<Rightarrow> 'w \<Rightarrow> 'w \<times> (gerr + ('w \<Rightarrow> 'w))) \<Rightarrow>
      (IMAPConfig \<Rightarrow> goint \<Rightarrow> string \<Rightarrow> 'w \<Rightarrow> 'w \<times> gerr option res) \<Rightarrow>
      rootConfigT \<Rightarrow> serveConfigT \<Rightarrow> 'w \<Rightarrow> 'w \<times> gerr option res" where
  "serveRun lockFn serveMaildir rootConf conf w =
     withLock lockFn ''cannot get lock on local folder, another process might be using it: ''
       (sc_path conf) (sc_timeoutSeconds conf)
       (serveMaildir (commandConfig rootConf) (sc_serverPort conf) (sc_path conf)) w"

text \<open>What \<open>list\<close> prints and returns.\<close>

definition listRun ::
    "(IMAPConfig \<Rightarrow> (string list \<times> gerr option) res) \<Rightarrow> rootConfigT \<Rightarrow> (string \<times> gerr option) res" where
  "listRun getAllFolders rootConf =
     bind_res (getAllFolders (commandConfig rootConf)) (\<lambda>(folders, err).
       Ok (joinWith [nl] (sort folders) @ [nl], err))"

text \<open>
  \<open>RunE\<close> of \<open>login\<close>, without the prompt: the password is checked with the server before it is stored,
  and a failure to store it is only reported.
\<close>

datatype loginMessage = Stored | NotStored | CouldNotStore | NotValidated

definition loginRun ::
    "gerr + string \<Rightarrow> 'k keyringOps \<Rightarrow> string \<times> gerr option \<Rightarrow> (IMAPConfig \<Rightarrow> gerr option res) \<Rightarrow>
      rootConfigT \<Rightarrow> 'k \<Rightarrow> 'k \<times> (loginMessage \<times> gerr option) res" where
  "loginRun currentUser keyring readPassword tryConnect rootConf k =
     (let (password, err) = readPassword;
          cfg = (commandConfig rootConf)\<lparr>Password := password\<rparr> in
      case (if err = None then tryConnect cfg else Ok err) of
        Ok (Some e) \<Rightarrow> (k, Ok (NotValidated, Some e))
      | Ok None \<Rightarrow>
          (if rc_noKeyring rootConf then (k, Ok (NotStored, None))
           else (case addToKeyring currentUser keyring k rootConf (Password cfg) of
                   (k, keyringErr) \<Rightarrow> (k, Ok (if keyringErr = None then Stored else CouldNotStore, None))))
      | Err e \<Rightarrow> (k, Err e)
      | Panic p \<Rightarrow> (k, Panic p))"

text \<open>\<open>stdin\<close> is a terminal (or nobody knows), or what can be read from it.\<close>

definition readFromStdin :: "gerr + bool \<Rightarrow> string \<times> gerr option \<Rightarrow> string \<times> gerr option \<Rightarrow> string \<times> gerr option" where
  "readFromStdin charDevice readFromTerminal readAll =
     (case charDevice of Inl e \<Rightarrow> readFromTerminal | Inr True \<Rightarrow> readFromTerminal | Inr False \<Rightarrow> readAll)"

definition versionText :: "string \<Rightarrow> string" where
  "versionText versionString = ''version: '' @ (if length versionString = 0 then ''local-development'' else versionString)"

definition mainExit :: "gerr option \<Rightarrow> nat option" where
  "mainExit err = (if err \<noteq> None then Some 1 else None)"

section \<open>Entries of the keyring\<close>

lemma last_separator:
  assumes "c \<notin> set ys" "c \<notin> set ys'"
  shows "xs @ c # ys = xs' @ c # ys' \<longleftrightarrow> xs = xs' \<and> ys = ys'"
proof
  assume "xs @ c # ys = xs' @ c # ys'"
  then obtain us where "xs = xs' @ us \<and> us @ c # ys = c # ys' \<or> xs @ us = xs' \<and> c # ys = us @ c # ys'"
    by (auto simp: append_eq_append_conv2)
  with assms show "xs = xs' \<and> ys = ys'" by (cases us) auto
qed simp

lemma showGoint_no_separator: "CHR '':'' \<notin> set (showGoint v)" "CHR ''@'' \<notin> set (showGoint v)"
  using showInt_chars [of "CHR '':''" "sint v"] showInt_chars [of "CHR ''@''" "sint v"]
  by (auto simp: showGoint_def isDigit_def)

lemma keyringServiceSpec_eq:
  assumes "CHR ''@'' \<notin> set (rc_server cfg)" "CHR ''@'' \<notin> set (rc_server cfg')"
  shows "keyringServiceSpec cfg = keyringServiceSpec cfg' \<longleftrightarrow>
    rc_username cfg = rc_username cfg' \<and> rc_server cfg = rc_server cfg' \<and> rc_port cfg = rc_port cfg'"
proof -
  have "keyringServiceSpec cfg = keyringServiceSpec cfg' \<longleftrightarrow>
      (rc_username cfg @ CHR ''@'' # rc_server cfg) @ CHR '':'' # showGoint (rc_port cfg) =
      (rc_username cfg' @ CHR ''@'' # rc_server cfg') @ CHR '':'' # showGoint (rc_port cfg')"
    by (simp add: keyringServiceSpec_def)
  also have "\<dots> \<longleftrightarrow> rc_username cfg @ CHR ''@'' # rc_server cfg = rc_username cfg' @ CHR ''@'' # rc_server cfg' \<and>
      rc_port cfg = rc_port cfg'"
    by (subst last_separator) (auto simp: showGoint_no_separator)
  finally show ?thesis using assms by (auto simp: last_separator)
qed

text \<open>
  What the program relies on of the keyring: an entry that was stored is found, and storing does not
  change other entries.
\<close>

definition keyringLaws :: "'k keyringOps \<Rightarrow> bool" where
  "keyringLaws keyring \<longleftrightarrow>
     (\<forall>k svc u pw k'. kr_Set keyring k svc u pw = (k', None) \<longrightarrow>
        kr_Get keyring k' svc u = Inr pw \<and>
        (\<forall>svc'. svc' \<noteq> svc \<longrightarrow> kr_Get keyring k' svc' u = kr_Get keyring k svc' u))"

text \<open>
  C30: After a successful \<open>login\<close> the commands for the same account find the password that the server
  has accepted, and those for any other account find what they found before.
\<close>

theorem login_then_use:
  assumes "keyringLaws keyring"
    and "loginRun (Inr me) keyring readPassword tryConnect rc k = (k', Ok (Stored, None))"
    and "\<not> rc_noKeyring rc'" "CHR ''@'' \<notin> set (rc_server rc)" "CHR ''@'' \<notin> set (rc_server rc')"
  shows "tryConnect ((commandConfig rc)\<lparr>Password := fst readPassword\<rparr>) = Ok None \<and> snd readPassword = None \<and>
    (if rc_username rc' = rc_username rc \<and> rc_server rc' = rc_server rc \<and> rc_port rc' = rc_port rc
     then initCredentials None readFile (Inr me) keyring (rc', k') =
       ((rc'\<lparr>rc_password := fst readPassword\<rparr>, k'), None)
     else fst (fst (initCredentials None readFile (Inr me) keyring (rc', k'))) =
       fst (fst (initCredentials None readFile (Inr me) keyring (rc', k))))"
proof -
  obtain pw err where r: "readPassword = (pw, err)" by fastforce
  have l: "err = None" "tryConnect ((commandConfig rc)\<lparr>Password := pw\<rparr>) = Ok None"
    "kr_Set keyring k (keyringServiceSpec rc) me pw = (k', None)"
    using assms(2) by (auto simp: loginRun_def r addToKeyring_def Let_def split: res.splits option.splits if_splits prod.splits)
  note g = assms(1) [unfolded keyringLaws_def, rule_format, OF l(3)]
  have "keyringServiceSpec rc' = keyringServiceSpec rc \<longleftrightarrow>
      rc_username rc' = rc_username rc \<and> rc_server rc' = rc_server rc \<and> rc_port rc' = rc_port rc"
    using keyringServiceSpec_eq assms(4,5) by blast
  with g l assms(3) r show ?thesis
    by (auto simp: initCredentials_def retrieveFromKeyring_def split: sum.splits)
qed

text \<open>A keyring that keeps its entries in a map.\<close>

definition mapKeyring :: "(string \<times> string \<Rightarrow> string option) keyringOps" where
  "mapKeyring = \<lparr>kr_Get = (\<lambda>k svc u. case k (svc, u) of None \<Rightarrow> Inl ErrNotFound | Some p \<Rightarrow> Inr p),
     kr_Set = (\<lambda>k svc u p. (k((svc, u) := Some p), None))\<rparr>"

definition exampleRoot :: rootConfigT where
  "exampleRoot = \<lparr>rc_server = ''imap.example.org'', rc_port = 993, rc_username = ''me@example.org'',
     rc_password = [], rc_verbose = False, rc_noKeyring = False\<rparr>"

lemma login_then_use_witness:
  "rc_password (fst (fst (initCredentials None (\<lambda>p. Inl ''none'') (Inr ''me'') mapKeyring
     (exampleRoot, fst (loginRun (Inr ''me'') mapKeyring (''secret'', None) (\<lambda>cfg. Ok None) exampleRoot (\<lambda>_. None)))))) =
   ''secret''"
proof -
  let ?l = "loginRun (Inr ''me'') mapKeyring (''secret'', None) (\<lambda>cfg. Ok None) exampleRoot (\<lambda>_. None)"
  have k: "keyringLaws mapKeyring" by (auto simp: keyringLaws_def mapKeyring_def)
  have l: "?l = (fst ?l, Ok (Stored, None))"
    by (simp add: loginRun_def exampleRoot_def addToKeyring_def mapKeyring_def)
  have n: "\<not> rc_noKeyring exampleRoot" "CHR ''@'' \<notin> set (rc_server exampleRoot)" by (simp_all add: exampleRoot_def)
  from login_then_use [OF k l n(1) n(2) n(2), of "\<lambda>p. Inl ''none''"] show ?thesis by simp
qed

section \<open>Reading a command line\<close>

text \<open>Words are separated by blanks outside of double quotes.\<close>

fun splitCmd :: "bool \<Rightarrow> string \<Rightarrow> string \<Rightarrow> string list" where
  "splitCmd q cur [] = [cur]"
| "splitCmd q cur (c # cs) =
     (if c = CHR 0x22 then splitCmd (\<not> q) cur cs
      else if \<not> q \<and> c \<in> {CHR 0x20, CHR 0x09, CHR 0x0A} then cur # splitCmd False [] cs
      else splitCmd q (cur @ [c]) cs)"

lemma splitCmd_word:
  assumes "CHR 0x22 \<notin> set w" "q \<or> set w \<inter> {CHR 0x20, CHR 0x09, CHR 0x0A} = {}"
  shows "splitCmd q cur (w @ cs) = splitCmd q (cur @ w) cs"
  using assms by (induction w arbitrary: cur) auto

lemma contains_single: "contains s [c] \<longleftrightarrow> c \<in> set s"
  by (induction s) (auto simp: hasPrefix_def)

lemma hasSpace_blank: "\<not> hasSpace s \<Longrightarrow> set s \<inter> {CHR 0x20, CHR 0x09, CHR 0x0A} = {}"
  by (auto simp: hasSpace_def spaces_def contains_single)

lemma splitCmd_quoteArg:
  assumes "CHR 0x22 \<notin> set a"
  shows "splitCmd False [] (quoteArg a @ cs) = splitCmd False a cs"
  using assms hasSpace_blank [of a] splitCmd_word [of a True "[]" "CHR 0x22 # cs"] splitCmd_word [of a False "[]" cs]
  by (auto simp: quoteArg_def)

lemma splitCmd_quote:
  "args \<noteq> [] \<Longrightarrow> \<forall>a \<in> set args. CHR 0x22 \<notin> set a \<Longrightarrow>
    splitCmd False [] (joinWith '' '' (quote args)) = args"
proof (induction args rule: induct_list012)
  case (2 a)
  then show ?case using splitCmd_quoteArg [of a "[]"] by (simp add: quote_def)
next
  case (3 a b args)
  then show ?case by (simp add: quote_def splitCmd_quoteArg)
qed simp

lemma splitCmd_no_quote:
  "w \<in> set (splitCmd q cur s) \<Longrightarrow> CHR 0x22 \<notin> set cur \<Longrightarrow> CHR 0x22 \<notin> set w"
  by (induction q cur s rule: splitCmd.induct) (auto split: if_splits)



section \<open>No password in clear text\<close>

text \<open>
  The commands ask for a connection without TLS exactly for the server \<open>127.0.0.1\<close>: for any other
  server no plain connection is made.
\<close>

lemma commands_use_tls:
  assumes "rc_server rc \<noteq> localhost"
  shows "authenticateClient dialTLS dial (commandConfig rc) = authenticateClient dialTLS dial' (commandConfig rc)"
  using assms by (simp add: authenticateClient_def newImapClient_def commandConfig_def)

end
