(* ===== verification/Jobs.thy ===== *)
theory Jobs
  imports Download
begin

text \<open>
  Several folders downloaded at the same time, as the threads of \<open>DownloadFolder\<close> do it: the download
  of one folder (\<open>core/download.go\<close>) in steps on a file system and a delivery counter that other
  threads change in between, and the proof that the downloads do not interfere. Preparing the
  download is one step, then every step of the pipeline is one.
\<close>

section \<open>Model\<close>

text \<open>A download: not begun, with its pipeline running, or over.\<close>

datatype job =
    Waiting
  | Piping string uidFolder "u32 list" "(field list, world) pipeline"
  | Finished "unit res"

type_synonym shared = "fsys \<times> threadSafeCounter"

text \<open>
  \<open>Imapgrabber.downloadMissingEmailsToFolder\<close> up to the start of the pipeline: the result if it does
  not get there, and otherwise the path of the oldmail file, the UID validity and the requested UIDs.
\<close>

definition startDownload ::
    "session \<Rightarrow> interrupter \<Rightarrow> shared \<Rightarrow> shared \<times> interrupter \<times> (unit res + string \<times> uidFolder \<times> u32 list)" where
  "startDownload s i st =
     (case st of (fs, dc) \<Rightarrow>
      case interrupted i of
        (i1, True) \<Rightarrow> (st, i1, Inl (Err ''not downloading due to previous interrupt''))
      | (i1, False) \<Rightarrow>
         (case prepareDownload s i1 fs of
            (fs1, i2, Err e) \<Rightarrow> ((fs1, dc), i2, Inl (Err e))
          | (fs1, i2, Panic p) \<Rightarrow> ((fs1, dc), i2, Inl (Panic p))
          | (fs1, i2, Ok (path, uidFold, missing)) \<Rightarrow>
             if missing = [] then ((fs1, dc), i2, Inl (Ok ()))
             else
               (case retrievalRequest missing of
                  Err e \<Rightarrow> ((fs1, dc), i2, Inl (Err e))
                | Panic p \<Rightarrow> ((fs1, dc), i2, Inl (Panic p))
                | Ok ns \<Rightarrow>
                   (case writeout_open path fs1 of
                      (fs2, Err e) \<Rightarrow> ((fs2, dc), i2, Inl (Err e))
                    | (fs2, Panic p) \<Rightarrow> ((fs2, dc), i2, Inl (Panic p))
                    | (fs2, Ok _) \<Rightarrow> ((fs2, dc), i2, Inr (path, uidFold, ns))))))"

text \<open>The part of the store that is shared, and a pipeline that finds the shared state changed.\<close>

definition sharedOf :: "(field list, world) pipeline \<Rightarrow> shared" where
  "sharedOf p = (w_fs (store p), w_dc (store p))"

definition attach :: "shared \<Rightarrow> (field list, world) pipeline \<Rightarrow> (field list, world) pipeline" where
  "attach st p = p\<lparr>store := (store p)\<lparr>w_fs := fst st, w_dc := snd st\<rparr>\<rparr>"

text \<open>The handler of the connection is with the pipeline while it runs.\<close>

inductive jobStep :: "session \<Rightarrow> (interrupter \<times> job) \<times> shared \<Rightarrow> (interrupter \<times> job) \<times> shared \<Rightarrow> bool" for s where
  answered: "startDownload s i st = (st', i', Inl r) \<Longrightarrow>
     jobStep s ((i, Waiting), st) ((i', Finished r), st')"
| started: "startDownload s i st = (st', i', Inr (path, v, ns)) \<Longrightarrow>
     jobStep s ((i, Waiting), st) ((i', Piping path v ns (downloadStart s ns i' (fst st') (snd st'))), st')"
| piped: "pstep (downloadStages s path v ns) (attach st p) p' \<Longrightarrow>
     jobStep s ((i, Piping path v ns p), st) ((i, Piping path v ns p'), sharedOf p')"
| returned: "mainPc p = MReturn e d n \<Longrightarrow>
     jobStep s ((i, Piping path v ns p), st) ((sig p, Finished (downloadResult e d n)), st)"

inductive_cases jobStep_WaitingE: "jobStep s ((i, Waiting), st) x"
inductive_cases jobStep_PipingE: "jobStep s ((i, Piping path v ns p), st) x"
inductive_cases jobStep_FinishedE: "jobStep s ((i, Finished r), st) x"

lemma sharedOf_attach [simp]: "sharedOf (attach st p) = st"
  by (simp add: sharedOf_def attach_def)

lemma attach_sharedOf [simp]: "attach (sharedOf p) p = p"
  by (simp add: sharedOf_def attach_def)

section \<open>Alone, the steps make up the whole download\<close>

lemma writeout_open_no_panic [simp]: "writeout_open path fs \<noteq> (fs', Panic p)"
  unfolding writeout_open_def openFileAppend_def by (metis os_Create_no_panic snd_conv)

lemma startDownload_big:
  assumes "startDownload s i st = (st', i', Inl r)"
  shows "ig_downloadMissingEmailsToFolder s i st (st', r)"
proof -
  obtain fs dc where st: "st = (fs, dc)" by fastforce
  show ?thesis
    using assms unfolding ig_downloadMissingEmailsToFolder_def startDownload_def st
    by (auto split: prod.splits bool.splits res.splits if_splits intro: downloadMissingEmailsToFolder.intros)
qed

lemma startDownload_run:
  assumes "startDownload s i st = (st', i', Inr (path, v, ns))"
  obtains i1 fs1 missing u where "interrupted i = (i1, False)"
    "prepareDownload s i1 (fst st) = (fs1, i', Ok (path, v, missing))" "missing \<noteq> []"
    "retrievalRequest missing = Ok ns" "writeout_open path fs1 = (fst st', Ok u)" "snd st' = snd st"
  using assms
  by (auto simp: startDownload_def split: prod.splits bool.splits res.splits if_splits)

definition alone_inv :: "session \<Rightarrow> interrupter \<Rightarrow> shared \<Rightarrow> (interrupter \<times> job) \<times> shared \<Rightarrow> bool" where
  "alone_inv s i st x \<longleftrightarrow>
     (case x of ((i', j), st') \<Rightarrow>
        case j of
          Waiting \<Rightarrow> i' = i \<and> st' = st
        | Piping path v ns p \<Rightarrow> st' = sharedOf p \<and>
            (\<exists>st1 i1. startDownload s i st = (st1, i1, Inr (path, v, ns)) \<and>
               (pstep (downloadStages s path v ns))\<^sup>*\<^sup>* (downloadStart s ns i1 (fst st1) (snd st1)) p)
        | Finished r \<Rightarrow> ig_downloadMissingEmailsToFolder s i st (st', r))"

lemma sharedOf_start [simp]: "sharedOf (downloadStart s ns i fs dc) = (fs, dc)"
  by (simp add: sharedOf_def downloadStart_def setUp_def)

lemma alone_inv_step: "jobStep s x y \<Longrightarrow> alone_inv s i st x \<Longrightarrow> alone_inv s i st y"
proof (induction rule: jobStep.induct)
  case (answered i2 st2 st' i' r)
  then show ?case by (simp add: alone_inv_def startDownload_big)
next
  case (started i2 st2 st' i' path v ns)
  then show ?case by (auto simp: alone_inv_def)
next
  case (piped path v ns st2 p p' i2)
  then show ?case by (auto simp: alone_inv_def intro: rtranclp.rtrancl_into_rtrancl)
next
  case (returned p e d n i2 path v ns st2)
  then obtain st1 i1 where r: "startDownload s i st = (st1, i1, Inr (path, v, ns))"
    "(pstep (downloadStages s path v ns))\<^sup>*\<^sup>* (downloadStart s ns i1 (fst st1) (snd st1)) p" "st2 = sharedOf p"
    by (auto simp: alone_inv_def)
  obtain fs dc where st: "st = (fs, dc)" by fastforce
  show ?case
  proof (rule startDownload_run [OF r(1)])
    fix i0 fs1 missing u
    assume a: "interrupted i = (i0, False)" "prepareDownload s i0 (fst st) = (fs1, i1, Ok (path, v, missing))"
      "missing \<noteq> []" "retrievalRequest missing = Ok ns" "writeout_open path fs1 = (fst st1, Ok u)" "snd st1 = snd st"
    have "downloadMissingEmailsToFolder s i0 (fs, dc) ((w_fs (store p), w_dc (store p)), downloadResult e d n)"
      using a r(2) returned(1) by (intro downloadMissingEmailsToFolder.ran [OF _ a(3,4) a(5)]) (simp_all add: st)
    then show ?thesis using a(1) r(3)
      by (simp add: alone_inv_def ig_downloadMissingEmailsToFolder_def sharedOf_def st)
  qed
qed

lemma piped_many:
  "(pstep (downloadStages s path v ns))\<^sup>*\<^sup>* p p' \<Longrightarrow>
    (jobStep s)\<^sup>*\<^sup>* ((i, Piping path v ns p), sharedOf p) ((i, Piping path v ns p'), sharedOf p')"
proof (induction rule: rtranclp_induct)
  case (step p' p'')
  have "jobStep s ((i, Piping path v ns p'), sharedOf p') ((i, Piping path v ns p''), sharedOf p'')"
    by (rule jobStep.piped) (simp add: step(2))
  with step(3) show ?case by simp
qed simp

lemma startDownload_small:
  assumes "ig_downloadMissingEmailsToFolder s i st (st', r)"
  shows "\<exists>i'. (jobStep s)\<^sup>*\<^sup>* ((i, Waiting), st) ((i', Finished r), st')"
proof -
  obtain fs dc where st: "st = (fs, dc)" by fastforce
  obtain i1 b where i: "interrupted i = (i1, b)" by fastforce
  show ?thesis
  proof (cases b)
    case True
    have "jobStep s ((i, Waiting), st) ((i1, Finished r), st')"
      using assms True i by (intro jobStep.answered)
        (auto simp: startDownload_def ig_downloadMissingEmailsToFolder_def st)
    then show ?thesis by blast
  next
    case False
    then have d: "downloadMissingEmailsToFolder s i1 (fs, dc) (st', r)"
      using assms i by (simp add: ig_downloadMissingEmailsToFolder_def st)
    have imm: ?thesis if "startDownload s i (fs, dc) = (st', i2, Inl r)" for i2
      using jobStep.answered [OF that] unfolding st by blast
    from d show ?thesis
    proof (cases rule: downloadMissingEmailsToFolder.cases)
      case (failed fs1 i2 e)
      then show ?thesis using i False by (intro imm [of i2]) (simp add: startDownload_def)
    next
      case (panicked fs1 i2 p)
      then show ?thesis using i False by (intro imm [of i2]) (simp add: startDownload_def)
    next
      case (nothing fs1 i2 path v)
      then show ?thesis using i False by (intro imm [of i2]) (simp add: startDownload_def)
    next
      case (request_failed fs1 i2 path v missing e)
      then show ?thesis using i False by (intro imm [of i2]) (simp add: startDownload_def)
    next
      case (request_panicked fs1 i2 path v missing p)
      then show ?thesis using i False by (intro imm [of i2]) (simp add: startDownload_def)
    next
      case (open_failed fs1 i2 path v missing ns fs2 e)
      then show ?thesis using i False by (intro imm [of i2]) (simp add: startDownload_def)
    next
      case (ran fs1 i2 path v missing ns fs2 u p e d n)
      have "startDownload s i (fs, dc) = ((fs2, dc), i2, Inr (path, v, ns))"
        using ran i False by (simp add: startDownload_def)
      from jobStep.started [OF this]
      have "jobStep s ((i, Waiting), st) ((i2, Piping path v ns (downloadStart s ns i2 fs2 dc)), (fs2, dc))"
        by (simp add: st)
      moreover have "(jobStep s)\<^sup>*\<^sup>* ((i2, Piping path v ns (downloadStart s ns i2 fs2 dc)), (fs2, dc))
          ((i2, Piping path v ns p), sharedOf p)"
        using piped_many [OF ran(7), of i2] by simp
      moreover have "jobStep s ((i2, Piping path v ns p), sharedOf p) ((sig p, Finished (downloadResult e d n)), sharedOf p)"
        by (rule jobStep.returned) (rule ran)
      ultimately have "(jobStep s)\<^sup>*\<^sup>* ((i, Waiting), st) ((sig p, Finished (downloadResult e d n)), sharedOf p)"
        by (meson converse_rtranclp_into_rtranclp rtranclp.rtrancl_into_rtrancl)
      with ran(1,2) show ?thesis by (auto simp: sharedOf_def)
    qed
  qed
qed


section \<open>What a step leaves to the others\<close>

text \<open>
  From \<open>fs\<close> to \<open>fs'\<close>, only the file \<open>k\<close> may lose content; of the files in \<open>K\<close> no other one changes,
  and none is created.
\<close>

definition leavesOthers :: "string list \<Rightarrow> string list set \<Rightarrow> fsys \<Rightarrow> fsys \<Rightarrow> bool" where
  "leavesOthers k K fs fs' \<longleftrightarrow> faults fs' = faults fs \<and>
     (\<forall>x n. x \<noteq> k \<longrightarrow> look fs x = Some n \<longrightarrow> look fs' x = Some n) \<and>
     (\<forall>x \<in> K. x \<noteq> k \<longrightarrow> nodes fs' x = nodes fs x)"

lemma leavesOthers_refl [simp]: "leavesOthers k K fs fs"
  by (simp add: leavesOthers_def)

lemma leavesOthers_trans: "leavesOthers k K fs fs' \<Longrightarrow> leavesOthers k K fs' fs'' \<Longrightarrow> leavesOthers k K fs fs''"
  unfolding leavesOthers_def by metis

lemma leavesOthers_same_except: "same_except {k} fs fs' \<Longrightarrow> leavesOthers k K fs fs'"
  by (auto simp: leavesOthers_def same_except_def look_def)

lemma leavesOthers_mkdirs: "set ks \<inter> K = {} \<Longrightarrow> leavesOthers k K fs (fst (mkdirs ks fs))"
proof (induction ks arbitrary: fs)
  case (Cons j ks)
  have "leavesOthers k K fs (put_node j (Some Dir) fs)" if "look fs j = None"
    using that Cons.prems by (auto simp: leavesOthers_def)
  with Cons show ?case by (auto split: option.split node.split intro: leavesOthers_trans)
qed simp

lemma leavesOthers_mkdirAlls:
  "(\<forall>p \<in> set ps. ancestors (path_key p) \<inter> K = {}) \<Longrightarrow> leavesOthers k K fs (fst (mkdirAlls ps fs))"
proof (induction ps arbitrary: fs)
  case (Cons p ps)
  have "set (map (\<lambda>n. take n (path_key p)) [0..<Suc (length (path_key p))]) \<subseteq> ancestors (path_key p)"
    by (auto simp: ancestors_def take_is_prefix)
  moreover have "ancestors (path_key p) \<inter> K = {}" using Cons.prems by simp
  ultimately have "leavesOthers k K fs (fst (os_MkdirAll (path_key p) fs))"
    unfolding os_MkdirAll_def by (intro leavesOthers_mkdirs) blast
  with Cons show ?case by (auto split: prod.split res.split intro: leavesOthers_trans)
qed simp

lemma leavesOthers_createMaildir:
  assumes "maildirKeys p \<inter> K = {}"
  shows "leavesOthers (oldmailKey p om) K fs (fst (createMaildir om p fs))"
proof -
  let ?ps = "folderPath p # map (\<lambda>d. joinPath [folderPath p, d]) [newMaildir, curMaildir, tmpMaildir]"
  have "\<forall>q \<in> set ?ps. ancestors (path_key q) \<inter> K = {}"
    using assms by (auto simp: maildirKeys_def ancestors_append)
  from leavesOthers_mkdirAlls [OF this] have "leavesOthers (oldmailKey p om) K fs (fst (mkdirAlls ?ps fs))" .
  moreover have "leavesOthers (oldmailKey p om) K gs (fst (touch (joinPath [basePath p, om]) gs))" for gs
    by (intro leavesOthers_same_except) (simp add: touch_def oldmailKey_def same_except_WriteFile)
  ultimately show ?thesis
    unfolding createMaildir_def Let_def by (auto split: prod.split res.split intro: leavesOthers_trans)
qed

lemma leavesOthers_initMaildir:
  assumes "maildirKeys p \<inter> K = {}"
  shows "leavesOthers (oldmailKey p (replaceAll om (CHR ''/'') ''.'')) K fs (fst (initMaildir om p fs))"
proof -
  let ?om = "replaceAll om (CHR ''/'') ''.''"
  obtain fs' r where c: "createMaildir ?om p fs = (fs', r)" by fastforce
  with leavesOthers_createMaildir [OF assms, of ?om fs] show ?thesis
    by (auto simp: initMaildir_def Let_def split: res.split bool.split)
qed

text \<open>The oldmail file of a session.\<close>

definition oldmailPath :: "session \<Rightarrow> string" where
  "oldmailPath s = joinPath [basePath (s_path s), replaceAll (s_oldmailName s) (CHR ''/'') ''.'']"

definition oldmailOf :: "session \<Rightarrow> string list" where
  "oldmailOf s = path_key (oldmailPath s)"

lemma oldmailOf_eq: "oldmailOf s = oldmailKey (s_path s) (replaceAll (s_oldmailName s) (CHR ''/'') ''.'')"
  by (simp add: oldmailOf_def oldmailPath_def oldmailKey_def)

lemma leavesOthers_prepare:
  assumes "maildirKeys (s_path s) \<inter> K = {}" "prepareDownload s i fs = (fs', r)"
  shows "leavesOthers (oldmailOf s) K fs fs'"
  using leavesOthers_initMaildir [OF assms(1), of "s_oldmailName s" fs] assms(2)
  by (auto simp: prepareDownload_def oldmailOf_eq split: prod.splits res.splits bool.splits option.splits)

lemma prepare_path:
  assumes "prepareDownload s i fs = (fs1, i1, Ok (path, v, missing))"
  shows "path = oldmailPath s"
proof (rule prepareDownload_Ok [OF assms])
  fix oldmails assume "initMaildir (s_oldmailName s) (s_path s) fs = (fs1, Ok (oldmails, path))"
  from initMaildir_result(2) [OF this] show ?thesis by (simp add: oldmailPath_def)
qed

lemma leavesOthers_start:
  assumes m: "maildirKeys (s_path s) \<inter> K = {}" and s: "startDownload s i st = (st', i', r)"
  shows "leavesOthers (oldmailOf s) K (fst st) (fst st')"
proof -
  obtain fs dc where st: "st = (fs, dc)" by fastforce
  obtain i1 b where i: "interrupted i = (i1, b)" by fastforce
  obtain fs1 i2 q where p: "prepareDownload s i1 fs = (fs1, i2, q)" by (metis prod_cases3)
  note l = leavesOthers_prepare [OF m p]
  have w: "leavesOthers (oldmailOf s) K fs fs2"
    if "q = Ok (path, v, missing)" "writeout_open path fs1 = (fs2, o1)" for path v missing fs2 o1
  proof (rule leavesOthers_trans [OF l])
    from prepare_path [of s i1 fs fs1 i2 path v missing] p that have "path_key path = oldmailOf s"
      by (simp add: oldmailOf_def)
    then have "leavesOthers (oldmailOf s) K fs1 (fst (writeout_open path fs1))"
      unfolding writeout_open_def openFileAppend_def
      by (intro leavesOthers_same_except) (simp add: same_except_Create)
    with that(2) show "leavesOthers (oldmailOf s) K fs1 fs2" by simp
  qed
  show ?thesis
  proof (cases b)
    case True
    with s show ?thesis by (simp add: startDownload_def st i)
  next
    case False
    show ?thesis
    proof (cases q)
      case (Ok x)
      obtain path v missing where x: "x = (path, v, missing)" by (metis prod_cases3)
      obtain fs2 o1 where o: "writeout_open path fs1 = (fs2, o1)" by fastforce
      from s l w [OF Ok [unfolded x] o] False Ok x o show ?thesis
        by (auto simp: startDownload_def st i p split: if_splits res.splits)
    qed (use s l False in \<open>auto simp: startDownload_def st i p\<close>)
  qed
qed

section \<open>Steps of the pipeline on the disk\<close>

text \<open>The files in \<open>K\<close> are none that the download of \<open>s\<close> creates.\<close>

definition roomFor :: "session \<Rightarrow> string list set \<Rightarrow> bool" where
  "roomFor s K \<longleftrightarrow> goodNames s \<and> maildirKeys (s_path s) \<inter> K = {} \<and>
     (\<forall>k \<in> K. \<forall>f. k \<noteq> tmpKey (folderPath (s_path s)) f \<and> k \<noteq> newKey (folderPath (s_path s)) f)"

lemma deliverBody_leaves:
  assumes g: "mailStore mb path w" and d: "deliverBody env u mb m w = (w', r)"
    and k: "\<forall>k \<in> K. \<forall>f. k \<noteq> tmpKey mb f \<and> k \<noteq> newKey mb f"
  shows "leavesOthers j K (w_fs w) (w_fs w')"
proof -
  note e = deliverBody_effect [OF g d]
  have mb: "mb \<noteq> []" using g by (simp add: mailStore_def)
  have "nodes (w_fs w') x = nodes (w_fs w) x" if x: "x \<in> K" for x
    using g
  proof (cases rule: deliverBody_cases [where env = env and u = u and m = m])
    case (bad e)
    with d show ?thesis by (auto simp: deliverBody_def split: res.splits prod.splits)
  next
    case (good body om fs dc q)
    with deliverMessage_frame [OF mb _ good(2), of x] d k x show ?thesis by auto
  qed
  with e show ?thesis by (auto simp: leavesOthers_def grows_def)
qed

lemma writeout_leaves:
  assumes "writeout_step path om (fs, wo) = (fs', wo')"
  shows "leavesOthers (path_key path) K fs fs'"
proof (rule leavesOthers_same_except)
  show "same_except {path_key path} fs fs'"
    using assms same_except_Write [of "path_key path" "{path_key path}" fs "oldmailLine om"]
    by (auto simp: writeout_step_def split: prod.splits res.splits if_splits)
qed

lemma pstep_leaves:
  assumes p: "pstep (downloadStages s path v ns) q q'" and g: "mailStore (folderPath (s_path s)) path (store q)"
    and k: "\<forall>k \<in> K. \<forall>f. k \<noteq> tmpKey (folderPath (s_path s)) f \<and> k \<noteq> newKey (folderPath (s_path s)) f"
  shows "leavesOthers (path_key path) K (w_fs (store q)) (w_fs (store q'))"
  using p
proof (cases rule: pstep.cases)
  case (deliver_ok m r w om)
  then show ?thesis using deliverBody_leaves [OF g _ k] by (simp add: downloadStages_def mailStages_def)
next
  case (deliver_err m r w e)
  then show ?thesis using deliverBody_leaves [OF g _ k] by (simp add: downloadStages_def mailStages_def)
next
  case (write_recv om r)
  obtain fs wo where w: "writeout_step path om (w_fs (store q), w_out (store q)) = (fs, wo)" by fastforce
  with write_recv writeout_leaves [OF w] show ?thesis
    by (simp add: downloadStages_def mailStages_def rememberBody_def)
qed (simp_all add: downloadStages_def)

section \<open>The invariant of a job\<close>

text \<open>
  What was found out before the pipeline was started: the oldmail file had the content \<open>c\<close> and the
  entries \<open>oldmails\<close> (it was as in the first file system \<open>fs0\<close>, or the function has just created it).
\<close>

definition jobData ::
    "session \<Rightarrow> fsys \<Rightarrow> oldmail list \<Rightarrow> string \<Rightarrow> mailboxStatus \<Rightarrow> uidExt list \<Rightarrow> uid list \<Rightarrow> bool" where
  "jobData s fs0 oldmails c mbox uids missing \<longleftrightarrow>
     Select (s_ops s) (mfolder (s_path s)) True = Ok mbox \<and> s_listed s mbox = (uids, None) \<and>
     determineMissingUIDs oldmails uids = Ok missing \<and>
     (oldmails = [] \<and> c = [] \<or> readOldmail fs0 (oldmailPath s) = Ok oldmails \<and> c = content fs0 (oldmailOf s)) \<and>
     (\<exists>fs. readOldmail fs (oldmailPath s) = Ok oldmails \<and> content fs (oldmailOf s) = c \<and> faults fs = faults fs0)"

text \<open>The file of the last stage: of the entries it has received, \<open>n\<close> and a part of one more are there.\<close>

definition written :: "writeout \<Rightarrow> oldmail list \<Rightarrow> nat \<Rightarrow> string \<Rightarrow> bool" where
  "written wo ws n part \<longleftrightarrow> n \<le> length ws \<and> (wr_errCount wo = 0 \<longrightarrow> wr_err wo = None) \<and>
     (wr_err wo = None \<longrightarrow> n = length ws \<and> part = []) \<and>
     (part = [] \<or> n < length ws \<and> prefix part (oldmailLine (ws ! n)))"

definition dataInv ::
    "uidFolder \<Rightarrow> string \<Rightarrow> string list \<Rightarrow> string \<Rightarrow> field list option list \<Rightarrow> (field list, world) pipeline \<Rightarrow> fsys \<Rightarrow> bool" where
  "dataInv v mb key c msgs p fs \<longleftrightarrow>
     (\<exists>taken ms sel ws n part. msgs = taken @ unsent (fetchPc p) \<and>
        somes taken = ms @ translated p @ heldMsg (transPc p) \<and>
        subseq sel ms \<and> length sel + deliverErrCount p = length ms \<and>
        list_all2 (stored v mb fs) sel (ws @ delivered p @ heldMail (deliverPc p)) \<and>
        nodes fs key = Some (File (c @ concat (map oldmailLine (take n ws)) @ part)) \<and>
        written (w_out (store p)) ws n part)"

text \<open>The folder has its maildir.\<close>

definition maildirThere :: "session \<Rightarrow> fsys \<Rightarrow> bool" where
  "maildirThere s fs \<longleftrightarrow> isMaildir fs (folderPath (s_path s)) = Ok True \<and>
     look fs (path_key (folderPath (s_path s))) = Some Dir"

definition folderDone :: "session \<Rightarrow> fsys \<Rightarrow> fsys \<Rightarrow> bool" where
  "folderDone s fs0 fs \<longleftrightarrow> maildirThere s fs \<and>
     (\<exists>oldmails c mbox uids missing oms. jobData s fs0 oldmails c mbox uids missing \<and>
        (if missing = [] then oms = []
         else list_all2 (backedUp s (ucast (UidValidity mbox)) fs)
                (somes (fst (UidFetch (s_ops s) (map ucast missing)))) oms) \<and>
        nodes fs (oldmailOf s) = Some (File (c @ concat (map oldmailLine oms))))"

definition pipingInv ::
    "session \<Rightarrow> fsys \<Rightarrow> string \<Rightarrow> uidFolder \<Rightarrow> u32 list \<Rightarrow> (field list, world) pipeline \<Rightarrow> fsys \<Rightarrow> bool" where
  "pipingInv s fs0 path v ns p fs \<longleftrightarrow>
     path = oldmailPath s \<and> ctrl_inv (downloadStages s path v ns) p \<and> maildirThere s fs \<and>
     (\<exists>oldmails c mbox uids missing. jobData s fs0 oldmails c mbox uids missing \<and> missing \<noteq> [] \<and>
        ns = map ucast missing \<and> v = ucast (UidValidity mbox) \<and>
        dataInv v (folderPath (s_path s)) (oldmailOf s) c (fst (UidFetch (s_ops s) ns)) p fs)"

text \<open>
  Also after a failure: the oldmail file has old content or none, then complete entries and possibly
  a part of one more, all of messages that are stored.
\<close>

definition remembersOnlyStored :: "session \<Rightarrow> fsys \<Rightarrow> fsys \<Rightarrow> bool" where
  "remembersOnlyStored s fs0 fs \<longleftrightarrow>
     (\<exists>c entries part om v. c \<in> {[], content fs0 (oldmailOf s)} \<and>
        content fs (oldmailOf s) = c @ concat (map oldmailLine entries) @ part \<and> prefix part (oldmailLine om) \<and>
        (\<forall>x \<in> set entries \<union> (if part = [] then {} else {om}). \<exists>m. stored v (folderPath (s_path s)) fs m x))"

definition jobInv :: "session \<Rightarrow> fsys \<Rightarrow> job \<Rightarrow> fsys \<Rightarrow> bool" where
  "jobInv s fs0 j fs \<longleftrightarrow> faults fs = faults fs0 \<and>
     (case j of
        Waiting \<Rightarrow> nodes fs (oldmailOf s) = nodes fs0 (oldmailOf s)
      | Piping path v ns p \<Rightarrow> pipingInv s fs0 path v ns p fs
      | Finished (Ok _) \<Rightarrow> folderDone s fs0 fs
      | Finished _ \<Rightarrow> remembersOnlyStored s fs0 fs)"

section \<open>The steps keep the invariant\<close>

lemma maildirThere_kept:
  assumes m: "maildirThere s fs" and l: "leavesOthers k K fs fs'" and k: "k \<notin> maildirKeys (s_path s)"
  shows "maildirThere s fs'"
proof -
  let ?p = "folderPath (s_path s)"
  have d: "look fs' x = Some Dir" if "x \<in> maildirKeys (s_path s)" "look fs x = Some Dir" for x
    using l k that unfolding leavesOthers_def by metis
  have "isDir fs' (joinPath [?p, d]) = Ok True" if "d \<in> {newMaildir, curMaildir, tmpMaildir}" for d
  proof -
    have i: "isDir fs (joinPath [?p, d]) = Ok True"
      using m that by (auto simp: maildirThere_def isMaildir_def split: if_splits)
    have "path_key (joinPath [?p, d]) = path_key ?p @ [d]" using that by (intro path_key_joinPath) auto
    then have "path_key (joinPath [?p, d]) \<in> maildirKeys (s_path s)" using that by (auto simp: maildirKeys_def)
    from d [OF this isDir_TrueD [OF i]] isDir_kept [OF i] l show ?thesis by (simp add: leavesOthers_def)
  qed
  then have "isMaildir fs' ?p = Ok True" by (simp add: isMaildir_def)
  moreover have "path_key ?p \<in> maildirKeys (s_path s)" by (simp add: maildirKeys_def ancestors_def)
  ultimately show ?thesis using m d by (simp add: maildirThere_def)
qed

lemma written_step:
  assumes w: "written wo ws n part" and c: "nodes fs (path_key path) = Some (File (c @ concat (map oldmailLine (take n ws)) @ part))"
    and s: "writeout_step path om (fs, wo) = (fs', wo')"
  shows "\<exists>n' part'. written wo' (ws @ [om]) n' part' \<and>
    nodes fs' (path_key path) = Some (File (c @ concat (map oldmailLine (take n' (ws @ [om]))) @ part'))"
proof (cases "wr_err wo = None")
  case True
  have n: "n = length ws" "part = []" using w True by (simp_all add: written_def)
  have k: "content fs (path_key path) = c @ concat (map oldmailLine ws)"
    using c n by (simp add: content_def)
  show ?thesis
  proof (cases "faults fs OpWrite (path_key path) (length (content fs (path_key path)))")
    case None
    then show ?thesis using s True w k n
      by (intro exI [of _ "Suc n"] exI [of _ "[]"]) (auto simp: writeout_step_cases written_def)
  next
    case (Some em)
    obtain e m where em: "em = (e, m)" by fastforce
    then show ?thesis using s True w k n Some
      by (intro exI [of _ n] exI [of _ "take m (oldmailLine om)"])
        (auto simp: writeout_step_cases written_def take_is_prefix)
  qed
next
  case False
  then have "fs' = fs" "wo' = wo" using s by (auto simp: writeout_step_def)
  with False w c show ?thesis by (intro exI [of _ n] exI [of _ part]) (auto simp: written_def nth_append)
qed

lemma written_close:
  assumes "written wo ws n part" and "writeout_close path (fs, wo) = (fs', wo')"
  shows "fs' = fs \<and> written wo' ws n part"
  using assms by (auto simp: writeout_close_def written_def split: option.splits)

lemma dataInv_deliver:
  assumes i: "dataInv v mb (path_key path) c msgs q (w_fs (store q))" and g: "mailStore mb path (store q)"
    and q: "deliverPc q = DRecv" "translated q = m # r" and d: "deliverBody env v mb m (store q) = (w, res)"
    and q': "translated q' = r" "store q' = w" "delivered q' = delivered q" "fetchPc q' = fetchPc q" "transPc q' = transPc q"
      "case res of Ok om \<Rightarrow> deliverPc q' = DSend om \<and> deliverErrCount q' = deliverErrCount q
       | _ \<Rightarrow> deliverPc q' = DRecv \<and> deliverErrCount q' = Suc (deliverErrCount q)"
  shows "dataInv v mb (path_key path) c msgs q' (w_fs (store q'))"
proof -
  obtain taken ms sel ws n part where a: "msgs = taken @ unsent (fetchPc q)"
    "somes taken = ms @ translated q @ heldMsg (transPc q)" "subseq sel ms"
    "length sel + deliverErrCount q = length ms" "list_all2 (stored v mb (w_fs (store q))) sel (ws @ delivered q)"
    "nodes (w_fs (store q)) (path_key path) = Some (File (c @ concat (map oldmailLine (take n ws)) @ part))"
    "written (w_out (store q)) ws n part"
    using i q(1) unfolding dataInv_def by auto
  note e = deliverBody_effect [OF g d]
  from e have gr: "grows (w_fs (store q)) (w_fs w)" by blast
  from a(5) have l: "list_all2 (stored v mb (w_fs w)) sel (ws @ delivered q)"
    by (rule list_all2_mono) (blast intro: stored_grows [OF _ gr])
  show ?thesis
  proof (cases res)
    case (Ok om)
    with e have "stored v mb (w_fs w) m om" by blast
    with l a e q q' Ok show ?thesis unfolding dataInv_def
      by (intro exI [of _ taken] exI [of _ "ms @ [m]"] exI [of _ "sel @ [m]"] exI [of _ ws] exI [of _ n] exI [of _ part])
        (auto intro: list_emb_append_mono list_all2_appendI simp flip: append_assoc)
  next
    case (Err x)
    with l a e q q' show ?thesis unfolding dataInv_def
      by (intro exI [of _ taken] exI [of _ "ms @ [m]"] exI [of _ sel] exI [of _ ws] exI [of _ n] exI [of _ part])
        (auto intro: subseq_order.trans)
  qed (use e in auto)
qed

lemma dataInv_step:
  assumes p: "pstep (downloadStages s path v ns) q q'"
    and i: "dataInv v (folderPath (s_path s)) (path_key path) c msgs q (w_fs (store q))"
    and g: "mailStore (folderPath (s_path s)) path (store q)"
  shows "dataInv v (folderPath (s_path s)) (path_key path) c msgs q' (w_fs (store q'))"
proof -
  let ?mb = "folderPath (s_path s)"
  obtain taken ms sel ws n part where a: "msgs = taken @ unsent (fetchPc q)"
    "somes taken = ms @ translated q @ heldMsg (transPc q)" "subseq sel ms"
    "length sel + deliverErrCount q = length ms"
    "list_all2 (stored v ?mb (w_fs (store q))) sel (ws @ delivered q @ heldMail (deliverPc q))"
    "nodes (w_fs (store q)) (path_key path) = Some (File (c @ concat (map oldmailLine (take n ws)) @ part))"
    "written (w_out (store q)) ws n part"
    using i unfolding dataInv_def by blast
  note now = exI [of _ ms] exI [of _ sel]
  have rest: ?thesis if "unsent (fetchPc q') = unsent (fetchPc q)" "deliverErrCount q' = deliverErrCount q"
    "translated q' @ heldMsg (transPc q') = translated q @ heldMsg (transPc q)" "store q' = store q"
    "delivered q' @ heldMail (deliverPc q') = delivered q @ heldMail (deliverPc q)"
    using i by (simp add: dataInv_def that)
  from p show ?thesis
  proof (cases rule: pstep.cases)
    case (fetch_send x xs)
    then show ?thesis using a unfolding dataInv_def
      by (intro exI [of _ "taken @ [x]"] now exI [of _ ws] exI [of _ n] exI [of _ part])
        (auto simp: somes_append split: option.split)
  next
    case (deliver_ok m r w om)
    then show ?thesis
      by (intro dataInv_deliver [OF i g deliver_ok(3,4), where w = w and res = "Ok om"]) (simp_all add: downloadStages_def mailStages_def)
  next
    case (deliver_err m r w e)
    then show ?thesis
      by (intro dataInv_deliver [OF i g deliver_err(3,4), where w = w and res = "Err e"]) (simp_all add: downloadStages_def mailStages_def)
  next
    case (write_recv om r)
    obtain fs wo where w: "writeout_step path om (w_fs (store q), w_out (store q)) = (fs, wo)" by fastforce
    have q': "w_fs (store q') = fs" "w_out (store q') = wo"
      using write_recv w by (simp_all add: downloadStages_def mailStages_def rememberBody_def)
    have l: "list_all2 (stored v ?mb fs) sel ((ws @ [om]) @ delivered q' @ heldMail (deliverPc q'))"
    proof -
      have "newKey ?mb f \<noteq> path_key path" for f using g unfolding mailStore_def by metis
      then have st: "stored v ?mb (w_fs (store q)) m x \<Longrightarrow> stored v ?mb fs m x" for m x
        using writeout_leaves [OF w, of "{}"] unfolding stored_def leavesOthers_def by blast
      have "list_all2 (stored v ?mb (w_fs (store q))) sel ((ws @ [om]) @ delivered q' @ heldMail (deliverPc q'))"
        using a(5) write_recv by simp
      then show ?thesis by (rule list_all2_mono) (rule st)
    qed
    obtain n' part' where "written wo (ws @ [om]) n' part'"
      "nodes fs (path_key path) = Some (File (c @ concat (map oldmailLine (take n' (ws @ [om]))) @ part'))"
      using written_step [OF a(7,6) w] by blast
    with a write_recv l q' show ?thesis unfolding dataInv_def
      by (intro exI [of _ taken] now exI [of _ "ws @ [om]"] exI [of _ n'] exI [of _ part']) simp
  next
    case write_end
    obtain fs wo where w: "writeout_close path (w_fs (store q), w_out (store q)) = (fs, wo)" by fastforce
    with written_close [OF a(7) w] write_end a show ?thesis unfolding dataInv_def
      by (intro exI [of _ taken] now exI [of _ ws] exI [of _ n] exI [of _ part])
        (simp add: downloadStages_def mailStages_def finishBody_def)
  qed (use rest in simp_all)
qed

lemma read_empty:
  assumes "readOldmail fs path = Ok xs" and "nodes fs (path_key path) = Some (File [])"
  shows "xs = []"
proof -
  have "isFile fs path = Ok True" "bind_res (os_ReadAll fs (path_key path)) (decodeFile parseLine) = Ok xs"
    using assms(1) by (simp_all add: readOldmail_Ok)
  moreover have "path_key path \<noteq> []" "path_key path \<noteq> [[]]" using isFile_content calculation(1) by auto
  moreover have "decodeFile parseLine [] = Ok []" by code_simp
  ultimately show ?thesis using assms(2) by (auto simp: os_ReadAll_def look_def split: option.splits)
qed

lemma prepare_data:
  assumes p: "prepareDownload s i fs = (fs1, i1, Ok (path, v, missing))"
    and f: "faults fs = faults fs0" "nodes fs (oldmailOf s) = nodes fs0 (oldmailOf s)"
  obtains oldmails c mbox uids where "jobData s fs0 oldmails c mbox uids missing" "v = ucast (UidValidity mbox)"
    "nodes fs1 (oldmailOf s) = Some (File c)" "faults fs1 = faults fs0" "maildirThere s fs1"
proof (rule prepareDownload_Ok [OF p])
  fix oldmails mbox uids
  assume a: "initMaildir (s_oldmailName s) (s_path s) fs = (fs1, Ok (oldmails, path))"
    "Select (s_ops s) (mfolder (s_path s)) True = Ok mbox" "s_listed s mbox = (uids, None)"
    "v = ucast (UidValidity mbox)" "determineMissingUIDs oldmails uids = Ok missing"
  have path: "path = oldmailPath s" by (rule prepare_path [OF p])
  have r: "readOldmail fs1 (oldmailPath s) = Ok oldmails" using initMaildir_result(3) [OF a(1)] path by simp
  then have fi: "isFile fs1 (oldmailPath s) = Ok True" by (simp add: readOldmail_Ok)
  note k = isFile_content [OF fi, folded oldmailOf_def]
  have o: "faults fs1 = faults fs0 \<and> (oldmails = [] \<and> content fs1 (oldmailOf s) = [] \<or>
      readOldmail fs0 (oldmailPath s) = Ok oldmails \<and> content fs1 (oldmailOf s) = content fs0 (oldmailOf s))"
    using a(1)
  proof (cases rule: initMaildir_cases)
    case existing
    have "readOldmail fs0 (oldmailPath s) = readOldmail fs1 (oldmailPath s)"
      using f existing by (intro readOldmail_cong [OF fi]) (simp_all add: oldmailOf_def)
    with existing r f show ?thesis by (simp add: content_def)
  next
    case created
    have "look fs1 (oldmailOf s) = Some (File [])"
      using createMaildir_Ok(3) [OF created(2), of "oldmailOf s"] by (simp add: oldmailOf_eq)
    then have n: "nodes fs1 (oldmailOf s) = Some (File [])" using k by (simp add: look_def)
    then have "oldmails = []" using read_empty [OF r] by (simp add: oldmailOf_def)
    with n createMaildir_Ok(1) [OF created(2)] f show ?thesis by (simp add: content_def)
  qed
  then have "jobData s fs0 oldmails (content fs1 (oldmailOf s)) mbox uids missing"
    using a r unfolding jobData_def by blast
  moreover have "maildirThere s fs1"
    using initMaildir_result(1) [OF a(1)] isDir_TrueD [OF initMaildir_dir [OF a(1)]] by (simp add: maildirThere_def)
  ultimately show thesis using that a(4) k(1) o by blast
qed

lemma folderDone_quiet:
  assumes "jobData s fs0 oldmails c mbox uids []" and "nodes fs (oldmailOf s) = Some (File c)" "maildirThere s fs"
  shows "folderDone s fs0 fs"
  unfolding folderDone_def
  by (rule conjI, rule assms(3), rule exI [of _ oldmails], rule exI [of _ c], rule exI [of _ mbox], rule exI [of _ uids], rule exI [of _ "[]"],
      rule exI [of _ "[]"]) (use assms in simp)

lemma start_data:
  assumes s: "startDownload s i st = (st', i', r)"
    and f: "faults (fst st) = faults fs0" "nodes (fst st) (oldmailOf s) = nodes fs0 (oldmailOf s)"
  shows "case r of Inl x \<Rightarrow> (\<forall>u. x = Ok u \<longrightarrow> folderDone s fs0 (fst st'))
    | Inr (path, v, ns) \<Rightarrow> pipingInv s fs0 path v ns (downloadStart s ns i' (fst st') (snd st')) (fst st')"
proof (cases r)
  case (Inl x)
  have "folderDone s fs0 (fst st')" if u: "x = Ok u" for u
  proof -
    obtain i1 path v where "prepareDownload s i1 (fst st) = (fst st', i', Ok (path, v, []))"
      using s Inl u
      by (auto simp: startDownload_def split: prod.splits bool.splits res.splits if_splits)
    then show ?thesis
      by (rule prepare_data [OF _ f]) (rule folderDone_quiet)
  qed
  with Inl show ?thesis by simp
next
  case (Inr x)
  obtain path v ns where x: "x = (path, v, ns)" by (metis prod_cases3)
  show ?thesis
  proof (rule startDownload_run [OF s [unfolded Inr x]])
    fix i1 fs1 missing u
    assume a: "prepareDownload s i1 (fst st) = (fs1, i', Ok (path, v, missing))" "missing \<noteq> []"
      "retrievalRequest missing = Ok ns" "writeout_open path fs1 = (fst st', Ok u)"
    have path: "path = oldmailPath s" by (rule prepare_path [OF a(1)])
    have ns: "ns = map ucast missing" using a(3) by (simp add: retrievalRequest_Ok_iff)
    obtain oldmails where "initMaildir (s_oldmailName s) (s_path s) (fst st) = (fs1, Ok (oldmails, path))"
      by (rule prepareDownload_Ok [OF a(1)])
    from initMaildir_result(3) [OF this] a(4) have "fst st' = fs1"
      by (intro open_existing) (auto simp: readOldmail_Ok)
    moreover obtain oldmails c mbox uids where j: "jobData s fs0 oldmails c mbox uids missing"
      "v = ucast (UidValidity mbox)" "nodes fs1 (oldmailOf s) = Some (File c)" "maildirThere s fs1"
      by (rule prepare_data [OF a(1) f])
    moreover have "dataInv v (folderPath (s_path s)) (oldmailOf s) c (fst (UidFetch (s_ops s) ns))
        (downloadStart s ns i' fs1 (snd st')) fs1"
      unfolding dataInv_def
      by (intro exI [of _ "[]"] exI [of _ 0])
        (use j(3) in \<open>simp add: downloadStart_def setUp_def written_def writeout_init_def\<close>)
    moreover have "ctrl_inv (downloadStages s path v ns) (downloadStart s ns i' (fst st') (snd st'))"
      unfolding downloadStart_def by (rule ctrl_inv_setUp)
    ultimately have "pipingInv s fs0 path v ns (downloadStart s ns i' (fst st') (snd st')) (fst st')"
      using a(2) ns path unfolding pipingInv_def by blast
    then show ?thesis by (simp add: Inr x)
  qed
qed

text \<open>What is remembered is stored, in every state of a job.\<close>

lemma remembers_unchanged:
  "content fs (oldmailOf s) \<in> {[], content fs0 (oldmailOf s)} \<Longrightarrow> remembersOnlyStored s fs0 fs"
  unfolding remembersOnlyStored_def
  by (rule exI [of _ "content fs (oldmailOf s)"], rule exI [of _ "[]"], rule exI [of _ "[]"]) simp

lemma list_all2_right: "list_all2 P xs ys \<Longrightarrow> y \<in> set ys \<Longrightarrow> \<exists>x. P x y"
  by (metis in_set_conv_nth list_all2_conv_all_nth)

lemma list_all2_left: "list_all2 P xs ys \<Longrightarrow> x \<in> set xs \<Longrightarrow> \<exists>y. P x y"
  by (metis in_set_conv_nth list_all2_conv_all_nth)

lemma remembers_data:
  assumes "jobData s fs0 oldmails c mbox uids missing"
    and "dataInv v (folderPath (s_path s)) (oldmailOf s) c msgs p fs"
  shows "remembersOnlyStored s fs0 fs"
proof -
  let ?mb = "folderPath (s_path s)"
  obtain sel ws n part where d: "list_all2 (stored v ?mb fs) sel (ws @ delivered p @ heldMail (deliverPc p))"
    "nodes fs (oldmailOf s) = Some (File (c @ concat (map oldmailLine (take n ws)) @ part))"
    "written (w_out (store p)) ws n part"
    using assms(2) unfolding dataInv_def by blast
  have st: "\<exists>m. stored v ?mb fs m om" if "om \<in> set ws" for om
    using list_all2_right [OF d(1), of om] that by simp
  show ?thesis
    unfolding remembersOnlyStored_def
    by (rule exI [of _ c], rule exI [of _ "take n ws"], rule exI [of _ part], rule exI [of _ "ws ! n"], rule exI [of _ v])
      (use assms(1) d(2,3) st in \<open>auto simp: jobData_def content_def written_def dest: in_set_takeD\<close>)
qed

lemma remembers_done:
  assumes "folderDone s fs0 fs"
  shows "remembersOnlyStored s fs0 fs"
proof -
  obtain oldmails c mbox uids missing oms where d: "jobData s fs0 oldmails c mbox uids missing"
    "if missing = [] then oms = []
     else list_all2 (backedUp s (ucast (UidValidity mbox)) fs)
            (somes (fst (UidFetch (s_ops s) (map ucast missing)))) oms"
    "nodes fs (oldmailOf s) = Some (File (c @ concat (map oldmailLine oms)))"
    using assms unfolding folderDone_def by blast
  have "\<exists>m. stored (ucast (UidValidity mbox)) (folderPath (s_path s)) fs m om" if "om \<in> set oms" for om
    using d(2) that list_all2_right [of "backedUp s (ucast (UidValidity mbox)) fs" _ oms om]
    by (auto simp: backedUp_def split: if_splits)
  with d(1,3) show ?thesis
    unfolding remembersOnlyStored_def
    by (intro exI [of _ c] exI [of _ oms] exI [of _ "[]"]) (auto simp: jobData_def content_def)
qed

lemma remembers_stable:
  assumes "remembersOnlyStored s fs0 fs" and "nodes fs' (oldmailOf s) = nodes fs (oldmailOf s)"
    and "\<And>v m om. stored v (folderPath (s_path s)) fs m om \<Longrightarrow> stored v (folderPath (s_path s)) fs' m om"
  shows "remembersOnlyStored s fs0 fs'"
proof -
  have "content fs' (oldmailOf s) = content fs (oldmailOf s)" using assms(2) by (simp add: content_def)
  with assms(1,3) show ?thesis unfolding remembersOnlyStored_def by metis
qed

lemma touch_content:
  "content (fst (touch path fs)) (path_key path) \<in> {[], content fs (path_key path)}"
  by (auto simp: touch_def os_WriteFile_def os_Create_def handle_Write_def split: option.split node.split)

lemma initMaildir_content:
  assumes m: "maildirKeys p \<inter> {oldmailKey p (replaceAll om (CHR ''/'') ''.'')} = {}"
  shows "content (fst (initMaildir om p fs)) (oldmailKey p (replaceAll om (CHR ''/'') ''.'')) \<in>
    {[], content fs (oldmailKey p (replaceAll om (CHR ''/'') ''.''))}"
proof -
  let ?om = "replaceAll om (CHR ''/'') ''.''" let ?k = "oldmailKey p ?om"
  let ?ps = "folderPath p # map (\<lambda>d. joinPath [folderPath p, d]) [newMaildir, curMaildir, tmpMaildir]"
  obtain fs1 r where f: "mkdirAlls ?ps fs = (fs1, r)" by fastforce
  have "\<forall>q \<in> set ?ps. ancestors (path_key q) \<inter> {?k} = {}"
    using m by (auto simp: maildirKeys_def ancestors_append)
  from leavesOthers_mkdirAlls [OF this, of "?k @ [[]]" fs] f have "content fs1 ?k = content fs ?k"
    by (simp add: leavesOthers_def content_def)
  with touch_content [of "joinPath [basePath p, ?om]" fs1] f
  have "content (fst (createMaildir ?om p fs)) ?k \<in> {[], content fs ?k}"
    unfolding createMaildir_def Let_def oldmailKey_def by (auto split: res.split)
  then show ?thesis
    by (auto simp: initMaildir_def Let_def split: res.split bool.split prod.split)
qed

lemma start_content:
  assumes s: "startDownload s i st = (st', i', r)" and m: "oldmailOf s \<notin> maildirKeys (s_path s)"
  shows "content (fst st') (oldmailOf s) \<in> {[], content (fst st) (oldmailOf s)}"
proof -
  obtain fs dc where st: "st = (fs, dc)" by fastforce
  obtain i1 b where i: "interrupted i = (i1, b)" by fastforce
  obtain fs1 i2 q where p: "prepareDownload s i1 fs = (fs1, i2, q)" by (metis prod_cases3)
  have c: "content fs1 (oldmailOf s) \<in> {[], content fs (oldmailOf s)}"
    using initMaildir_content [of "s_path s" "s_oldmailName s" fs] m p
    by (auto simp: prepareDownload_def oldmailOf_eq split: prod.splits res.splits bool.splits option.splits)
  have w: "fs2 = fs1" if q: "q = Ok (path, v, missing)" "writeout_open path fs1 = (fs2, o1)" for path v missing fs2 o1
  proof (rule prepareDownload_Ok [OF p [unfolded q(1)]])
    fix oldmails assume "initMaildir (s_oldmailName s) (s_path s) fs = (fs1, Ok (oldmails, path))"
    from initMaildir_result(3) [OF this] have "isFile fs1 path = Ok True" by (simp add: readOldmail_Ok)
    from isFile_content [OF this] q(2) show ?thesis
      by (auto simp: writeout_open_def openFileAppend_def os_Create_def look_def split: option.splits)
  qed
  show ?thesis
  proof (cases b)
    case True
    with s show ?thesis by (simp add: startDownload_def st i)
  next
    case False
    show ?thesis
    proof (cases q)
      case (Ok x)
      obtain path v missing where x: "x = (path, v, missing)" by (metis prod_cases3)
      obtain fs2 o1 where o: "writeout_open path fs1 = (fs2, o1)" by fastforce
      from s c w [OF Ok [unfolded x] o] False Ok x o show ?thesis
        by (auto simp: startDownload_def st i p split: if_splits res.splits)
    qed (use s c False in \<open>auto simp: startDownload_def st i p\<close>)
  qed
qed

text \<open>Returning with three zeros, the pipeline has stored everything.\<close>

lemma subseq_full: "subseq xs ys \<Longrightarrow> length xs = length ys \<Longrightarrow> xs = ys"
  by (rule subseq_same_length)

lemma pipe_done:
  assumes i: "pipingInv s fs0 path v ns p fs" and m: "mainPc p = MReturn 0 0 0"
  shows "folderDone s fs0 fs"
proof -
  obtain oldmails c mbox uids missing where j: "jobData s fs0 oldmails c mbox uids missing" "missing \<noteq> []"
    "ns = map ucast missing" "v = ucast (UidValidity mbox)"
    "dataInv v (folderPath (s_path s)) (oldmailOf s) c (fst (UidFetch (s_ops s) ns)) p fs"
    and ct: "ctrl_inv (downloadStages s path v ns) p" and mt: "maildirThere s fs"
    using i unfolding pipingInv_def by blast
  then have ci: "wg_inv p" "close_inv p" "return_inv (downloadStages s path v ns) p" by (simp_all add: ctrl_inv_def)
  then have r: "wg p = 0" "deliverErrCount p = 0" "wr_errCount (w_out (store p)) = 0" "unsent (fetchPc p) = []"
    using m by (auto simp: return_inv_def downloadStages_def mailStages_def)
  note z = wg_zero [OF ci(1) r(1)]
  with ci(2) have e: "translated p = []" "delivered p = []" "heldMail (deliverPc p) = []" "heldMsg (transPc p) = []"
    by (auto simp: close_inv_def)
  obtain taken ms sel ws n part where d: "fst (UidFetch (s_ops s) ns) = taken"
    "somes taken = ms" "subseq sel ms" "length sel = length ms"
    "list_all2 (stored v (folderPath (s_path s)) fs) sel ws"
    "nodes fs (oldmailOf s) = Some (File (c @ concat (map oldmailLine (take n ws)) @ part))"
    "written (w_out (store p)) ws n part"
    using j(5) e r(2,4) unfolding dataInv_def by auto
  have "sel = ms" using d(3,4) by (rule subseq_same_length)
  moreover have "n = length ws" "part = []" using d(7) r(3) by (simp_all add: written_def)
  ultimately show ?thesis
    unfolding folderDone_def
    using j(1-4) d(1,2,5,6) mt
    by - (rule conjI, assumption, rule exI [of _ oldmails], rule exI [of _ c], rule exI [of _ mbox], rule exI [of _ uids],
        rule exI [of _ missing], rule exI [of _ ws], simp add: backedUp_def [abs_def])
qed

lemma ctrl_inv_attach [simp]:
  "ctrl_inv (downloadStages s path v ns) (attach st p) = ctrl_inv (downloadStages s path v ns) p"
proof -
  have "wg_inv (attach st p) = wg_inv p" "close_inv (attach st p) = close_inv p"
    "buffer_inv (attach st p) = buffer_inv p" "fetch_inv cfg (attach st p) = fetch_inv cfg p" for cfg :: "(field list, world) stages"
    by (simp_all add: attach_def wg_inv_def close_inv_def buffer_inv_def fetch_inv_def)
  moreover have "return_inv (downloadStages s path v ns) (attach st p) = return_inv (downloadStages s path v ns) p"
    by (simp add: return_inv_def attach_def downloadStages_def mailStages_def)
  ultimately show ?thesis unfolding ctrl_inv_def by metis
qed

lemma jobInv_step:
  assumes j: "jobStep s ((i, j), st) ((i', j'), st')" and r: "roomFor s K" and own: "oldmailOf s \<in> K"
    and inv: "jobInv s fs0 j (fst st)"
  shows "jobInv s fs0 j' (fst st') \<and> leavesOthers (oldmailOf s) K (fst st) (fst st')"
  using j
proof (cases rule: jobStep.cases)
  case (answered x)
  have m: "maildirKeys (s_path s) \<inter> K = {}" using r by (simp add: roomFor_def)
  note l = leavesOthers_start [OF m answered(3)]
  have "faults (fst st) = faults fs0" "nodes (fst st) (oldmailOf s) = nodes fs0 (oldmailOf s)"
    using inv answered by (simp_all add: jobInv_def)
  note st = this
  have "oldmailOf s \<notin> maildirKeys (s_path s)" using m own by blast
  note c = start_content [OF answered(3) this]
  have "content (fst st) (oldmailOf s) = content fs0 (oldmailOf s)" using st(2) by (simp add: content_def)
  with c have "remembersOnlyStored s fs0 (fst st')" by (intro remembers_unchanged) simp
  with start_data [OF answered(3) st] l inv answered show ?thesis
    by (auto simp: jobInv_def leavesOthers_def split: res.split)
next
  case (started path v ns)
  have m: "maildirKeys (s_path s) \<inter> K = {}" using r by (simp add: roomFor_def)
  note l = leavesOthers_start [OF m started(3)]
  have "faults (fst st) = faults fs0" "nodes (fst st) (oldmailOf s) = nodes fs0 (oldmailOf s)"
    using inv started by (simp_all add: jobInv_def)
  from start_data [OF started(3) this] l inv started show ?thesis
    by (auto simp: jobInv_def leavesOthers_def)
next
  case (piped path v ns p p')
  have ps: "pstep (downloadStages s path v ns) (attach st p) p'" using piped by simp
  let ?q = "attach st p" and ?mb = "folderPath (s_path s)"
  have pi: "pipingInv s fs0 path v ns p (fst st)" using inv piped by (simp add: jobInv_def)
  then have path: "path_key path = oldmailOf s" by (simp add: pipingInv_def oldmailOf_def)
  obtain oldmails c mbox uids missing where d: "jobData s fs0 oldmails c mbox uids missing" "missing \<noteq> []"
    "ns = map ucast missing" "v = ucast (UidValidity mbox)"
    "dataInv v ?mb (oldmailOf s) c (fst (UidFetch (s_ops s) ns)) p (fst st)"
    using pi unfolding pipingInv_def by blast
  have fs: "w_fs (store ?q) = fst st" by (simp add: attach_def)
  have "dataInv v ?mb (oldmailOf s) c (fst (UidFetch (s_ops s) ns)) ?q (fst st)"
    using d(5) by (simp add: dataInv_def attach_def)
  note d' = this [folded path, folded fs]
  have g: "mailStore ?mb path (store ?q)"
    using d' r own unfolding mailStore_def dataInv_def roomFor_def path by auto
  have "ctrl_inv (downloadStages s path v ns) ?q"
    using pi by (auto simp: pipingInv_def)
  note ct = ctrl_inv_step [OF ps this]
  have k: "\<forall>k \<in> K. \<forall>f. k \<noteq> tmpKey ?mb f \<and> k \<noteq> newKey ?mb f" using r by (simp add: roomFor_def)
  note l = pstep_leaves [OF ps g k, unfolded path fs]
  note n = dataInv_step [OF ps d' g, unfolded path]
  have st': "fst st' = w_fs (store p')" using piped by (simp add: sharedOf_def)
  have "pipingInv s fs0 path v ns p' (fst st')"
  proof -
    have "oldmailOf s \<notin> maildirKeys (s_path s)" using r own by (auto simp: roomFor_def)
    moreover have "maildirThere s (fst st)" using pi by (simp add: pipingInv_def)
    ultimately have "maildirThere s (w_fs (store p'))" by (intro maildirThere_kept [OF _ l])
    moreover have "path = oldmailPath s" using pi by (simp add: pipingInv_def)
    ultimately show ?thesis using ct d(1-4) n unfolding pipingInv_def st' by blast
  qed
  with l inv piped st' show ?thesis by (auto simp: jobInv_def leavesOthers_def)
next
  case (returned p e d n path v ns)
  then have "remembersOnlyStored s fs0 (fst st)"
    using inv remembers_data unfolding jobInv_def pipingInv_def by (simp, blast)
  with returned show ?thesis
    using inv pipe_done [of s fs0 path v ns p "fst st"]
    by (auto simp: jobInv_def downloadResult_def split: res.split if_splits)
qed

lemma jobInv_remembers:
  assumes "jobInv s fs0 j fs"
  shows "remembersOnlyStored s fs0 fs"
proof (cases j)
  case Waiting
  with assms have "content fs (oldmailOf s) = content fs0 (oldmailOf s)" by (simp add: jobInv_def content_def)
  then show ?thesis by (intro remembers_unchanged) simp
next
  case (Piping path v ns p)
  with assms show ?thesis using remembers_data unfolding jobInv_def pipingInv_def by (simp, blast)
next
  case (Finished r)
  with assms show ?thesis using remembers_done by (auto simp: jobInv_def split: res.splits)
qed

section \<open>A job can always go on\<close>

lemma job_good:
  assumes "pipingInv s fs0 path v ns p (fst st)" and "roomFor s K" and "oldmailOf s \<in> K"
  shows "mailStore (folderPath (s_path s)) path (store (attach st p))"
  using assms unfolding mailStore_def pipingInv_def dataInv_def roomFor_def oldmailOf_def attach_def by auto

lemma remaining_attach [simp]: "remaining (attach st p) = remaining p"
  by (simp add: remaining_def attach_def)

lemma pipe_can_move:
  assumes i: "pipingInv s fs0 path v ns p (fst st)" and r: "roomFor s K" "oldmailOf s \<in> K"
    and m: "\<forall>e d n. mainPc p \<noteq> MReturn e d n"
  shows "\<exists>p'. jobStep s ((h, Piping path v ns p), st) ((h, Piping path v ns p'), sharedOf p') \<and> remaining p' < remaining p"
proof -
  have g: "mailStore (folderPath (s_path s)) path (store (attach st p))" by (rule job_good [OF i r])
  have c: "ctrl_inv (downloadStages s path v ns) (attach st p)" using i by (auto simp: pipingInv_def)
  have "\<exists>p'. pstep (downloadStages s path v ns) (attach st p) p' \<and> remaining p' < remaining (attach st p)"
    using c m unfolding downloadStages_def
    by (intro mail.progress [OF _ _ g]) (simp_all add: mailStages_def attach_def)
  then show ?thesis by (auto intro: jobStep.piped)
qed

lemma pipe_can_finish:
  assumes "pipingInv s fs0 path v ns p (fst st)" and "jobInv s fs0 (Piping path v ns p) (fst st)"
    and r: "roomFor s K" "oldmailOf s \<in> K"
  shows "\<exists>h' r st'. (jobStep s)\<^sup>*\<^sup>* ((h, Piping path v ns p), st) ((h', Finished r), st')"
  using assms(1,2)
proof (induction "remaining p" arbitrary: p st rule: less_induct)
  case less
  show ?case
  proof (cases "\<exists>e d n. mainPc p = MReturn e d n")
    case True
    then show ?thesis by (meson jobStep.returned r_into_rtranclp)
  next
    case False
    then obtain p' where p': "jobStep s ((h, Piping path v ns p), st) ((h, Piping path v ns p'), sharedOf p')"
      "remaining p' < remaining p" using pipe_can_move [OF less.prems(1) r] by blast
    have j: "jobInv s fs0 (Piping path v ns p') (fst (sharedOf p'))"
      using jobInv_step [OF p'(1) r less.prems(2)] by blast
    then have "pipingInv s fs0 path v ns p' (fst (sharedOf p'))" by (simp add: jobInv_def)
    from less.hyps [OF p'(2) this j] p'(1) show ?thesis by (meson converse_rtranclp_into_rtranclp)
  qed
qed

lemma job_can_finish:
  assumes i: "jobInv s fs0 j (fst st)" and r: "roomFor s K" "oldmailOf s \<in> K"
  shows "\<exists>h' r st'. (jobStep s)\<^sup>*\<^sup>* ((h, j), st) ((h', Finished r), st')"
proof (cases j)
  case Waiting
  obtain st' h' x where s: "startDownload s h st = (st', h', x)" by (metis prod_cases3)
  show ?thesis
  proof (cases x)
    case (Inl q)
    with s Waiting show ?thesis by (meson jobStep.answered r_into_rtranclp)
  next
    case (Inr q)
    obtain path v ns where q: "q = (path, v, ns)" by (metis prod_cases3)
    let ?p = "downloadStart s ns h' (fst st') (snd st')"
    have m: "jobStep s ((h, j), st) ((h', Piping path v ns ?p), st')"
      unfolding Waiting using s Inr q by (intro jobStep.started) simp
    from jobInv_step [OF m r i] have k: "jobInv s fs0 (Piping path v ns ?p) (fst st')" by blast
    then have "pipingInv s fs0 path v ns ?p (fst st')" by (simp add: jobInv_def)
    from pipe_can_finish [OF this k r] m show ?thesis by (meson converse_rtranclp_into_rtranclp)
  qed
next
  case (Piping path v ns p)
  with i have "pipingInv s fs0 path v ns p (fst st)" by (simp add: jobInv_def)
  from pipe_can_finish [OF this _ r] i Piping show ?thesis by simp
qed blast

section \<open>Interference\<close>

text \<open>
  Processes that work on a shared state in steps. Each has an invariant on its local state and the
  shared one; its steps keep its own, and what a step does to the shared state keeps those of the
  others. Then all of them hold, however the steps are interleaved.
\<close>

locale interference_free =
  fixes procs :: "'p set"
    and step :: "'p \<Rightarrow> 'l \<times> 's \<Rightarrow> 'l \<times> 's \<Rightarrow> bool"
    and inv :: "'p \<Rightarrow> 'l \<Rightarrow> 's \<Rightarrow> bool"
    and guar :: "'p \<Rightarrow> 's \<Rightarrow> 's \<Rightarrow> bool"
  assumes own: "p \<in> procs \<Longrightarrow> inv p l s \<Longrightarrow> step p (l, s) (l', s') \<Longrightarrow> inv p l' s' \<and> guar p s s'"
    and stable: "p \<in> procs \<Longrightarrow> q \<in> procs \<Longrightarrow> p \<noteq> q \<Longrightarrow> inv q l s \<Longrightarrow> guar p s s' \<Longrightarrow> inv q l s'"
begin

definition all_inv :: "('p \<Rightarrow> 'l) \<Rightarrow> 's \<Rightarrow> bool" where
  "all_inv ls s \<longleftrightarrow> (\<forall>p \<in> procs. inv p (ls p) s)"

lemma all_inv_step:
  assumes "all_inv ls s" and "p \<in> procs" and "step p (ls p, s) (l', s')"
  shows "all_inv (ls(p := l')) s'"
proof -
  have o: "inv p l' s'" "guar p s s'" using own [OF assms(2) _ assms(3)] assms(1,2) by (auto simp: all_inv_def)
  show ?thesis
    unfolding all_inv_def
  proof
    fix q assume "q \<in> procs"
    then show "inv q ((ls(p := l')) q) s'"
      using o assms(1,2) stable [OF assms(2), of q] by (cases "q = p") (auto simp: all_inv_def)
  qed
qed

end

text \<open>
  The downloads of several folders into one directory: the names of the oldmail files are different,
  and none of them is the name of a directory of a maildir.
\<close>

definition sideBySide :: "'p set \<Rightarrow> ('p \<Rightarrow> session) \<Rightarrow> bool" where
  "sideBySide P S \<longleftrightarrow> inj_on (oldmailOf \<circ> S) P \<and> (\<forall>p \<in> P. roomFor (S p) (oldmailOf ` S ` P))"

lemma stored_leaves:
  assumes "stored v mb fs m om" and "leavesOthers j K fs fs'" and "\<forall>f. j \<noteq> newKey mb f"
  shows "stored v mb fs' m om"
  using assms unfolding stored_def leavesOthers_def by metis

lemma dataInv_stable:
  assumes "dataInv v mb key c msgs p fs" and "nodes fs' key = nodes fs key"
    and st: "\<And>m om. stored v mb fs m om \<Longrightarrow> stored v mb fs' m om"
  shows "dataInv v mb key c msgs p fs'"
proof -
  have "list_all2 (stored v mb fs') ms oms" if "list_all2 (stored v mb fs) ms oms" for ms oms
    using that by (rule list_all2_mono) (rule st)
  then show ?thesis using assms(1) unfolding dataInv_def assms(2) by blast
qed

lemma jobInv_stable:
  assumes i: "jobInv s fs0 j fs" and l: "leavesOthers k K fs fs'" and own: "oldmailOf s \<in> K" "oldmailOf s \<noteq> k"
    and k: "\<forall>f. k \<noteq> newKey (folderPath (s_path s)) f" "k \<notin> maildirKeys (s_path s)"
  shows "jobInv s fs0 j fs'"
proof -
  have mt: "maildirThere s fs'" if "maildirThere s fs" by (rule maildirThere_kept [OF that l k(2)])
  have n: "nodes fs' (oldmailOf s) = nodes fs (oldmailOf s)" and f: "faults fs' = faults fs"
    using l own by (auto simp: leavesOthers_def)
  note st = stored_leaves [OF _ l k(1)]
  have d: "dataInv v (folderPath (s_path s)) (oldmailOf s) c msgs p fs'"
    if "dataInv v (folderPath (s_path s)) (oldmailOf s) c msgs p fs" for v c msgs p
    using that n st by (rule dataInv_stable)
  have b: "list_all2 (backedUp s v fs') ms oms" if "list_all2 (backedUp s v fs) ms oms" for v ms oms
    using that by (rule list_all2_mono) (auto simp: backedUp_def intro: st)
  show ?thesis
  proof (cases j)
    case Waiting
    with i n f show ?thesis by (simp add: jobInv_def)
  next
    case (Piping path v ns p)
    with i have "pipingInv s fs0 path v ns p fs" by (simp add: jobInv_def)
    then have "pipingInv s fs0 path v ns p fs'" unfolding pipingInv_def using d mt by blast
    with i f Piping show ?thesis by (simp add: jobInv_def)
  next
    case (Finished r)
    have "folderDone s fs0 fs'" if "folderDone s fs0 fs"
      using that mt unfolding folderDone_def n by (metis b)
    moreover have "remembersOnlyStored s fs0 fs'" if "remembersOnlyStored s fs0 fs"
      using that n st by (rule remembers_stable)
    ultimately show ?thesis using i f Finished by (auto simp: jobInv_def split: res.split)
  qed
qed

text \<open>The steps of a job, whatever the state of the handler of its connection.\<close>

definition jobMove :: "session \<Rightarrow> job \<times> shared \<Rightarrow> job \<times> shared \<Rightarrow> bool" where
  "jobMove s x y \<longleftrightarrow> (\<exists>i i'. jobStep s ((i, fst x), snd x) ((i', fst y), snd y))"

interpretation jobs: interference_free "if sideBySide P S then P else {}" "\<lambda>p. jobMove (S p)"
  "\<lambda>p j st. jobInv (S p) fs0 j (fst st)"
  "\<lambda>p st st'. leavesOthers (oldmailOf (S p)) (oldmailOf ` S ` P) (fst st) (fst st')"
  for P :: "'p set" and S fs0
proof unfold_locales
  fix p l s l' s'
  assume p: "p \<in> (if sideBySide P S then P else {})" and i: "jobInv (S p) fs0 l (fst s)"
    and j: "jobMove (S p) (l, s) (l', s')"
  have r: "roomFor (S p) (oldmailOf ` S ` P)" "oldmailOf (S p) \<in> oldmailOf ` S ` P"
    using p by (auto simp: sideBySide_def split: if_splits)
  from j obtain h h' where "jobStep (S p) ((h, l), s) ((h', l'), s')" by (auto simp: jobMove_def)
  from jobInv_step [OF this r i]
  show "jobInv (S p) fs0 l' (fst s') \<and> leavesOthers (oldmailOf (S p)) (oldmailOf ` S ` P) (fst s) (fst s')" .
next
  fix p q l s s'
  assume a: "p \<in> (if sideBySide P S then P else {})" "q \<in> (if sideBySide P S then P else {})" "p \<noteq> q"
    "jobInv (S q) fs0 l (fst s)" "leavesOthers (oldmailOf (S p)) (oldmailOf ` S ` P) (fst s) (fst s')"
  then have m: "sideBySide P S" "p \<in> P" "q \<in> P" by (auto split: if_splits)
  then have "oldmailOf (S q) \<noteq> oldmailOf (S p)" using a(3) by (auto simp: sideBySide_def inj_on_def)
  moreover have "\<forall>f. oldmailOf (S p) \<noteq> newKey (folderPath (s_path (S q))) f"
    using m by (auto simp: sideBySide_def roomFor_def)
  moreover have "oldmailOf (S p) \<notin> maildirKeys (s_path (S q))"
    using m by (auto simp: sideBySide_def roomFor_def)
  ultimately show "jobInv (S q) fs0 l (fst s')" using m by (intro jobInv_stable [OF a(4,5)]) auto
qed

end
