(* ===== verification/Backup.thy ===== *)
theory Backup
  imports Jobs Core
begin

text \<open>
  The whole of \<open>DownloadFolder\<close> (\<open>core/core.go\<close>) on a disk: the threads of \<open>Core\<close> run the downloads
  of \<open>Jobs\<close> on one file system and one delivery counter, in any interleaving of their steps.
\<close>

section \<open>Model\<close>

text \<open>
  What a call of \<open>DownloadFolder\<close> gets and meets: the configuration, the base directory, the
  environment of the deliveries, the connections and the list of folders, and what the server lists
  for a folder on the connection of a thread.
\<close>

record backupCall =
  bc_cfg :: IMAPConfig
  bc_base :: string
  bc_env :: environment
  bc_server :: surroundings
  bc_listed :: "nat \<Rightarrow> string \<Rightarrow> mailboxStatus \<Rightarrow> uidExt list \<times> gerr option"

definition clientOf :: "backupCall \<Rightarrow> nat \<Rightarrow> imapOps" where
  "clientOf b k = (case connection (bc_server b) k of Ok c \<Rightarrow> c)"

text \<open>The arguments of \<open>downloadMissingEmailsToFolder\<close> in the loop of thread \<open>k\<close>.\<close>

definition sessionOf :: "backupCall \<Rightarrow> nat \<times> string \<Rightarrow> session" where
  "sessionOf b p =
     (case p of (k, folder) \<Rightarrow>
        \<lparr>s_env = bc_env b, s_ops = clientOf b k, s_listed = bc_listed b k folder,
         s_path = \<lparr>base = bc_base b, mfolder = folder\<rparr>, s_oldmailName = oldmailFileName (bc_cfg b) folder\<rparr>)"

text \<open>
  The handlers are those of the connections, \<open>d_intr\<close> of \<open>b_main\<close> is that of the main goroutine; a
  panic of a thread ends the program.
\<close>

record backup =
  b_main :: downloads
  b_shared :: shared
  b_handler :: "nat \<Rightarrow> interrupter"
  b_job :: "nat \<times> string \<Rightarrow> job"
  b_crash :: "string option"

definition backupInit :: "backupCall \<Rightarrow> shared \<Rightarrow> backup" where
  "backupInit b st =
     \<lparr>b_main = downloadInit (bc_server b), b_shared = st,
      b_handler = (\<lambda>k. newInterruptOps signalsToWaitFor), b_job = (\<lambda>p. Waiting), b_crash = None\<rparr>"

fun errorOf :: "'a res \<Rightarrow> gerr option" where
  "errorOf (Err e) = Some e"
| "errorOf _ = None"

definition running :: "backup \<Rightarrow> bool" where
  "running st \<longleftrightarrow> b_crash st = None \<and> d_result (b_main st) = None"

text \<open>Thread \<open>k\<close> is busy with \<open>folder\<close>.\<close>

definition busy :: "backup \<Rightarrow> nat \<Rightarrow> string \<Rightarrow> string list \<Rightarrow> bool" where
  "busy st k folder folders \<longleftrightarrow>
     k < length (d_workers (b_main st)) \<and> d_workers (b_main st) ! k = Working (folder # folders)"

inductive bstep :: "backupCall \<Rightarrow> string list list \<Rightarrow> backup \<Rightarrow> backup \<Rightarrow> bool" for b ps where
  control: "running st \<Longrightarrow> dstep (bc_server b) ps (b_main st) m \<Longrightarrow> d_log m = d_log (b_main st) \<Longrightarrow>
     bstep b ps st (st\<lparr>b_main := m\<rparr>)"
| signal: "running st \<Longrightarrow>
     bstep b ps st (st\<lparr>b_handler := (b_handler st)(k := notify s (b_handler st k))\<rparr>)"
| move: "running st \<Longrightarrow> busy st k folder folders \<Longrightarrow> connection (bc_server b) k = Ok c \<Longrightarrow>
     jobStep (sessionOf b (k, folder)) ((b_handler st k, b_job st (k, folder)), b_shared st) ((h, j), sh) \<Longrightarrow>
     bstep b ps st (st\<lparr>b_handler := (b_handler st)(k := h), b_job := (b_job st)((k, folder) := j), b_shared := sh\<rparr>)"
| report: "running st \<Longrightarrow> busy st k folder folders \<Longrightarrow> b_job st (k, folder) = Finished r \<Longrightarrow>
     (\<And>p. r \<noteq> Panic p) \<Longrightarrow>
     bstep b ps st (st\<lparr>b_main := addErr (errorOf r)
       ((b_main st)\<lparr>d_workers := (d_workers (b_main st))[k := Working folders],
         d_log := d_log (b_main st) @ [(k, folder)]\<rparr>)\<rparr>)"
| crash: "running st \<Longrightarrow> busy st k folder folders \<Longrightarrow> b_job st (k, folder) = Finished (Panic p) \<Longrightarrow>
     bstep b ps st (st\<lparr>b_crash := Some p\<rparr>)"

section \<open>The threads see the outcomes of the jobs\<close>

text \<open>The surroundings in which a download of a folder reports what the jobs of \<open>st\<close> ended with.\<close>

definition outcomes :: "backupCall \<Rightarrow> backup \<Rightarrow> surroundings" where
  "outcomes b st =
     (bc_server b)\<lparr>downloadErr := (\<lambda>k f. case b_job st (k, f) of Finished r \<Rightarrow> errorOf r | _ \<Rightarrow> None)\<rparr>"

lemma outcomes_simps [simp]:
  "connection (outcomes b st) = connection (bc_server b)" "available (outcomes b st) = available (bc_server b)"
  "downloadErr (outcomes b st) k f = (case b_job st (k, f) of Finished r \<Rightarrow> errorOf r | _ \<Rightarrow> None)"
  by (simp_all add: outcomes_def)

lemma connectThread_cong: "connection env' = connection env \<Longrightarrow> connectThread env' st = connectThread env st"
  by (simp add: connectThread_def)

lemma logoutThen_cong: "connection env' = connection env \<Longrightarrow> logoutThen env' k f st = logoutThen env k f st"
  by (simp add: logoutThen_def logoutOf_def)

lemma downloadInit_cong:
  "connection env' = connection env \<Longrightarrow> available env' = available env \<Longrightarrow> downloadInit env' = downloadInit env"
  by (simp add: downloadInit_def Let_def split: res.split)

text \<open>Of the outcomes, a step depends only on that of the download it logs.\<close>

lemma dstep_cong:
  assumes "dstep env ps st st'" and c: "connection env' = connection env"
    and "\<And>k f. d_log st' = d_log st @ [(k, f)] \<Longrightarrow> downloadErr env' k f = downloadErr env k f"
  shows "dstep env' ps st st'"
  using assms(1,3)
proof (induction rule: dstep.induct)
  case (work st k folder folders)
  then show ?case using dstep.work [OF work(1-3), of env' ps] by simp
next
  case (connect st)
  then show ?case using dstep.connect [of st ps env'] by (simp add: connectThread_cong [OF c])
next
  case (stop st i b)
  show ?case using dstep.stop [OF stop(1-4), of env' ps] by (simp only: logoutThen_cong [OF c])
next
  case (work_end st k)
  show ?case using dstep.work_end [OF work_end(1-3), of env' ps] by (simp only: logoutThen_cong [OF c])
next
  case (return st)
  show ?case using dstep.return [OF return(1-3), of env' ps] by (simp only: logoutThen_cong [OF c])
qed (blast intro: dstep.intros)+

lemma dstep_log: "dstep env ps st st' \<Longrightarrow> d_log st' = d_log st \<or> (\<exists>k f fs.
    k < length (d_workers st) \<and> d_workers st ! k = Working (f # fs) \<and> d_log st' = d_log st @ [(k, f)])"
proof (induction rule: dstep.induct)
  case (connect st)
  then show ?case by (simp add: connectThread_def split: res.split)
next
  case (stop st i b)
  then show ?case
    by (cases rule: logoutThen_stop [where env = env and k = "d_next st" and st = "st\<lparr>d_intr := i\<rparr>"]) auto
next
  case (work_end st k)
  then show ?case
    by (cases rule: logoutThen_end [where env = env and k = k and ka = k and st = st]) auto
next
  case (return st)
  then show ?case
    by (cases rule: logoutThen_return [where env = env and k = 0 and st = st]) auto
qed auto

lemma runs_cong:
  assumes "(dstep env ps)\<^sup>*\<^sup>* s st" and c: "connection env' = connection env"
    and "\<And>k f. (k, f) \<in> set (d_log st) \<Longrightarrow> downloadErr env' k f = downloadErr env k f"
  shows "(dstep env' ps)\<^sup>*\<^sup>* s st"
  using assms(1,3)
proof (induction rule: rtranclp_induct)
  case (step st st')
  have "(dstep env' ps)\<^sup>*\<^sup>* s st" using dstep_log [OF step(2)] by (intro step.IH step.prems) auto
  moreover have "dstep env' ps st st'" by (rule dstep_cong [OF step(2) c]) (simp add: step.prems)
  ultimately show ?case by simp
qed simp

definition logged_inv :: "backup \<Rightarrow> bool" where
  "logged_inv st \<longleftrightarrow> (\<forall>p \<in> set (d_log (b_main st)). \<exists>r. b_job st p = Finished r \<and> (\<forall>e. r \<noteq> Panic e))"

lemma jobStep_not_finished: "jobStep s ((h, Finished r), st) x \<Longrightarrow> False"
  by (erule jobStep_FinishedE)

lemma moving_not_logged:
  assumes "logged_inv st" and "jobStep s ((h, b_job st p), sh) x"
  shows "p \<notin> set (d_log (b_main st))"
proof
  assume "p \<in> set (d_log (b_main st))"
  with assms(1) obtain r where "b_job st p = Finished r" by (auto simp: logged_inv_def)
  with assms(2) show False using jobStep_not_finished by metis
qed

lemma logged_inv_step:
  assumes "bstep b ps st st'" and "logged_inv st"
  shows "logged_inv st'"
  using assms
proof (induction rule: bstep.induct)
  case (move st k folder folders c h j sh)
  then have "(k, folder) \<notin> set (d_log (b_main st))" by (intro moving_not_logged)
  with move show ?case by (auto simp: logged_inv_def)
qed (auto simp: logged_inv_def)

lemma threads_step:
  assumes s: "bstep b ps st st'" and l: "logged_inv st"
    and r: "(dstep (outcomes b st) ps)\<^sup>*\<^sup>* i (b_main st)"
  shows "(dstep (outcomes b st') ps)\<^sup>*\<^sup>* i (b_main st')"
  using s
proof (cases rule: bstep.cases)
  case (control m)
  have "dstep (outcomes b st) ps (b_main st) m"
    by (rule dstep_cong [OF control(3)]) (simp_all add: control(4))
  with r have "(dstep (outcomes b st) ps)\<^sup>*\<^sup>* i m" by simp
  moreover have "outcomes b st' = outcomes b st" by (simp add: control outcomes_def)
  ultimately show ?thesis by (simp add: control)
next
  case (signal k s)
  then have "outcomes b st' = outcomes b st" by (simp add: outcomes_def)
  with r signal show ?thesis by simp
next
  case (move k folder folders c h j sh)
  have n: "(k, folder) \<notin> set (d_log (b_main st))"
    using l move by (intro moving_not_logged)
  have "(dstep (outcomes b st') ps)\<^sup>*\<^sup>* i (b_main st)"
    by (rule runs_cong [OF r]) (use n in \<open>auto simp: move\<close>)
  then show ?thesis by (simp add: move)
next
  case (report k folder folders r')
  have "dstep (outcomes b st) ps (b_main st) (b_main st')"
    using dstep.work [of "b_main st" k folder folders "outcomes b st" ps] report
    by (simp add: running_def busy_def)
  moreover have "outcomes b st' = outcomes b st" by (simp add: report outcomes_def)
  ultimately show ?thesis using r by simp
next
  case (crash k folder folders p)
  then have "outcomes b st' = outcomes b st" by (simp add: outcomes_def)
  with r crash show ?thesis by simp
qed

lemma backup_threads:
  assumes "(bstep b ps)\<^sup>*\<^sup>* (backupInit b sh) st"
  shows "(dstep (outcomes b st) ps)\<^sup>*\<^sup>* (downloadInit (outcomes b st)) (b_main st) \<and> logged_inv st"
  using assms
proof (induction rule: rtranclp_induct)
  case base
  have "downloadInit (outcomes b (backupInit b sh)) = downloadInit (bc_server b)" by (rule downloadInit_cong) simp_all
  then show ?case
    by (simp add: backupInit_def logged_inv_def downloadInit_def Let_def split: res.split)
next
  case (step st st')
  have "downloadInit (outcomes b st') = downloadInit (outcomes b st)" by (rule downloadInit_cong) simp_all
  with step threads_step [OF step(2)] logged_inv_step [OF step(2)] show ?case by simp
qed

section \<open>Names\<close>

text \<open>
  The folder names do not lead out of the base directory, no two of them differ in slashes and dots
  only, and no folder has a top directory with the name of an oldmail file.
\<close>

definition oldmailFile :: "IMAPConfig \<Rightarrow> string \<Rightarrow> string" where
  "oldmailFile cfg f = replaceAll (oldmailFileName cfg f) (CHR ''/'') ''.''"

definition separateNames :: "IMAPConfig \<Rightarrow> string set \<Rightarrow> bool" where
  "separateNames cfg F \<longleftrightarrow> (\<forall>f \<in> F. inside f) \<and> inj_on (\<lambda>f. replaceAll f (CHR ''/'') ''.'') F \<and>
     (\<forall>f \<in> F. \<forall>g \<in> F. hd (splitSlash f) \<noteq> oldmailFile cfg g)"

lemma oldmailFile_plain [simp]: "plain (oldmailFile cfg f)"
  by (simp add: plain_def proper_def oldmailFile_def oldmailFileName_def set_replaceAll)

lemma oldmailFile_inj: "oldmailFile cfg f = oldmailFile cfg g \<longleftrightarrow>
    replaceAll f (CHR ''/'') ''.'' = replaceAll g (CHR ''/'') ''.''"
  by (simp add: oldmailFile_def oldmailFileName_def)

lemma session_simps [simp]:
  "s_path (sessionOf b (k, f)) = \<lparr>base = bc_base b, mfolder = f\<rparr>" "s_ops (sessionOf b (k, f)) = clientOf b k"
  "s_oldmailName (sessionOf b (k, f)) = oldmailFileName (bc_cfg b) f"
  "s_listed (sessionOf b (k, f)) = bc_listed b k f"
  by (simp_all add: sessionOf_def)

lemma oldmailOf_session:
  "oldmailOf (sessionOf b (k, f)) = path_key (bc_base b) @ [oldmailFile (bc_cfg b) f]"
  using oldmailKey_plain [OF oldmailFile_plain, of "\<lparr>base = bc_base b, mfolder = f\<rparr>" "bc_cfg b" f]
  by (simp add: oldmailOf_eq oldmailFile_def)

lemma folderKey_session:
  "inside f \<Longrightarrow> path_key (folderPath (s_path (sessionOf b (k, f)))) = path_key (bc_base b) @ splitSlash f"
  by (simp add: path_key_folder)

lemma sideBySide_names:
  assumes n: "separateNames (bc_cfg b) F" and P: "\<And>k f. (k, f) \<in> P \<Longrightarrow> f \<in> F" and i: "inj_on snd P"
  shows "sideBySide P (sessionOf b)"
  unfolding sideBySide_def
proof (intro conjI ballI)
  show "inj_on (oldmailOf \<circ> sessionOf b) P"
  proof (rule inj_onI)
    fix p q assume pq: "p \<in> P" "q \<in> P" "(oldmailOf \<circ> sessionOf b) p = (oldmailOf \<circ> sessionOf b) q"
    obtain k f l g where e: "p = (k, f)" "q = (l, g)" by fastforce
    have "replaceAll f (CHR ''/'') ''.'' = replaceAll g (CHR ''/'') ''.''"
      using pq(3) by (simp add: e oldmailOf_session oldmailFile_inj)
    with n P pq(1,2) have "f = g" unfolding e separateNames_def by (blast dest: inj_onD)
    with i pq(1,2) show "p = q" unfolding e by (metis inj_onD snd_conv)
  qed
next
  fix p assume p: "p \<in> P"
  obtain k f where e: "p = (k, f)" by fastforce
  let ?s = "sessionOf b p" and ?b = "path_key (bc_base b)"
  have f: "inside f" "\<forall>g \<in> F. hd (splitSlash f) \<noteq> oldmailFile (bc_cfg b) g"
    using n P p unfolding e separateNames_def by blast+
  note key = folderKey_session [OF f(1), of b k]
  have d: "?b @ [oldmailFile (bc_cfg b) g] \<notin> maildirKeys (s_path ?s)"
    "?b @ [oldmailFile (bc_cfg b) g] \<noteq> tmpKey (folderPath (s_path ?s)) x"
    "?b @ [oldmailFile (bc_cfg b) g] \<noteq> newKey (folderPath (s_path ?s)) x" if "g \<in> F" for g x
    using f(2) that splitSlash_not_Nil [of f] key
    by (cases "splitSlash f"; auto simp: e maildirKeys_def ancestors_def tmpKey_def newKey_def)+
  have K: "oldmailOf (sessionOf b q) = ?b @ [oldmailFile (bc_cfg b) (snd q)] \<and> snd q \<in> F" if "q \<in> P" for q
    using that P by (cases q) (auto simp: oldmailOf_session)
  have "goodNames ?s" using f(1) oldmailFile_plain [of "bc_cfg b" f]
    by (simp add: e goodNames_def oldmailFile_def)
  with d K show "roomFor ?s (oldmailOf ` sessionOf b ` P)"
    unfolding roomFor_def by (auto simp: image_iff)
qed

text \<open>The downloads of a call.\<close>

definition jobsOf :: "string list list \<Rightarrow> (nat \<times> string) set" where
  "jobsOf ps = {(k, f). k < length ps \<and> f \<in> set (ps ! k)}"

lemma jobs_distinct:
  assumes "distinct folders"
  shows "inj_on snd (jobsOf (partitionFolders folders t))" "snd ` jobsOf (partitionFolders folders t) = set folders"
proof -
  define n where "n = (if 0 < sint t \<and> sint t \<le> int (length folders) then nat (sint t) else length folders)"
  have p: "partitionFolders folders t = map (part n folders) [0..<n]"
    unfolding partitionFolders_eq Let_def n_def ..
  have j: "(k, f) \<in> jobsOf (partitionFolders folders t) \<longleftrightarrow>
      k < n \<and> (\<exists>i < length folders. i mod n = k \<and> folders ! i = f)" for k f
    by (auto simp: jobsOf_def p part_def set_nths)
  show "inj_on snd (jobsOf (partitionFolders folders t))"
  proof (rule inj_onI)
    fix x y assume a: "x \<in> jobsOf (partitionFolders folders t)" "y \<in> jobsOf (partitionFolders folders t)" "snd x = snd y"
    obtain k f l where e: "x = (k, f)" "y = (l, f)" using a(3) by (cases x; cases y) auto
    show "x = y" using a(1,2) assms unfolding e j by (auto simp: nth_eq_iff_index_eq)
  qed
  have "f \<in> snd ` jobsOf (partitionFolders folders t) \<longleftrightarrow> f \<in> set folders" for f
  proof
    assume "f \<in> snd ` jobsOf (partitionFolders folders t)"
    then obtain k where "(k, f) \<in> jobsOf (partitionFolders folders t)" by auto
    then show "f \<in> set folders" by (auto simp: j)
  next
    assume "f \<in> set folders"
    then obtain i where i: "i < length folders" "folders ! i = f" by (auto simp: in_set_conv_nth)
    then have "0 < n" by (auto simp: n_def)
    with i have "(i mod n, f) \<in> jobsOf (partitionFolders folders t)" by (auto simp: j)
    then show "f \<in> snd ` jobsOf (partitionFolders folders t)" by force
  qed
  then show "snd ` jobsOf (partitionFolders folders t) = set folders" by blast
qed

section \<open>The invariant of a backup\<close>

lemma busy_job:
  assumes "thread_inv ps (b_main st)" and "busy st k folder folders"
  shows "(k, folder) \<in> jobsOf ps"
proof -
  have k: "k < d_next (b_main st)" "d_next (b_main st) \<le> length ps" using assms by (auto simp: thread_inv_def busy_def)
  then have "begun k (d_log (b_main st)) @ folder # folders = ps ! k"
    using assms unfolding thread_inv_def busy_def by (metis todo.simps(1))
  then have "folder \<in> set (ps ! k)" by (metis in_set_conv_decomp)
  with k show ?thesis by (simp add: jobsOf_def)
qed

text \<open>Except for the oldmail files, nothing on disk is lost.\<close>

definition keeps :: "string list set \<Rightarrow> fsys \<Rightarrow> fsys \<Rightarrow> bool" where
  "keeps K fs fs' \<longleftrightarrow> (\<forall>x n. x \<notin> K \<longrightarrow> look fs x = Some n \<longrightarrow> look fs' x = Some n)"

lemma backup_inv:
  assumes b: "(bstep b ps)\<^sup>*\<^sup>* (backupInit b sh) st" and s: "sideBySide (jobsOf ps) (sessionOf b)"
  shows "(\<forall>p \<in> jobsOf ps. jobInv (sessionOf b p) (fst sh) (b_job st p) (fst (b_shared st))) \<and>
    keeps (oldmailOf ` sessionOf b ` jobsOf ps) (fst sh) (fst (b_shared st))"
  using b
proof (induction rule: rtranclp_induct)
  case base
  show ?case by (simp add: backupInit_def jobInv_def keeps_def)
next
  case (step st st')
  let ?P = "jobsOf ps" and ?S = "sessionOf b" and ?fs0 = "fst sh"
  have ti: "thread_inv ps (b_main st)" using backup_threads [OF step(1)] thread_inv_reach by blast
  from step(2) show ?case
  proof (cases rule: bstep.cases)
    case (move k folder folders c h j sh')
    have p: "(k, folder) \<in> ?P" using busy_job [OF ti] move by simp
    have jm: "jobMove (?S (k, folder)) (b_job st (k, folder), b_shared st) (j, sh')"
      using move(5) by (auto simp: jobMove_def)
    have "jobs.all_inv ?P ?S ?fs0 (b_job st) (b_shared st)"
      unfolding jobs.all_inv_def using step(3) s by simp
    have "(k, folder) \<in> (if sideBySide ?P ?S then ?P else {})" using p s by simp
    from jobs.all_inv_step [OF \<open>jobs.all_inv ?P ?S ?fs0 (b_job st) (b_shared st)\<close> this jm]
    have a: "\<forall>p \<in> ?P. jobInv (?S p) ?fs0 (b_job st' p) (fst (b_shared st'))"
      unfolding jobs.all_inv_def using s by (simp add: move)
    have r: "roomFor (?S (k, folder)) (oldmailOf ` ?S ` ?P)" using s p by (simp add: sideBySide_def)
    have "leavesOthers (oldmailOf (?S (k, folder))) (oldmailOf ` ?S ` ?P) (fst (b_shared st)) (fst sh')"
      using jobInv_step [OF move(5) r] p step(3) by blast
    with p conjunct2 [OF step(3)] have "keeps (oldmailOf ` ?S ` ?P) ?fs0 (fst sh')"
      unfolding keeps_def leavesOthers_def by blast
    with a show ?thesis by (simp add: move)
  qed (use step(3) in simp_all)
qed

section \<open>What a backup without error leaves\<close>

text \<open>
  The folder of the session is backed up: every message the server answered with to the request for
  the emails that were missing is stored, and the oldmail file reads as before with exactly their
  entries appended (the entries before are none if the folder is new).
\<close>

definition savedFolder :: "session \<Rightarrow> fsys \<Rightarrow> fsys \<Rightarrow> bool" where
  "savedFolder s fs0 fs \<longleftrightarrow>
     (\<exists>oldmails mbox uids oms. Select (s_ops s) (mfolder (s_path s)) True = Ok mbox \<and>
        s_listed s mbox = (uids, None) \<and>
        (oldmails = [] \<or> readOldmail fs0 (oldmailPath s) = Ok oldmails) \<and>
        readOldmail fs (oldmailPath s) = Ok (oldmails @ oms) \<and>
        (let missing = filter (\<lambda>u. u \<notin> om_uid ` set oldmails) (map ue_msg uids) in
         if missing = [] then oms = []
         else list_all2 (backedUp s (ucast (UidValidity mbox)) fs)
                (somes (fst (UidFetch (s_ops s) (map ucast missing)))) oms))"

lemma done_read:
  assumes d: "folderDone s fs0 fs" and c: "complete (content fs0 (oldmailOf s))" and f: "faults fs = faults fs0"
  obtains oldmails c mbox uids missing oms where "jobData s fs0 oldmails c mbox uids missing"
    "if missing = [] then oms = []
      else list_all2 (backedUp s (ucast (UidValidity mbox)) fs)
             (somes (fst (UidFetch (s_ops s) (map ucast missing)))) oms"
    "readOldmail fs (oldmailPath s) = Ok (oldmails @ oms)"
proof -
  obtain oldmails c mbox uids missing oms where j: "jobData s fs0 oldmails c mbox uids missing"
    and l: "if missing = [] then oms = []
      else list_all2 (backedUp s (ucast (UidValidity mbox)) fs)
             (somes (fst (UidFetch (s_ops s) (map ucast missing)))) oms"
    and n: "nodes fs (oldmailOf s) = Some (File (c @ concat (map oldmailLine oms)))"
    using d unfolding folderDone_def by blast
  obtain fs1 where fs1: "readOldmail fs1 (oldmailPath s) = Ok oldmails" "content fs1 (oldmailOf s) = c"
    "faults fs1 = faults fs0" using j unfolding jobData_def by blast
  have "complete []" by (simp add: complete_def)
  with c j have "complete (content fs1 (oldmailOf s))" by (auto simp: jobData_def fs1(2))
  then have "readOldmail fs (oldmailPath s) = Ok (oldmails @ oms)"
    using n f fs1 unfolding oldmailOf_def by (intro readOldmail_extended [OF fs1(1)]) simp_all
  with that [OF j l] show thesis .
qed

lemma done_saved:
  assumes "folderDone s fs0 fs" and "complete (content fs0 (oldmailOf s))" and "faults fs = faults fs0"
  shows "savedFolder s fs0 fs"
proof (rule done_read [OF assms])
  fix oldmails c mbox uids missing oms
  assume j: "jobData s fs0 oldmails c mbox uids missing"
    and l: "if missing = [] then oms = []
      else list_all2 (backedUp s (ucast (UidValidity mbox)) fs)
             (somes (fst (UidFetch (s_ops s) (map ucast missing)))) oms"
    and r: "readOldmail fs (oldmailPath s) = Ok (oldmails @ oms)"
  have "missing = filter (\<lambda>u. u \<notin> om_uid ` set oldmails) (map ue_msg uids)"
    using j by (auto simp: jobData_def determineMissingUIDs_eq split: if_splits)
  then show ?thesis
    using j l r unfolding savedFolder_def jobData_def Let_def by metis
qed

lemma call_sideBySide:
  assumes "iterates iter1" and "iterates iter2"
    and ps: "ps = downloadPartitions iter1 iter2 (bc_server b) specs threads"
    and n: "separateNames (bc_cfg b) (set (fst (available (bc_server b))))"
  shows "sideBySide (jobsOf ps) (sessionOf b)"
    and "snd ` jobsOf ps = set (expandFolders iter1 iter2 specs (fst (available (bc_server b))))"
proof -
  let ?F = "expandFolders iter1 iter2 specs (fst (available (bc_server b)))"
  note e = expandFolders_facts [OF assms(1,2), where specs = specs and avail = "fst (available (bc_server b))"]
  note j = jobs_distinct [OF e(2), of threads, folded downloadPartitions_def ps]
  show "snd ` jobsOf ps = set ?F" by (rule j(2))
  have "f \<in> set (fst (available (bc_server b)))" if "(k, f) \<in> jobsOf ps" for k f
  proof -
    have "f \<in> snd ` jobsOf ps" using that by force
    with j(2) e(3) show ?thesis by simp
  qed
  from sideBySide_names [OF n this j(1)] show "sideBySide (jobsOf ps) (sessionOf b)" .
qed

text \<open>The jobs of a backup that has returned nil.\<close>

lemma errorless_jobs:
  assumes b: "(bstep b ps)\<^sup>*\<^sup>* (backupInit b sh) st" and r: "d_result (b_main st) = Some (Ok None)"
    and p: "(k, f) \<in> jobsOf ps"
  shows "b_job st (k, f) = Finished (Ok ())"
proof -
  have t: "(dstep (outcomes b st) ps)\<^sup>*\<^sup>* (downloadInit (outcomes b st)) (b_main st)" "logged_inv st"
    using backup_threads [OF b] by blast+
  note e = errorless_threads [OF t(1) r]
  have k: "k < length ps" "f \<in> set (ps ! k)" using p by (auto simp: jobsOf_def)
  with e(4) have "f \<in> set (begun k (d_log (b_main st)))" by simp
  then have l: "(k, f) \<in> set (d_log (b_main st))" by (auto simp: begun_def)
  then obtain q where q: "b_job st (k, f) = Finished q" "\<forall>e. q \<noteq> Panic e"
    using t(2) by (auto simp: logged_inv_def)
  with e(5) [OF l] show ?thesis by (cases q) auto
qed

lemma backup_done:
  assumes n: "iterates iter1" "iterates iter2" "ps = downloadPartitions iter1 iter2 (bc_server b) specs threads"
      "separateNames (bc_cfg b) (set (fst (available (bc_server b))))"
    and b: "(bstep b ps)\<^sup>*\<^sup>* (backupInit b sh) st" "d_result (b_main st) = Some (Ok None)"
    and f: "f \<in> set (expandFolders iter1 iter2 specs (fst (available (bc_server b))))"
  obtains k where "(k, f) \<in> jobsOf ps" "folderDone (sessionOf b (k, f)) (fst sh) (fst (b_shared st))"
    "faults (fst (b_shared st)) = faults (fst sh)"
proof -
  note s = call_sideBySide [OF n]
  obtain k where k: "(k, f) \<in> jobsOf ps" using f by (auto simp flip: s(2))
  have "b_job st (k, f) = Finished (Ok ())" by (rule errorless_jobs [OF b k])
  with backup_inv [OF b(1) s(1)] k
  have "jobInv (sessionOf b (k, f)) (fst sh) (Finished (Ok ())) (fst (b_shared st))" by force
  with that k show thesis by (simp add: jobInv_def)
qed

section \<open>A backup can always go on\<close>

lemma moves:
  assumes "(jobStep (sessionOf b (k, f)))\<^sup>*\<^sup>* ((b_handler st k, b_job st (k, f)), b_shared st) y"
    and "running st" and "busy st k f fs" and "connection (bc_server b) k = Ok c"
  shows "(bstep b ps)\<^sup>*\<^sup>* st (st\<lparr>b_handler := (b_handler st)(k := fst (fst y)),
    b_job := (b_job st)((k, f) := snd (fst y)), b_shared := snd y\<rparr>)"
  using assms(1)
proof (induction rule: rtranclp_induct)
  case (step y z)
  let ?st = "st\<lparr>b_handler := (b_handler st)(k := fst (fst y)), b_job := (b_job st)((k, f) := snd (fst y)), b_shared := snd y\<rparr>"
  have "jobStep (sessionOf b (k, f)) ((b_handler ?st k, b_job ?st (k, f)), b_shared ?st) ((fst (fst z), snd (fst z)), snd z)"
    using step(2) by simp
  from bstep.move [OF _ _ assms(4) this, of fs] assms(2,3)
  have "bstep b ps ?st (st\<lparr>b_handler := (b_handler st)(k := fst (fst z)),
      b_job := (b_job st)((k, f) := snd (fst z)), b_shared := snd z\<rparr>)"
    by (simp add: running_def busy_def)
  from rtranclp.rtrancl_into_rtrancl [OF step(3) this] show ?case .
qed simp

lemma backup_saves:
  assumes "iterates iter1" and "iterates iter2"
    and "ps = downloadPartitions iter1 iter2 (bc_server b) specs threads"
    and "separateNames (bc_cfg b) (set (fst (available (bc_server b))))"
    and "\<And>k f. complete (content (fst sh) (oldmailOf (sessionOf b (k, f))))"
    and "(bstep b ps)\<^sup>*\<^sup>* (backupInit b sh) st" and "d_result (b_main st) = Some (Ok None)"
    and f: "f \<in> set (expandFolders iter1 iter2 specs (fst (available (bc_server b))))"
  shows "\<exists>k < length ps. f \<in> set (ps ! k) \<and> savedFolder (sessionOf b (k, f)) (fst sh) (fst (b_shared st))"
proof -
  obtain k where k: "(k, f) \<in> jobsOf ps" "folderDone (sessionOf b (k, f)) (fst sh) (fst (b_shared st))"
    "faults (fst (b_shared st)) = faults (fst sh)"
    by (rule backup_done [OF assms(1-4,6,7) f])
  from done_saved [OF k(2) assms(5) k(3)] k(1) show ?thesis by (auto simp: jobsOf_def)
qed

text \<open>A thread that is busy can finish its job, and then report it or end the program.\<close>

lemma job_ends:
  assumes b: "(bstep b ps)\<^sup>*\<^sup>* (backupInit b sh) st" and s: "sideBySide (jobsOf ps) (sessionOf b)"
    and r: "running st" and y: "busy st k f fs"
  shows "\<exists>st'. (bstep b ps)\<^sup>*\<^sup>* st st' \<and> (b_crash st' \<noteq> None \<or> outstanding ps (b_main st') < outstanding ps (b_main st))"
proof -
  let ?s = "sessionOf b (k, f)"
  have t: "(dstep (outcomes b st) ps)\<^sup>*\<^sup>* (downloadInit (outcomes b st)) (b_main st)" using backup_threads [OF b] by blast
  note ti = thread_inv_reach [OF t]
  have p: "(k, f) \<in> jobsOf ps" by (rule busy_job [OF ti y])
  have "k < d_next (b_main st)" using ti y by (simp add: thread_inv_def busy_def)
  with connected_reach [OF t] obtain c where c: "connection (bc_server b) k = Ok c" by auto
  have "roomFor ?s (oldmailOf ` sessionOf b ` jobsOf ps)" using s p by (simp add: sideBySide_def)
  moreover have "jobInv ?s (fst sh) (b_job st (k, f)) (fst (b_shared st))" using backup_inv [OF b s] p by blast
  ultimately obtain h q sh' where
    "(jobStep ?s)\<^sup>*\<^sup>* ((b_handler st k, b_job st (k, f)), b_shared st) ((h, Finished q), sh')"
    using job_can_finish p by blast
  from moves [OF this r y c] obtain st1 where st1: "(bstep b ps)\<^sup>*\<^sup>* st st1" "b_job st1 (k, f) = Finished q"
    "running st1" "busy st1 k f fs" "b_main st1 = b_main st"
    using r y by (force simp: running_def busy_def)
  show ?thesis
  proof (cases "\<exists>e. q = Panic e")
    case True
    then obtain e where "b_job st1 (k, f) = Finished (Panic e)" using st1(2) by blast
    from rtranclp.rtrancl_into_rtrancl [OF st1(1) bstep.crash [OF st1(3,4) this]] show ?thesis
      by (intro exI [of _ "st1\<lparr>b_crash := Some e\<rparr>"]) simp
  next
    case False
    then have q: "\<And>e. q \<noteq> Panic e" by blast
    have l: "sum_list (map workerWork ((d_workers (b_main st))[k := Working fs])) < sum_list (map workerWork (d_workers (b_main st)))"
      using y by (intro sum_list_update_less) (simp_all add: busy_def)
    let ?st = "st1\<lparr>b_main := addErr (errorOf q) ((b_main st1)\<lparr>d_workers := (d_workers (b_main st1))[k := Working fs],
      d_log := d_log (b_main st1) @ [(k, f)]\<rparr>)\<rparr>"
    have "outstanding ps (b_main ?st) < outstanding ps (b_main st)"
      using l r st1(5) by (simp add: outstanding_def running_def)
    with rtranclp.rtrancl_into_rtrancl [OF st1(1) bstep.report [OF st1(3,4,2) q]] show ?thesis by blast
  qed
qed

text \<open>Otherwise the main goroutine or a thread without a folder can go on.\<close>

lemma control_possible:
  assumes i: "thread_inv ps (b_main st)" and r: "running st" and y: "\<nexists>k f fs. busy st k f fs"
  shows "\<exists>st'. bstep b ps st st' \<and> outstanding ps (b_main st') < outstanding ps (b_main st)"
proof -
  from r have n: "d_result (b_main st) = None" by (simp add: running_def)
  obtain m where m: "dstep (bc_server b) ps (b_main st) m" "outstanding ps m < outstanding ps (b_main st)"
    using dstep_possible [OF i n] by blast
  have "d_log m = d_log (b_main st)" using dstep_log [OF m(1)] y by (auto simp: busy_def)
  from bstep.control [OF r m(1) this] m(2) show ?thesis by (intro exI [of _ "st\<lparr>b_main := m\<rparr>"]) simp
qed

lemma backup_ends:
  assumes "(bstep b ps)\<^sup>*\<^sup>* (backupInit b sh) st" and s: "sideBySide (jobsOf ps) (sessionOf b)"
  shows "\<exists>st'. (bstep b ps)\<^sup>*\<^sup>* st st' \<and> \<not> running st'"
  using assms(1)
proof (induction "outstanding ps (b_main st)" arbitrary: st rule: less_induct)
  case less
  have ti: "thread_inv ps (b_main st)" using backup_threads [OF less.prems] thread_inv_reach by blast
  show ?case
  proof (cases "running st")
    case True
    obtain st1 where st1: "(bstep b ps)\<^sup>*\<^sup>* st st1"
      "b_crash st1 \<noteq> None \<or> outstanding ps (b_main st1) < outstanding ps (b_main st)"
    proof (cases "\<exists>k f fs. busy st k f fs")
      case y: True
      with job_ends [OF less.prems s True] that show thesis by blast
    next
      case False
      with control_possible [OF ti True] that show thesis by blast
    qed
    show ?thesis
    proof (cases "b_crash st1 = None")
      case False
      with st1(1) show ?thesis by (auto simp: running_def)
    next
      case c: True
      have "(bstep b ps)\<^sup>*\<^sup>* (backupInit b sh) st1" using less.prems st1(1) by simp
      from less.hyps [OF _ this] st1 c show ?thesis by (meson rtranclp_trans)
    qed
  qed blast
qed

section \<open>A concrete backup\<close>

text \<open>For the witnesses: one folder with one email, one thread, an empty disk.\<close>

definition exampleConfig :: IMAPConfig where
  "exampleConfig = \<lparr>Server = ''s'', Port = 1, User = ''u'', Password = ''p'', Insecure = False\<rparr>"

definition exampleCall :: backupCall where
  "exampleCall =
     \<lparr>bc_cfg = exampleConfig, bc_base = ''bak'', bc_env = exampleEnv,
      bc_server = \<lparr>connection = (\<lambda>k. Ok exampleOps), available = ([''a''], None), downloadErr = (\<lambda>k f. None)\<rparr>,
      bc_listed = (\<lambda>k f. s_listed exampleSession)\<rparr>"

lemma exampleCall_session: "sessionOf exampleCall (0, ''a'') = exampleSession"
proof -
  have "oldmailFileName exampleConfig ''a'' = ''oldmail-s-1-u-a''" by code_simp
  then show ?thesis
    by (simp add: sessionOf_def exampleCall_def exampleSession_def clientOf_def)
qed

lemma exampleCall_simps [simp]:
  "connection (bc_server exampleCall) k = Ok exampleOps" "available (bc_server exampleCall) = ([''a''], None)"
  by (simp_all add: exampleCall_def)

lemma exampleBackup:
  "\<exists>st. (bstep exampleCall [[''a'']])\<^sup>*\<^sup>* (backupInit exampleCall (emptyFs, \<lparr>count = 0\<rparr>)) st \<and>
    d_result (b_main st) = Some (Ok None) \<and> fst (b_shared st) = exampleStored"
proof -
  let ?ps = "[[''a'']]" and ?sh = "(emptyFs, \<lparr>count = 0\<rparr>) :: shared"
  let ?i = "newInterruptOps signalsToWaitFor" and ?env = "bc_server exampleCall"
  let ?m = "\<lambda>n l ws log. \<lparr>d_errs = \<lparr>errs = [], verbose = True\<rparr>, d_intr = ?i, d_next = n, d_loop = l,
    d_workers = ws, d_log = log, d_logouts = [], d_result = None\<rparr>"
  let ?b = "\<lambda>m. \<lparr>b_main = m, b_shared = ?sh, b_handler = (\<lambda>k. ?i), b_job = (\<lambda>p. Waiting), b_crash = None\<rparr>"
  have i: "interrupted ?i = (?i, False)" by (simp add: newInterruptOps_def register_def interrupted_def)
  have run: "running (?b (?m n l ws log))" for n l ws log by (simp add: running_def)
  have 0: "backupInit exampleCall ?sh = ?b (?m 0 LNext [] [])"
    by (simp add: backupInit_def downloadInit_def Let_def addErr_def errs_add_def)
  note ctrl = bstep.control [where b = exampleCall and ps = ?ps]
  have "bstep exampleCall ?ps (?b (?m 0 LNext [] [])) (?b (?m 0 LDecide [] []))"
    using ctrl [OF run, of 0 LNext "[]" "[]" "?m 0 LDecide [] []"] dstep.connect [of "?m 0 LNext [] []" ?ps ?env]
    by (simp add: connectThread_def)
  moreover have "bstep exampleCall ?ps (?b (?m 0 LDecide [] [])) (?b (?m 1 LNext [Working [''a'']] []))"
    using ctrl [OF run, of 0 LDecide "[]" "[]" "?m 1 LNext [Working [''a'']] []"]
      dstep.spawn [of "?m 0 LDecide [] []" ?i ?env ?ps] i
    by simp
  moreover have "bstep exampleCall ?ps (?b (?m 1 LNext [Working [''a'']] [])) (?b (?m 1 LDone [Working [''a'']] []))"
    using ctrl [OF run, of 1 LNext "[Working [''a'']]" "[]" "?m 1 LDone [Working [''a'']] []"]
      dstep.loop_end [of "?m 1 LNext [Working [''a'']] []" ?ps ?env]
    by simp
  ultimately have r1: "(bstep exampleCall ?ps)\<^sup>*\<^sup>* (backupInit exampleCall ?sh) (?b (?m 1 LDone [Working [''a'']] []))"
    by (subst 0) (meson rtranclp.rtrancl_into_rtrancl rtranclp.rtrancl_refl)
  let ?w = "?b (?m 1 LDone [Working [''a'']] [])"
  obtain fs dc where "downloadMissingEmailsToFolder exampleSession ?i ?sh ((fs, dc), Ok ())" and fs: "fs = exampleStored"
    using exampleDownload unfolding signalsToWaitFor_def by blast
  then have "ig_downloadMissingEmailsToFolder exampleSession ?i ?sh ((fs, dc), Ok ())"
    using i by (simp add: ig_downloadMissingEmailsToFolder_def)
  from startDownload_small [OF this] obtain h where
    j: "(jobStep (sessionOf exampleCall (0, ''a'')))\<^sup>*\<^sup>* ((b_handler ?w 0, b_job ?w (0, ''a'')), b_shared ?w)
      ((h, Finished (Ok ())), (fs, dc))"
    unfolding exampleCall_session by auto
  have y: "busy ?w 0 ''a'' []" by (simp add: busy_def)
  let ?g = "\<lambda>m. \<lparr>b_main = m, b_shared = (fs, dc), b_handler = (\<lambda>k. ?i)(0 := h),
    b_job = (\<lambda>p. Waiting)((0, ''a'') := Finished (Ok ())), b_crash = None\<rparr>"
  have r2: "(bstep exampleCall ?ps)\<^sup>*\<^sup>* ?w (?g (?m 1 LDone [Working [''a'']] []))"
    using moves [OF j run y] by simp
  obtain last where last: "dstep ?env ?ps (?m 1 LDone [Ended] [(0, ''a'')]) last" "d_log last = [(0, ''a'')]"
    "d_result last = Some (Ok None)"
    using dstep.return [of "?m 1 LDone [Ended] [(0, ''a'')]" ?env ?ps]
    by (simp add: logoutThen_def logoutOf_eq exampleOps_def addErr_def errs_add_def errs_err_def)
  have g: "running (?g (?m n l ws log))" for n l ws log by (simp add: running_def)
  have "bstep exampleCall ?ps (?g (?m 1 LDone [Working [''a'']] [])) (?g (?m 1 LDone [Working []] [(0, ''a'')]))"
    using bstep.report [OF g, of 1 LDone "[Working [''a'']]" "[]" 0 "''a''" "[]" "Ok ()" exampleCall ?ps]
    by (simp add: busy_def addErr_def errs_add_def)
  moreover have "bstep exampleCall ?ps (?g (?m 1 LDone [Working []] [(0, ''a'')])) (?g (?m 1 LDone [Ended] [(0, ''a'')]))"
    using ctrl [OF g, of 1 LDone "[Working []]" "[(0, ''a'')]" "?m 1 LDone [Ended] [(0, ''a'')]"]
      dstep.work_end [of "?m 1 LDone [Working []] [(0, ''a'')]" 0 ?env ?ps]
    by simp
  moreover have "bstep exampleCall ?ps (?g (?m 1 LDone [Ended] [(0, ''a'')])) (?g last)"
    using ctrl [OF g, of 1 LDone "[Ended]" "[(0, ''a'')]" last] last(1,2) by simp
  ultimately have r3: "(bstep exampleCall ?ps)\<^sup>*\<^sup>* (?g (?m 1 LDone [Working [''a'']] [])) (?g last)"
    by (meson rtranclp.rtrancl_into_rtrancl rtranclp.rtrancl_refl)
  from rtranclp_trans [OF rtranclp_trans [OF r1 r2] r3] last(3) fs show ?thesis by fastforce
qed

section \<open>Properties\<close>

lemma exampleNames: "separateNames (bc_cfg exampleCall) (set (fst (available (bc_server exampleCall))))"
proof -
  have "hd (splitSlash ''a'') \<noteq> oldmailFile exampleConfig ''a''" "inside ''a''" by code_simp+
  then show ?thesis by (simp add: separateNames_def) (simp add: exampleCall_def)
qed

lemma examplePartitions: "[[''a'']] = downloadPartitions (\<lambda>ks. ks) (\<lambda>ks. ks) (bc_server exampleCall) [''_ALL_''] 1"
proof -
  have "expandFolders (\<lambda>ks. ks) (\<lambda>ks. ks) [''_ALL_''] [''a''] = [''a'']" "partitionFolders [''a''] 1 = [[''a'']]" by code_simp+
  then show ?thesis by (simp add: downloadPartitions_def)
qed







text \<open>
  C11: A backup cannot deadlock: from every state that the threads, the pipelines and the interrupts can
  lead to, they can go on to the return of \<open>DownloadFolder\<close> or to a panic that ends the program.
\<close>

theorem backup_can_end:
  assumes "iterates iter1" and "iterates iter2"
    and "ps = downloadPartitions iter1 iter2 (bc_server b) specs threads"
    and "separateNames (bc_cfg b) (set (fst (available (bc_server b))))"
    and "(bstep b ps)\<^sup>*\<^sup>* (backupInit b sh) st"
  shows "\<exists>st'. (bstep b ps)\<^sup>*\<^sup>* st st' \<and> (d_result (b_main st') \<noteq> None \<or> b_crash st' \<noteq> None)"
  using backup_ends [OF assms(5) call_sideBySide(1) [OF assms(1-4)]] by (auto simp: running_def)

lemma backup_can_end_witness:
  "\<exists>st. (bstep exampleCall [[''a'']])\<^sup>*\<^sup>* (backupInit exampleCall (emptyFs, \<lparr>count = 7\<rparr>)) st \<and>
    (d_result (b_main st) \<noteq> None \<or> b_crash st \<noteq> None)"
  using backup_can_end [OF iterates_id iterates_id examplePartitions exampleNames
      rtranclp.rtrancl_refl] .

end
