(* ===== verification/Schedules.thy ===== *)
theory Schedules
  imports Backup
begin

text \<open>
  Infinite schedules of a backup (\<open>core/core.go\<close>, \<open>core/download.go\<close>): the only thing the program can do for
  ever is to wait for others. A goroutine that finds the channel of the library closed polls until
  \<open>already\<close> is called (\<open>core/imap_client.go\<close>), and signals may arrive at any time; every other step uses
  up work that is bounded by a well-founded measure.
\<close>

section \<open>Work of a pipeline\<close>

text \<open>
  Polling: the translating goroutine goes round its loop while the channel is closed and \<open>already\<close>
  is not called. The states of this loop have the same weight.
\<close>

definition polling :: "('m, 's) pipeline \<Rightarrow> bool" where
  "polling p \<longleftrightarrow> orgClosed p \<and> \<not> called (already p) \<and> transPc p \<in> {TLoop, TPoll, TRecv}"

definition transWork :: "('m, 's) pipeline \<Rightarrow> nat" where
  "transWork p = (if polling p then 3 else transWeight (called (already p)) (transPc p))"

fun fetchWork :: "'m fetch_pc \<Rightarrow> nat" where
  "fetchWork (FSend xs) = 10 * length xs + 10"
| "fetchWork FReturn = 5"
| "fetchWork FDone = 0"

definition work :: "('m, 's) pipeline \<Rightarrow> nat" where
  "work p = mainWeight (mainPc p) + fetchWork (fetchPc p) + transWork p + 4 * length (translated p) +
     deliverWeight (deliverPc p) + length (delivered p) + of_bool (writePc p = WRecv)"

text \<open>A step that only lets a signal arrive or goes on polling.\<close>

definition idles :: "('m, 's) pipeline \<Rightarrow> ('m, 's) pipeline \<Rightarrow> bool" where
  "idles p p' \<longleftrightarrow> (\<exists>i. p' = p\<lparr>sig := i\<rparr>) \<or> polling p \<and> polling p' \<and> (\<exists>i t. p' = p\<lparr>sig := i, transPc := t\<rparr>)"

lemma idles_polling:
  assumes "polling p" "t \<in> {TLoop, TPoll, TRecv}"
  shows "idles p (p\<lparr>sig := i, transPc := t\<rparr>) \<and> work (p\<lparr>sig := i, transPc := t\<rparr>) = work p"
proof -
  have "polling (p\<lparr>sig := i, transPc := t\<rparr>)" using assms by (auto simp: polling_def)
  with assms(1) show ?thesis by (auto simp: idles_def work_def transWork_def)
qed

lemma transWork_bounds:
  assumes "transPc p' = transPc p"
  shows "transWork p' \<le> transWork p + 2"
  using assms by (cases "transPc p") (auto simp: transWork_def polling_def)

lemma pstep_work:
  assumes "pstep cfg p p'" and "ctrl_inv cfg p"
  shows "idles p p' \<and> work p' = work p \<or> work p' < work p"
  using assms(1)
proof (cases rule: pstep.cases)
  case (signal s)
  then show ?thesis by (auto simp: idles_def work_def transWork_def polling_def)
next
  case trans_loop
  then show ?thesis
  proof (cases "polling p")
    case True
    from idles_polling [OF this, of TPoll "sig p"] trans_loop show ?thesis by simp
  qed (auto simp: work_def transWork_def polling_def)
next
  case (trans_not_interrupted i)
  then show ?thesis
  proof (cases "polling p")
    case True
    from idles_polling [OF this, of TRecv i] trans_not_interrupted show ?thesis by simp
  qed (auto simp: work_def transWork_def polling_def)
next
  case trans_recv_closed
  then show ?thesis
  proof (cases "polling p")
    case True
    from idles_polling [OF this, of TLoop "sig p"] trans_recv_closed show ?thesis by simp
  qed (auto simp: work_def transWork_def polling_def)
next
  case fetch_return
  with transWork_bounds [of p' p] show ?thesis by (simp add: work_def)
next
  case fetch_end
  with transWork_bounds [of p' p] show ?thesis by (simp add: work_def)
next
  case (trans_interrupted i)
  then show ?thesis using assms(2) by (auto simp: work_def transWork_def polling_def ctrl_inv_def wg_inv_def)
next
  case (fetch_send x xs)
  then show ?thesis using assms(2)
    by (auto simp: work_def transWork_def polling_def ctrl_inv_def fetch_inv_def split: option.split)
qed (auto simp: work_def transWork_def polling_def)

section \<open>Work of a job\<close>

definition controlled :: "session \<Rightarrow> job \<Rightarrow> bool" where
  "controlled s j \<longleftrightarrow> (\<forall>path v ns p. j = Piping path v ns p \<longrightarrow> ctrl_inv (downloadStages s path v ns) p)"

fun jobWork :: "job \<Rightarrow> nat" where
  "jobWork (Piping path v ns p) = Suc (work p)"
| "jobWork _ = 0"

text \<open>A step of a job that changes nothing but what its pipeline polls.\<close>

definition polls :: "job \<times> shared \<Rightarrow> job \<times> shared \<Rightarrow> bool" where
  "polls x y \<longleftrightarrow>
     (\<exists>path v ns p p'. x = (Piping path v ns p, snd x) \<and> y = (Piping path v ns p', snd x) \<and>
        idles (attach (snd x) p) p')"

lemma work_attach [simp]: "work (attach st p) = work p"
  by (auto simp: work_def transWork_def polling_def attach_def)

lemma idles_store: "idles p p' \<Longrightarrow> store p' = store p"
  by (auto simp: idles_def)

lemma jobStep_work:
  assumes "jobStep s ((i, j), st) ((i', j'), st')" and "controlled s j"
  shows "controlled s j' \<and>
    (j = Waiting \<and> j' \<noteq> Waiting \<or>
     j \<noteq> Waiting \<and> j' \<noteq> Waiting \<and> (polls (j, st) (j', st') \<and> jobWork j' = jobWork j \<or> jobWork j' < jobWork j))"
  using assms(1)
proof (cases rule: jobStep.cases)
  case (started path v ns)
  then show ?thesis by (simp add: controlled_def downloadStart_def ctrl_inv_setUp)
next
  case (piped path v ns p p')
  let ?cfg = "downloadStages s path v ns"
  have c: "ctrl_inv ?cfg (attach st p)"
    using assms(2) piped by (simp add: controlled_def)
  have "polls (j, st) (j', st') \<and> jobWork j' = jobWork j \<or> jobWork j' < jobWork j"
    using pstep_work [OF piped(5) c]
  proof
    assume w: "idles (attach st p) p' \<and> work p' = work (attach st p)"
    then have "st' = st" using idles_store [of "attach st p" p'] piped(4) by (simp add: sharedOf_def attach_def)
    with w piped show ?thesis by (auto simp: polls_def)
  qed (use piped in simp)
  with ctrl_inv_step [OF piped(5) c] piped show ?thesis by (simp add: controlled_def)
qed (auto simp: controlled_def)

section \<open>Work of a backup\<close>

lemma finite_jobsOf [simp]: "finite (jobsOf ps)"
proof -
  have "jobsOf ps = (SIGMA k:{..<length ps}. set (ps ! k))" by (auto simp: jobsOf_def)
  then show ?thesis by simp
qed

text \<open>
  A step in which the program only waits: signals arrive, or one pipeline polls. Nothing else happens,
  neither on disk nor in the threads.
\<close>

definition waits :: "backup \<Rightarrow> backup \<Rightarrow> bool" where
  "waits st st' \<longleftrightarrow> b_crash st' = b_crash st \<and> b_shared st' = b_shared st \<and>
     (b_main st' = b_main st \<or> (\<exists>s. b_main st' = (b_main st)\<lparr>d_intr := notify s (d_intr (b_main st))\<rparr>)) \<and>
     (b_job st' = b_job st \<or>
      (\<exists>p j. b_job st' = (b_job st)(p := j) \<and> polls (b_job st p, b_shared st) (j, b_shared st)))"

text \<open>The work left: of the threads and of jobs that have not begun, and then of the pipelines.\<close>

definition threadsLeft :: "string list list \<Rightarrow> backup \<Rightarrow> nat" where
  "threadsLeft ps st = outstanding ps (b_main st) + card {p \<in> jobsOf ps. b_job st p = Waiting} + of_bool (b_crash st = None)"

definition jobsLeft :: "string list list \<Rightarrow> backup \<Rightarrow> nat" where
  "jobsLeft ps st = (\<Sum>p \<in> jobsOf ps. jobWork (b_job st p))"

definition workLeft :: "string list list \<Rightarrow> backup \<Rightarrow> nat \<times> nat" where
  "workLeft ps st = (threadsLeft ps st, jobsLeft ps st)"

definition uses_up :: "string list list \<Rightarrow> backup \<Rightarrow> backup \<Rightarrow> bool" where
  "uses_up ps st st' \<longleftrightarrow> waits st st' \<and> workLeft ps st' = workLeft ps st \<or>
     (workLeft ps st', workLeft ps st) \<in> less_than <*lex*> less_than"

lemma outstanding_signal [simp]: "outstanding ps (m\<lparr>d_intr := i\<rparr>) = outstanding ps m"
  by (simp add: outstanding_def)

lemma outstanding_report:
  assumes t: "thread_inv ps (b_main st)" and r: "running st" "busy st k folder folders"
  shows "outstanding ps (addErr e ((b_main st)\<lparr>d_workers := (d_workers (b_main st))[k := Working folders],
      d_log := d_log (b_main st) @ [(k, folder)]\<rparr>)) < outstanding ps (b_main st)"
proof -
  let ?env = "(undefined :: surroundings)\<lparr>downloadErr := \<lambda>k f. e\<rparr>"
  have "dstep ?env ps (b_main st) (addErr (downloadErr ?env k folder)
      ((b_main st)\<lparr>d_workers := (d_workers (b_main st))[k := Working folders], d_log := d_log (b_main st) @ [(k, folder)]\<rparr>))"
    using r by (intro dstep.work) (simp_all add: running_def busy_def)
  moreover have "addErr e ((b_main st)\<lparr>d_workers := w, d_log := d_log (b_main st) @ [(k, folder)]\<rparr>) \<noteq>
      (b_main st)\<lparr>d_intr := i\<rparr>" for w i
    by (auto simp: addErr_def dest!: arg_cong [where f = d_log])
  ultimately show ?thesis using outstanding_step [OF _ t] by fastforce
qed

text \<open>What a job does uses up its work, whatever the other jobs are doing.\<close>

lemma uses_up_job:
  assumes p: "p \<in> jobsOf ps" and j: "jobStep s ((i, b_job st p), b_shared st) ((i', j), sh)" "controlled s (b_job st p)"
    and st': "st' = st\<lparr>b_handler := h, b_job := (b_job st)(p := j), b_shared := sh\<rparr>"
  shows "uses_up ps st st'"
proof -
  let ?w = "{q \<in> jobsOf ps. b_job st q = Waiting}" and ?w' = "{q \<in> jobsOf ps. b_job st' q = Waiting}"
  have sum: "jobsLeft ps st' + jobWork (b_job st p) = jobsLeft ps st + jobWork j"
  proof -
    have "jobsLeft ps st = jobWork (b_job st p) + (\<Sum>q \<in> jobsOf ps - {p}. jobWork (b_job st q))"
      unfolding jobsLeft_def using p by (intro sum.remove) simp_all
    moreover have "jobsLeft ps st' = jobWork (b_job st' p) + (\<Sum>q \<in> jobsOf ps - {p}. jobWork (b_job st' q))"
      unfolding jobsLeft_def using p by (intro sum.remove) simp_all
    moreover have "(\<Sum>q \<in> jobsOf ps - {p}. jobWork (b_job st' q)) = (\<Sum>q \<in> jobsOf ps - {p}. jobWork (b_job st q))"
      by (rule sum.cong) (simp_all add: st')
    ultimately show ?thesis by (simp add: st')
  qed
  from jobStep_work [OF j] show ?thesis
  proof (elim conjE disjE)
    assume w: "b_job st p = Waiting" "j \<noteq> Waiting"
    then have "?w' = ?w - {p}" by (auto simp: st')
    moreover have "card (?w - {p}) < card ?w" using p w by (intro card_Diff1_less) simp_all
    ultimately have "card ?w' < card ?w" by simp
    then show ?thesis by (simp add: uses_up_def workLeft_def threadsLeft_def st')
  next
    assume w: "b_job st p \<noteq> Waiting" "j \<noteq> Waiting"
    then have "?w' = ?w" by (auto simp: st')
    then have t: "threadsLeft ps st' = threadsLeft ps st" by (simp add: threadsLeft_def st')
    {
      assume "polls (b_job st p, b_shared st) (j, sh)" "jobWork j = jobWork (b_job st p)"
      moreover from this(1) have "sh = b_shared st" by (auto simp: polls_def)
      ultimately have "waits st st'" unfolding waits_def st' by (cases p) auto
      with t sum \<open>jobWork j = jobWork (b_job st p)\<close> show ?thesis by (simp add: uses_up_def workLeft_def)
    next
      assume "jobWork j < jobWork (b_job st p)"
      with t sum show ?thesis by (simp add: uses_up_def workLeft_def)
    }
  qed
qed

lemma uses_up_step:
  assumes s: "bstep b ps st st'" and t: "thread_inv ps (b_main st)" and c: "\<And>p. controlled (sessionOf b p) (b_job st p)"
  shows "uses_up ps st st'"
  using s
proof (cases rule: bstep.cases)
  case (control m)
  from outstanding_step [OF control(3) t] show ?thesis
    using control by (auto simp: uses_up_def workLeft_def threadsLeft_def jobsLeft_def waits_def)
next
  case (signal s k)
  then show ?thesis by (simp add: uses_up_def workLeft_def threadsLeft_def jobsLeft_def waits_def)
next
  case (move k folder folders c h j sh)
  from busy_job [OF t move(3)] move(5) c [of "(k, folder)"] show ?thesis by (rule uses_up_job) (rule move(1))
next
  case (report k folder folders r)
  from outstanding_report [OF t report(2,3), of "errorOf r"] report(1) show ?thesis
    by (simp add: uses_up_def workLeft_def threadsLeft_def)
next
  case (crash k folder folders r)
  then show ?thesis by (simp add: uses_up_def workLeft_def threadsLeft_def running_def)
qed

section \<open>Infinite schedules\<close>

lemma controlled_reach:
  assumes "(bstep b ps)\<^sup>*\<^sup>* (backupInit b sh) st"
  shows "controlled (sessionOf b p) (b_job st p)"
  using assms
proof (induction rule: rtranclp_induct)
  case base
  show ?case by (simp add: backupInit_def controlled_def)
next
  case (step st st')
  from step(2) show ?case
  proof (cases rule: bstep.cases)
    case (move k folder folders c h j sh')
    show ?thesis
    proof (cases "p = (k, folder)")
      case True
      with jobStep_work [OF move(5)] step(3) move(1) show ?thesis by simp
    qed (use step(3) move(1) in simp)
  qed (use step(3) in simp_all)
qed

text \<open>Along a sequence that never increases in a well-founded order, it decreases only finitely often.\<close>

lemma eventually_constant:
  assumes "wf r" and "\<And>n. g (Suc n) = g n \<or> (g (Suc n), g n) \<in> r"
  obtains N where "\<And>n. n \<ge> N \<Longrightarrow> g n = g N"
proof -
  obtain z where z: "z \<in> range g" "\<And>y. (y, z) \<in> r \<Longrightarrow> y \<notin> range g"
    by (rule wfE_min [OF assms(1), of "g 0" "range g"]) auto
  then obtain N where "z = g N" by blast
  with z(2) have N: "(g n, g N) \<notin> r" for n by blast
  have "g n = g N" if "n \<ge> N" for n
    using that
  proof (induction rule: dec_induct)
    case (step n)
    from assms(2) [of n] N [of "Suc n"] show ?case unfolding step.IH by blast
  qed simp
  with that show thesis by blast
qed

text \<open>
  C12: A backup cannot run for ever. In every infinite schedule of the threads, pipelines and signals, from some
  step on nothing happens but that signals arrive and goroutines poll the closed channel of the library
  while another goroutine has yet to record that the library returned: every other step is
  taken only finitely often.
\<close>

theorem infinite_schedules_only_wait:
  assumes "f 0 = backupInit b sh" and "\<And>n. bstep b ps (f n) (f (Suc n))"
  shows "\<exists>N. \<forall>n \<ge> N. waits (f n) (f (Suc n))"
proof -
  have r: "(bstep b ps)\<^sup>*\<^sup>* (backupInit b sh) (f n)" for n
  proof (induction n)
    case (Suc n)
    from this assms(2) show ?case by (rule rtranclp.rtrancl_into_rtrancl)
  qed (simp add: assms(1))
  have u: "uses_up ps (f n) (f (Suc n))" for n
    using backup_threads [OF r] by (intro uses_up_step [OF assms(2)] controlled_reach [OF r]) (blast intro: thread_inv_reach)
  have "wf (less_than <*lex*> less_than)" by (intro wf_lex_prod wf_less_than)
  from eventually_constant [OF this, of "\<lambda>n. workLeft ps (f n)"] u
  obtain N where N: "\<And>n. n \<ge> N \<Longrightarrow> workLeft ps (f n) = workLeft ps (f N)"
    unfolding uses_up_def by (metis (no_types, lifting))
  have "waits (f n) (f (Suc n))" if "n \<ge> N" for n
    using u [of n] N [of n] N [of "Suc n"] that by (auto simp: uses_up_def workLeft_def)
  then show ?thesis by blast
qed

lemma infinite_schedules_only_wait_witness:
  "waits (backupInit exampleCall (emptyFs, \<lparr>count = 0\<rparr>)) (backupInit exampleCall (emptyFs, \<lparr>count = 0\<rparr>))"
proof -
  let ?st = "backupInit exampleCall (emptyFs, \<lparr>count = 0\<rparr>)"
  have n: "notify ''winch'' (b_handler ?st 0) = b_handler ?st 0"
    by (simp add: backupInit_def newInterruptOps_def register_def notify_def signalsToWaitFor_def)
  have "running ?st"
    by (simp add: running_def backupInit_def downloadInit_def Let_def addErr_def)
  from bstep.signal [OF this, of exampleCall "[]" 0 "''winch''"] have "bstep exampleCall [] ?st ?st" unfolding n by simp
  from infinite_schedules_only_wait [of "\<lambda>n. ?st", OF refl this] show ?thesis by blast
qed

end
