(* ===== verification/Again.thy ===== *)
theory Again
  imports Backup
begin

text \<open>
  Calling \<open>DownloadFolder\<close> (\<open>core/core.go\<close>) again, as the program is meant to be used: a run after one
  that returned nil, with whatever number of threads and in whatever order, finds nothing to download.
\<close>

section \<open>A folder that is up to date\<close>

text \<open>The maildir is there, and the oldmail file lists whatever the server lists.\<close>

definition upToDate :: "session \<Rightarrow> fsys \<Rightarrow> bool" where
  "upToDate s fs \<longleftrightarrow> maildirThere s fs \<and>
     (\<exists>oldmails mbox uids. readOldmail fs (oldmailPath s) = Ok oldmails \<and>
        Select (s_ops s) (mfolder (s_path s)) True = Ok mbox \<and> s_listed s mbox = (uids, None) \<and>
        determineMissingUIDs oldmails uids = Ok [])"

lemma ucast_listed:
  assumes "validSession s" "s_listed s mbox = (uids, None)" "u \<in> set uids"
  shows "ucast (ucast (ue_msg u) :: u32) = ue_msg u"
proof -
  have r: "ucast (ucast (ucast (v :: u32) :: goint) :: u32) = (ucast v :: goint)" for v
    by (simp add: ucast_up_ucast_id is_up)
  have "getAllMessageUUIDs mbox (s_ops s) (uids, None)" using assms(1,2) unfolding validSession_def by metis
  with assms(3) show ?thesis by (auto simp: getAllMessageUUIDs_def messageUIDs_def r split: if_splits)
qed

lemma done_up_to_date:
  assumes d: "folderDone s fs0 fs" and c: "complete (content fs0 (oldmailOf s))" and f: "faults fs = faults fs0"
    and v: "validSession s" and a: "answersAll (s_ops s)"
  shows "upToDate s fs"
proof (rule done_read [OF d c f])
  fix oldmails c mbox uids missing oms
  assume j: "jobData s fs0 oldmails c mbox uids missing"
    and l: "if missing = [] then oms = []
      else list_all2 (backedUp s (ucast (UidValidity mbox)) fs)
             (somes (fst (UidFetch (s_ops s) (map ucast missing)))) oms"
    and r: "readOldmail fs (oldmailPath s) = Ok (oldmails @ oms)"
  from j have sel: "Select (s_ops s) (mfolder (s_path s)) True = Ok mbox" "s_listed s mbox = (uids, None)"
    "determineMissingUIDs oldmails uids = Ok missing"
    by (simp_all add: jobData_def)
  then have "set missing \<subseteq> ue_msg ` set uids" by (auto simp: determineMissingUIDs_eq split: if_splits)
  then have u: "\<forall>u \<in> set missing. ucast (ucast u :: u32) = u" using ucast_listed [OF v sel(2)] by blast
  have "\<forall>om \<in> set oms. om_uidFolder om = ucast (UidValidity mbox)" "set missing \<subseteq> om_uid ` set oms"
    using l recorded_uids [OF a u] by (auto split: if_splits)
  from nothing_missing [OF v sel(2,3) this] sel(1,2) r d show ?thesis
    unfolding upToDate_def folderDone_def by blast
qed

section \<open>A download of a folder that is up to date\<close>

lemma upToDate_prepare:
  assumes u: "upToDate s fs" and f: "faults fs OpStat (path_key (folderPath (s_path s))) 0 = None"
  obtains q where "prepareDownload s i fs = (fs, fst (interrupted i),
      if snd (interrupted i) then Err ''aborting due to user interrupt'' else Ok (oldmailPath s, q, []))"
proof -
  obtain oldmails mbox uids where o: "readOldmail fs (oldmailPath s) = Ok oldmails"
    "Select (s_ops s) (mfolder (s_path s)) True = Ok mbox" "s_listed s mbox = (uids, None)"
    "determineMissingUIDs oldmails uids = Ok []"
    using u by (auto simp: upToDate_def)
  have "isDir fs (folderPath (s_path s)) = Ok True"
    using u f by (intro isDir_True) (simp_all add: upToDate_def maildirThere_def)
  then have "initMaildir (s_oldmailName s) (s_path s) fs = (fs, Ok (oldmails, oldmailPath s))"
    using u o(1) by (simp add: initMaildir_def initExistingMaildir_def upToDate_def maildirThere_def oldmailPath_def)
  then show thesis
    using o(2-4) that [of "ucast (UidValidity mbox)"]
    by (auto simp: prepareDownload_def selectFolder_def folderName_def split: prod.split bool.split)
qed

text \<open>Stopped by Ctrl+C, before or after the folder was looked at.\<close>

definition stopped :: "unit res \<Rightarrow> bool" where
  "stopped r \<longleftrightarrow> r = Err ''not downloading due to previous interrupt'' \<or> r = Err ''aborting due to user interrupt''"

lemma upToDate_start:
  assumes "upToDate s fs" and "faults fs OpStat (path_key (folderPath (s_path s))) 0 = None"
  shows "\<exists>i' r. startDownload s i (fs, dc) = ((fs, dc), i', Inl r) \<and> (r = Ok () \<or> stopped r)"
proof (cases "interrupted i")
  case (Pair i1 b)
  obtain q where "prepareDownload s i1 fs = (fs, fst (interrupted i1),
      if snd (interrupted i1) then Err ''aborting due to user interrupt'' else Ok (oldmailPath s, q, []))"
    by (rule upToDate_prepare [OF assms])
  with Pair show ?thesis by (cases b) (auto simp: startDownload_def stopped_def)
qed

section \<open>A backup of folders that are up to date\<close>

definition nothingToDo :: "backupCall \<Rightarrow> string list list \<Rightarrow> shared \<Rightarrow> backup \<Rightarrow> bool" where
  "nothingToDo b ps sh st \<longleftrightarrow> b_shared st = sh \<and>
     (\<forall>p \<in> jobsOf ps. b_job st p = Waiting \<or> (\<exists>r. b_job st p = Finished r \<and> (r = Ok () \<or> stopped r)))"

lemma nothingToDo_step:
  assumes s: "bstep b ps st st'" and t: "thread_inv ps (b_main st)"
    and u: "\<And>p. p \<in> jobsOf ps \<Longrightarrow> upToDate (sessionOf b p) (fst sh)" and f: "\<And>k. faults (fst sh) OpStat k 0 = None"
    and i: "nothingToDo b ps sh st"
  shows "nothingToDo b ps sh st'"
  using s
proof (cases rule: bstep.cases)
  case (move k folder folders c h j sh')
  have p: "(k, folder) \<in> jobsOf ps" by (rule busy_job [OF t move(3)])
  let ?s = "sessionOf b (k, folder)"
  obtain i' r where r: "startDownload ?s (b_handler st k) sh = (sh, i', Inl r)" "r = Ok () \<or> stopped r"
    using upToDate_start [OF u [OF p] f, of "b_handler st k" "snd sh"] by auto
  have sh: "b_shared st = sh" using i by (simp add: nothingToDo_def)
  have "b_job st (k, folder) \<noteq> Waiting \<Longrightarrow> \<exists>q. b_job st (k, folder) = Finished q"
    using i p by (auto simp: nothingToDo_def)
  with jobStep_FinishedE move(5) have w: "b_job st (k, folder) = Waiting" by metis
  have "sh' = sh \<and> j = Finished r"
    using move(5) r(1) unfolding sh w by (auto elim!: jobStep_WaitingE)
  with i r(2) show ?thesis by (auto simp: nothingToDo_def move(1))
qed (use i in \<open>simp_all add: nothingToDo_def\<close>)

lemma nothingToDo_reach:
  assumes "(bstep b ps)\<^sup>*\<^sup>* (backupInit b sh) st"
    and u: "\<And>p. p \<in> jobsOf ps \<Longrightarrow> upToDate (sessionOf b p) (fst sh)" and f: "\<And>k. faults (fst sh) OpStat k 0 = None"
  shows "nothingToDo b ps sh st"
  using assms(1)
proof (induction rule: rtranclp_induct)
  case base
  show ?case by (simp add: nothingToDo_def backupInit_def)
next
  case (step st st')
  have "thread_inv ps (b_main st)" using backup_threads [OF step(1)] thread_inv_reach by blast
  from nothingToDo_step [OF step(2) this u f step(3)] show ?case .
qed

text \<open>
  The same account at a server that has not changed: the same folders, and for each folder the same
  answers, whichever thread asks. The password and what a delivery finds may differ.
\<close>

definition sameServer :: "backupCall \<Rightarrow> string list list \<Rightarrow> backupCall \<Rightarrow> string list list \<Rightarrow> bool" where
  "sameServer b ps b' ps' \<longleftrightarrow> bc_base b' = bc_base b \<and> oldmailFileName (bc_cfg b') = oldmailFileName (bc_cfg b) \<and>
     fst (available (bc_server b')) = fst (available (bc_server b)) \<and>
     (\<forall>k k' f. (k, f) \<in> jobsOf ps \<and> (k', f) \<in> jobsOf ps' \<longrightarrow>
        Select (clientOf b' k') f True = Select (clientOf b k) f True \<and> bc_listed b' k' f = bc_listed b k f)"

lemma sameServer_up_to_date:
  assumes "sameServer b ps b' ps'" "(k, f) \<in> jobsOf ps" "(k', f) \<in> jobsOf ps'" "upToDate (sessionOf b (k, f)) fs"
  shows "upToDate (sessionOf b' (k', f)) fs"
proof -
  have "bc_base b' = bc_base b" "oldmailFileName (bc_cfg b') = oldmailFileName (bc_cfg b)"
    "bc_listed b' k' f = bc_listed b k f" "Select (clientOf b' k') f True = Select (clientOf b k) f True"
    using assms(1-3) unfolding sameServer_def by blast+
  with assms(4) show ?thesis by (simp add: upToDate_def maildirThere_def oldmailPath_def sessionOf_def)
qed

section \<open>Properties\<close>



end
