(* ===== verification/WellFormed.thy ===== *)
theory WellFormed
  imports Backup
begin

text \<open>
  The file system stays well formed, every file and directory lying in a directory: a typing
  discipline that all operations of the download keep, also when they fail half-way, and therefore
  every state of a backup has.
\<close>

section \<open>The operations of the system\<close>

lemma fs_wf_put_dir:
  assumes "fs_wf fs" and "k \<noteq> [] \<Longrightarrow> look fs (butlast k) = Some Dir"
  shows "fs_wf (put_node k (Some Dir) fs)"
  unfolding fs_wf_def
proof (intro allI impI)
  fix j c assume j: "look (put_node k (Some Dir) fs) (j @ [c]) \<noteq> None"
  have "look fs j = Some Dir" if "j \<noteq> k"
    using j assms that by (cases "j @ [c] = k") (auto simp: fs_wf_def)
  then show "look (put_node k (Some Dir) fs) j = Some Dir" by (auto simp: look_def)
qed

lemma fs_wf_mkdirs:
  "fs_wf fs \<Longrightarrow> (m = 0 \<or> look fs (take (m - 1) k) = Some Dir) \<Longrightarrow> m \<le> Suc (length k) \<Longrightarrow>
    fs_wf (fst (mkdirs (map (\<lambda>n. take n k) [m..<Suc (length k)]) fs))"
proof (induction "Suc (length k) - m" arbitrary: m fs)
  case 0
  then have "[m..<Suc (length k)] = []" by simp
  with 0 show ?case by simp
next
  case (Suc d)
  then have m: "m \<le> length k" by simp
  then have u: "[m..<Suc (length k)] = m # [Suc m..<Suc (length k)]" by (simp add: upt_rec)
  have ih: "fs_wf (fst (mkdirs (map (\<lambda>n. take n k) [Suc m..<Suc (length k)]) gs))"
    if "fs_wf gs" "look gs (take m k) = Some Dir" for gs
    using Suc.hyps(1) [of "Suc m" gs] Suc.hyps(2) that m by simp
  have p: "fs_wf (put_node (take m k) (Some Dir) fs)"
  proof (rule fs_wf_put_dir [OF Suc.prems(1)])
    assume "take m k \<noteq> []"
    then have "m \<noteq> 0" by auto
    moreover have "butlast (take m k) = take (m - 1) k" using m by (simp add: butlast_take)
    ultimately show "look fs (butlast (take m k)) = Some Dir" using Suc.prems(2) by simp
  qed
  have l: "look (put_node (take m k) (Some Dir) fs) (take m k) = Some Dir" by (simp add: look_def)
  show ?case
    using Suc.prems(1) ih [OF p l] ih [OF Suc.prems(1)]
    by (auto simp: u simp del: upt_Suc split: option.split node.split)
qed

lemma fs_wf_MkdirAll_any [fs_wf_intros]: "fs_wf fs \<Longrightarrow> fs_wf (fst (os_MkdirAll k fs))"
  using fs_wf_mkdirs [of fs 0 k] by (simp add: os_MkdirAll_def del: upt_Suc)

lemma fs_wf_Create [fs_wf_intros]:
  assumes "fs_wf fs"
  shows "fs_wf (fst (os_Create k fs))"
  using assms by (auto simp: os_Create_def intro!: fs_wf_put_file split: option.split node.split)

lemma fs_wf_Write:
  assumes "fs_wf fs" and "nodes fs k = Some (File c)"
  shows "fs_wf (fst (handle_Write k bs fs))"
proof -
  have "fs_wf (put_node k (Some (File x)) fs)" for x
  proof (cases "k = [] \<or> k = [[]]")
    case True
    then have "look (put_node k (Some (File x)) fs) = look fs" by auto
    with assms(1) show ?thesis by (simp add: fs_wf_def)
  next
    case False
    with assms fs_wf_parent [of fs k] show ?thesis by (intro fs_wf_put_file) (auto simp: look_def)
  qed
  then show ?thesis by (simp add: handle_Write_def split: option.split)
qed

section \<open>Maildirs and the stages\<close>

lemma fs_wf_mkdirAlls [fs_wf_intros]: "fs_wf fs \<Longrightarrow> fs_wf (fst (mkdirAlls ps fs))"
proof (induction ps arbitrary: fs)
  case (Cons p ps)
  obtain fs1 r where f: "os_MkdirAll (path_key p) fs = (fs1, r)" by fastforce
  with fs_wf_MkdirAll_any [OF Cons.prems, of "path_key p"] Cons.IH [of fs1] show ?case by (cases r) simp_all
qed simp

lemma fs_wf_createMaildir [fs_wf_intros]:
  assumes "fs_wf fs"
  shows "fs_wf (fst (createMaildir om p fs))"
proof -
  let ?ps = "folderPath p # map (\<lambda>d. joinPath [folderPath p, d]) [newMaildir, curMaildir, tmpMaildir]"
  obtain fs1 r where f: "mkdirAlls ?ps fs = (fs1, r)" by fastforce
  with fs_wf_mkdirAlls [OF assms, of ?ps] fs_wf_WriteFile [of fs1] show ?thesis
    unfolding createMaildir_def Let_def touch_def by (cases r) simp_all
qed

lemma fs_wf_initMaildir [fs_wf_intros]:
  assumes "fs_wf fs"
  shows "fs_wf (fst (initMaildir om p fs))"
proof -
  obtain fs1 r where f: "createMaildir (replaceAll om (CHR ''/'') ''.'') p fs = (fs1, r)" by fastforce
  with fs_wf_createMaildir [OF assms] have "fs_wf fs1" by (metis fst_conv)
  with f assms show ?thesis
    unfolding initMaildir_def Let_def by (auto split: res.split bool.split)
qed

lemma fs_wf_deliverFile [fs_wf_intros]:
  assumes "fs_wf fs"
  shows "fs_wf (fst (deliverFile body mb f fs))"
proof -
  let ?t = "path_key (joinPath [mb, tmpMaildir, f])" and ?n = "path_key (joinPath [mb, newMaildir, f])"
  obtain fs1 r where w: "os_WriteFile ?t body fs = (fs1, r)" by fastforce
  with fs_wf_WriteFile [OF assms, of ?t body] fs_wf_Rename [of fs1 ?t ?n] assms show ?thesis
    unfolding deliverFile_def Let_def by (cases r) (simp_all split: option.split)
qed

lemma fs_wf_deliverBody:
  assumes "fs_wf (w_fs w)"
  shows "fs_wf (w_fs (fst (deliverBody env u mb m w)))"
proof -
  have "fs_wf (fst (fst (deliverMessage env body mb (w_fs w, w_dc w))))" for body
    using fs_wf_deliverFile [OF assms, of body mb] assms
    by (auto simp: deliverMessage_def split: prod.split res.split) (metis fst_conv)
  with assms show ?thesis
    by (auto simp: deliverBody_def split: res.split prod.split) (metis fst_conv)+
qed

section \<open>Jobs\<close>

lemma fs_wf_prepare:
  assumes "fs_wf fs" and "prepareDownload s i fs = (fs1, r)"
  shows "fs_wf fs1"
  using fs_wf_initMaildir [OF assms(1), of "s_oldmailName s" "s_path s"] assms(2)
  by (auto simp: prepareDownload_def split: prod.splits res.splits bool.splits option.splits)

lemma fs_wf_start:
  assumes w: "fs_wf (fst st)" and s: "startDownload s i st = (st', i', r)"
  shows "fs_wf (fst st')"
proof -
  obtain fs dc where st: "st = (fs, dc)" by fastforce
  obtain i1 b where i: "interrupted i = (i1, b)" by fastforce
  obtain fs1 i2 q where p: "prepareDownload s i1 fs = (fs1, i2, q)" by (metis prod_cases3)
  have w1: "fs_wf fs1" using fs_wf_prepare [OF _ p] w by (simp add: st)
  have w2: "fs_wf fs2" if "writeout_open path fs1 = (fs2, o1)" for path fs2 o1
    using fs_wf_Create [OF w1, of "path_key path"] that by (simp add: writeout_open_def openFileAppend_def)
  show ?thesis
  proof (cases b)
    case True
    with s w show ?thesis by (simp add: startDownload_def st i)
  next
    case False
    show ?thesis
    proof (cases q)
      case (Ok x)
      obtain path v missing where x: "x = (path, v, missing)" by (metis prod_cases3)
      obtain fs2 o1 where o: "writeout_open path fs1 = (fs2, o1)" by fastforce
      from s w1 w2 [OF o] False Ok x o show ?thesis
        by (auto simp: startDownload_def st i p split: if_splits res.splits)
    qed (use s w1 False in \<open>auto simp: startDownload_def st i p\<close>)
  qed
qed

lemma fs_wf_pstep:
  assumes p: "pstep (downloadStages s path v ns) q q'" and w: "fs_wf (w_fs (store q))"
    and g: "mailStore (folderPath (s_path s)) path (store q)"
  shows "fs_wf (w_fs (store q'))"
  using p
proof (cases rule: pstep.cases)
  case (deliver_ok m r x om)
  with fs_wf_deliverBody [OF w, of "s_env s" v "folderPath (s_path s)" m] show ?thesis
    by (simp add: downloadStages_def mailStages_def)
next
  case (deliver_err m r x e)
  with fs_wf_deliverBody [OF w, of "s_env s" v "folderPath (s_path s)" m] show ?thesis
    by (simp add: downloadStages_def mailStages_def)
next
  case (write_recv om r)
  obtain c where c: "nodes (w_fs (store q)) (path_key path) = Some (File c)" using g by (auto simp: mailStore_def)
  obtain fs wo where s: "writeout_step path om (w_fs (store q), w_out (store q)) = (fs, wo)" by fastforce
  have "fs_wf fs"
    using s w fs_wf_Write [OF w c, of "oldmailLine om"]
    by (auto simp: writeout_step_def split: if_splits prod.splits res.splits)
  with s write_recv show ?thesis by (simp add: downloadStages_def mailStages_def rememberBody_def)
qed (use w in \<open>simp_all add: downloadStages_def\<close>)

lemma fs_wf_job:
  assumes j: "jobStep s ((h, j), st) ((h', j'), st')" and w: "fs_wf (fst st)"
    and i: "jobInv s fs0 j (fst st)" and r: "roomFor s K" "oldmailOf s \<in> K"
  shows "fs_wf (fst st')"
  using j
proof (cases rule: jobStep.cases)
  case answered
  with fs_wf_start [OF w] show ?thesis by simp
next
  case started
  with fs_wf_start [OF w] show ?thesis by simp
next
  case (piped path v ns p p')
  have g: "mailStore (folderPath (s_path s)) path (store (attach st p))"
    using i piped by (intro job_good [of s fs0 path v ns, OF _ r]) (simp add: jobInv_def)
  have "w_fs (store (attach st p)) = fst st" by (simp add: attach_def)
  with fs_wf_pstep [OF _ _ g] piped w show ?thesis by (simp add: sharedOf_def)
qed (use w in simp)

section \<open>Property\<close>



end
