(* ===== verification/Serve.thy ===== *)
theory Serve
  imports WellFormed Server
begin

text \<open>
  \<open>ServeMaildir\<close> (\<open>core/core.go\<close>) from the set-up of the backend to its return, and the two halves of
  the program together: what \<open>DownloadFolder\<close> has stored is what \<open>ServeMaildir\<close> offers.
\<close>

section \<open>Model\<close>

text \<open>The fields of the library's \<open>server.Server\<close> that the function sets.\<close>

record imapServer =
  srv_backend :: serverBackend
  srv_AllowInsecureAuth :: bool
  srv_Addr :: string

definition serverAddr :: "goint \<Rightarrow> string" where
  "serverAddr serverPort = ''127.0.0.1:'' @ showGoint serverPort"

text \<open>Up to the start of the goroutine that serves: an error, or the server that will listen.\<close>

definition prepareServe ::
    "fsys \<Rightarrow> (string \<Rightarrow> gerr + dirEntry list) \<Rightarrow> (pathAndInfo list \<Rightarrow> pathAndInfo list) \<Rightarrow>
      IMAPConfig \<Rightarrow> goint \<Rightarrow> string \<Rightarrow> serverHeap \<Rightarrow> serverHeap \<times> imapServer res" where
  "prepareServe fs readDir sortFiles cfg serverPort maildirBase sh =
     (case newBackend fs readDir sortFiles maildirBase (User cfg) (Password cfg) sh of
        (sh, be, Ok (Some e)) \<Rightarrow> (sh, Err e)
      | (sh, be, Ok None) \<Rightarrow>
          (sh, Ok \<lparr>srv_backend = be, srv_AllowInsecureAuth = True, srv_Addr = serverAddr serverPort\<rparr>)
      | (sh, be, Err e) \<Rightarrow> (sh, Err e)
      | (sh, be, Panic p) \<Rightarrow> (sh, Panic p))"

text \<open>\<open>listen\<close> and \<open>closeErr\<close> are what the library's \<open>ListenAndServe\<close> and \<open>Close\<close> return.\<close>

inductive serveMaildir ::
    "(imapServer \<Rightarrow> gerr option) \<Rightarrow> gerr option \<Rightarrow> serverHeap \<times> imapServer res \<Rightarrow> gerr option res \<Rightarrow> bool"
  for listen closeErr where
  failed: "serveMaildir listen closeErr (sh, Err e) (Ok (Some e))"
| panicked: "serveMaildir listen closeErr (sh, Panic p) (Panic p)"
| served: "(serveStep (listen srv) closeErr)\<^sup>*\<^sup>* serveInit st \<Longrightarrow> sv_pc st = SReturned r \<Longrightarrow>
     serveMaildir listen closeErr (sh, Ok srv) r"

section \<open>The result of serving\<close>

lemma prepareServe_Ok:
  assumes "prepareServe fs readDir sortFiles cfg serverPort maildirBase sh = (sh', Ok srv)"
  shows "newBackend fs readDir sortFiles maildirBase (User cfg) (Password cfg) sh = (sh', srv_backend srv, Ok None)"
    and "srv_Addr srv = serverAddr serverPort" "srv_AllowInsecureAuth srv"
  using assms by (auto simp: prepareServe_def split: prod.splits res.splits option.splits)

lemma served_result:
  assumes "(serveStep (Some e) closeErr)\<^sup>*\<^sup>* serveInit st" and "sv_pc st = SReturned r"
  shows "r = serveResult (Some e) closeErr"
  using returned_result [OF assms(1)] assms(2) by blast

text \<open>A server for the witnesses: the example delivery of \<open>Server\<close>.\<close>

definition exampleHeap :: serverHeap where
  "exampleHeap = \<lparr>memory = initialMemory (Inr 100) (\<lambda>k. emptyMessage []), nextAddr = 0\<rparr>"

lemma exampleServer:
  obtains sh srv where
    "prepareServe deliveredFs deliveredDir (sort_key pi_modTime) exampleConfig 1993 ''backup'' exampleHeap = (sh, Ok srv)"
proof -
  let ?r = "prepareServe deliveredFs deliveredDir (sort_key pi_modTime) exampleConfig 1993 ''backup'' exampleHeap"
  have "srv_Addr (case snd ?r of Ok s \<Rightarrow> s) = ''127.0.0.1:1993'' \<and> (case snd ?r of Ok s \<Rightarrow> True | _ \<Rightarrow> False)"
    by code_simp
  then show thesis using that by (cases ?r; cases "snd ?r") auto
qed

lemma exampleServed:
  "\<exists>st. (serveStep (Some errClosedNetwork) None)\<^sup>*\<^sup>* serveInit st \<and> sv_pc st = SReturned (Ok None)"
proof -
  let ?R = "serveStep (Some errClosedNetwork) None"
  let ?s1 = "serveInit\<lparr>sv_intr := notify ''interrupt'' (sv_intr serveInit)\<rparr>"
  obtain i where i: "wait_leave (sv_intr ?s1) = Some i"
    by (simp add: serveInit_def wait_enter_def newInterruptOps_def register_def notify_def wait_leave_def signalsToWaitFor_def)
  let ?s2 = "?s1\<lparr>sv_intr := i, sv_pc := SClosing\<rparr>"
  let ?s3 = "?s2\<lparr>sv_ended := True\<rparr>"
  let ?s4 = "?s3\<lparr>sv_pc := SReturned (serveResult (Some errClosedNetwork) None)\<rparr>"
  have "?R serveInit ?s1" by (rule serveStep.signal)
  moreover have "?R ?s1 ?s2" using i by (intro serveStep.close) (simp_all add: serveInit_def)
  moreover have "?R ?s2 ?s3" by (rule serveStep.server_end)
  moreover have "?R ?s3 ?s4" by (rule serveStep.return) simp_all
  ultimately have r: "?R\<^sup>*\<^sup>* serveInit ?s4" by (meson converse_rtranclp_into_rtranclp rtranclp.rtrancl_refl)
  have "serveResult (Some errClosedNetwork) None = Ok None" by code_simp
  then have "sv_pc ?s4 = SReturned (Ok None)" by simp
  with r show ?thesis by blast
qed

section \<open>What is stored is served\<close>

text \<open>A client of the user that lists the mailboxes of the name \<open>f\<close> is sent \<open>body\<close>.\<close>

definition offers :: "fsys \<Rightarrow> serverHeap \<Rightarrow> serverUser \<Rightarrow> string \<Rightarrow> string \<Rightarrow> bool" where
  "offers fs sh u f body \<longleftrightarrow>
     (\<exists>mb \<in> set (user_ListMailboxes u). mb_Name mb = f \<and>
        body \<in> set (fst (snd (mb_ListMessages (\<lambda>m u. Inr (mm_body m)) (\<lambda>u. True) (fileReader fs) mb (memory sh)))))"

lemma backed_up_is_served:
  assumes "prepareServe fs readDir sortFiles (bc_cfg b) serverPort (bc_base b)
      \<lparr>memory = initialMemory parsed h, nextAddr = 0\<rparr> = (sh, Ok srv)"
    and "lists fs readDir" and "sorts sortFiles" and "\<And>k. faults fs OpRead k 0 = None"
    and "\<And>p. small (fst (fileReader fs p))" and "\<And>k. h k = msg_clear (h k)"
    and "maildirThere (sessionOf b (k, f)) fs" and "plain f" and "backedUp (sessionOf b (k, f)) v fs m om"
  shows "\<exists>body om. rfc822FromEmail m v = Ok (body, om) \<and> offers fs sh (be_user (srv_backend srv)) f body"
proof -
  let ?s = "sessionOf b (k, f)" and ?p = "\<lparr>base = bc_base b, mfolder = f\<rparr>"
  obtain body f' where s: "rfc822FromEmail m v = Ok (body, om)" "plain f'"
    "look fs (newKey (folderPath ?p) f') = Some (File body)"
    using assms(9) by (auto simp: backedUp_def stored_def)
  have "\<exists>mb \<in> set (user_ListMailboxes (be_user (srv_backend srv))). mb_Name mb = mfolder ?p \<and>
      body \<in> set (fst (snd (mb_ListMessages (\<lambda>m u. Inr (mm_body m)) (\<lambda>u. True) (fileReader fs) mb (memory sh))))"
  proof (rule stored_file_served [OF s(2,3)])
    show "plain (mfolder ?p)" using assms(8) by simp
    show "isMaildir fs (folderPath ?p) = Ok True" "look fs (path_key (folderPath ?p)) = Some Dir"
      using assms(7) by (simp_all add: maildirThere_def)
    show "lists fs readDir" "sorts sortFiles" by (rule assms)+
    show "\<forall>k. faults fs OpRead k 0 = None" "\<forall>p. small (fst (fileReader fs p))" "\<forall>k. h k = msg_clear (h k)"
      using assms(4-6) by blast+
    show "newBackend fs readDir sortFiles (base ?p) (User (bc_cfg b)) (Password (bc_cfg b))
        \<lparr>memory = initialMemory parsed h, nextAddr = 0\<rparr> = (sh, srv_backend srv, Ok None)"
      using prepareServe_Ok(1) [OF assms(1)] by simp
  qed
  with s(1) show ?thesis by (auto simp: offers_def)
qed

lemma prepareServe_login:
  assumes "prepareServe fs readDir sortFiles cfg serverPort maildirBase sh = (sh', Ok srv)" "sorts sortFiles"
  shows "be_Login (srv_backend srv) name pw = Inr u \<longleftrightarrow> name = User cfg \<and> pw = Password cfg \<and> u = be_user (srv_backend srv)"
proof -
  obtain dirs where "be_username (srv_backend srv) = User cfg" "be_password (srv_backend srv) = Password cfg"
    by (rule newBackend_Ok [OF prepareServe_Ok(1) [OF assms(1)] assms(2)])
  then show ?thesis by (auto simp: be_Login_def)
qed

section \<open>Properties\<close>

text \<open>
  C14: \<open>ServeMaildir\<close> reports what went wrong and nothing else. If the backend could not be set up the error
  is returned without listening; otherwise the server that listens, on the local address only, is the
  one of this backend, which lets in exactly the configured user; and the function returns nil
  exactly if the server ended with the expected error and closing it worked.
\<close>

theorem serveMaildir_spec:
  assumes "prepareServe fs readDir sortFiles cfg serverPort maildirBase sh = (sh', p)" and "sorts sortFiles"
    and "serveMaildir listen closeErr (sh', p) r" and "\<And>srv. listen srv \<noteq> None"
  shows "(\<forall>e. p = Err e \<longrightarrow> r = Ok (Some e)) \<and>
    (\<forall>srv. p = Ok srv \<longrightarrow>
       (\<exists>be. newBackend fs readDir sortFiles maildirBase (User cfg) (Password cfg) sh = (sh', be, Ok None) \<and>
          srv_backend srv = be \<and> srv_Addr srv = ''127.0.0.1:'' @ showGoint serverPort \<and>
          (\<forall>name pw u. be_Login be name pw = Inr u \<longleftrightarrow> name = User cfg \<and> pw = Password cfg \<and> u = be_user be)) \<and>
       (r = Ok None \<longleftrightarrow> contains (the (listen srv)) errClosedNetwork \<and> closeErr = None))"
proof (intro conjI allI impI)
  fix e assume "p = Err e"
  with assms(3) show "r = Ok (Some e)" by (auto elim: serveMaildir.cases)
next
  fix srv assume p: "p = Ok srv"
  note s = prepareServe_Ok [OF assms(1) [unfolded p]]
  obtain dirs where "be_username (srv_backend srv) = User cfg" "be_password (srv_backend srv) = Password cfg"
    by (rule newBackend_Ok [OF s(1) assms(2)])
  then show "\<exists>be. newBackend fs readDir sortFiles maildirBase (User cfg) (Password cfg) sh = (sh', be, Ok None) \<and>
      srv_backend srv = be \<and> srv_Addr srv = ''127.0.0.1:'' @ showGoint serverPort \<and>
      (\<forall>name pw u. be_Login be name pw = Inr u \<longleftrightarrow> name = User cfg \<and> pw = Password cfg \<and> u = be_user be)"
    using s by (auto simp: be_Login_def serverAddr_def)
next
  fix srv assume p: "p = Ok srv"
  obtain e where e: "listen srv = Some e" using assms(4) by blast
  from assms(3) p e obtain st where "(serveStep (Some e) closeErr)\<^sup>*\<^sup>* serveInit st" "sv_pc st = SReturned r"
    by (auto elim: serveMaildir.cases)
  then have "r = serveResult (Some e) closeErr" by (rule served_result)
  then show "r = Ok None \<longleftrightarrow> contains (the (listen srv)) errClosedNetwork \<and> closeErr = None"
    by (auto simp: serveResult_def errors_Join_None e)
qed

lemma serveMaildir_spec_witness:
  "\<exists>srv :: imapServer. srv_Addr srv = ''127.0.0.1:1993'' \<and> (\<exists>u. be_Login (srv_backend srv) ''u'' ''p'' = Inr u)"
proof -
  obtain sh srv where p: "prepareServe deliveredFs deliveredDir (sort_key pi_modTime) exampleConfig 1993 ''backup'' exampleHeap = (sh, Ok srv)"
    by (rule exampleServer)
  obtain st where st: "(serveStep (Some errClosedNetwork) None)\<^sup>*\<^sup>* serveInit st" "sv_pc st = SReturned (Ok None)"
    using exampleServed by blast
  have r: "serveMaildir (\<lambda>srv. Some errClosedNetwork) None (sh, Ok srv) (Ok None)"
    by (rule serveMaildir.served) (rule st)+
  have a: "''127.0.0.1:'' @ showGoint 1993 = ''127.0.0.1:1993''" by code_simp
  have "srv_Addr srv = ''127.0.0.1:'' @ showGoint 1993"
    "be_Login (srv_backend srv) (User exampleConfig) (Password exampleConfig) = Inr (be_user (srv_backend srv))"
    using serveMaildir_spec [OF p sorts_example r] by simp_all
  then show ?thesis unfolding a by (intro exI [of _ srv]) (simp add: exampleConfig_def)
qed


text \<open>The disk after the example backup, and a reader of its directories.\<close>

definition storedDir :: "string \<Rightarrow> gerr + dirEntry list" where
  "storedDir p =
     (if p = ''bak'' then Inr [\<lparr>de_name = ''a'', de_isDir = True, de_info = Inr 1\<rparr>,
          \<lparr>de_name = ''oldmail-s-1-u-a'', de_isDir = False, de_info = Inr 1\<rparr>]
      else if p = ''bak/a/new'' then Inr [\<lparr>de_name = deliveredName, de_isDir = False, de_info = Inr 2\<rparr>]
      else if p = ''bak/a/cur'' then Inr []
      else Inl enoent)"

lemma exampleStored_eq:
  "\<exists>line. exampleStored = put_node [''bak'', ''oldmail-s-1-u-a''] (Some (File line))
     (put_node [''bak'', ''a'', ''new'', deliveredName] (Some (File ''Hi'')) examplePrepared)"
proof -
  have n: "newUniqueName exampleEnv [] \<lparr>count = 0\<rparr> = (\<lparr>count = 1\<rparr>, Ok deliveredName)" by code_simp
  have k: "path_key ''bak/a'' = [''bak'', ''a'']" "path_key ''bak/oldmail-s-1-u-a'' = [''bak'', ''oldmail-s-1-u-a'']"
    by code_simp+
  obtain fs r where d: "deliverFile ''Hi'' ''bak/a'' deliveredName examplePrepared = (fs, r)" by fastforce
  have "snd (deliverFile ''Hi'' ''bak/a'' deliveredName examplePrepared) = Ok ()" by code_simp
  with d have r: "r = Ok ()" by simp
  have fs: "fs = put_node [''bak'', ''a'', ''new'', deliveredName] (Some (File ''Hi'')) examplePrepared"
    using deliverFile_Ok(3) [OF d [unfolded r] _ delivered_example(2)] by (simp add: newKey_def k newMaildir_def)
  have "rfc822FromEmail exampleMessage 1 = Ok (''Hi'', \<lparr>om_uidFolder = 1, om_uid = 5, om_timestamp = 9\<rparr>)" by code_simp
  then have e: "exampleDelivered = \<lparr>w_fs = fs, w_dc = \<lparr>count = 1\<rparr>, w_out = writeout_init\<rparr>"
    by (simp add: exampleDelivered_def deliverBody_def deliverMessage_def n d)
  show ?thesis
    unfolding exampleStored_def e fs
    by (auto simp: rememberBody_def writeout_step_def writeout_init_def handle_Write_def k split: option.split)
qed

lemma examplePrepared_look:
  "look examplePrepared j =
     (if j = [''bak'', ''oldmail-s-1-u-a''] then Some (File [])
      else if j \<in> {[], [''bak''], [''bak'', ''a''], [''bak'', ''a'', ''new''], [''bak'', ''a'', ''cur''], [''bak'', ''a'', ''tmp'']}
      then Some Dir else look emptyFs j)"
  "faults examplePrepared = (\<lambda>op k n. None)"
proof -
  let ?p = "\<lparr>base = ''bak'', mfolder = ''a''\<rparr>"
  have "snd (initMaildir ''oldmail-s-1-u-a'' ?p emptyFs) = Ok ([], ''bak/oldmail-s-1-u-a'')" by code_simp
  then have i: "initMaildir ''oldmail-s-1-u-a'' ?p emptyFs = (examplePrepared, Ok ([], ''bak/oldmail-s-1-u-a''))"
    by (simp add: examplePrepared_def prod_eq_iff)
  have d: "isDir emptyFs (folderPath ?p) = Ok False" by code_simp
  have k: "replaceAll ''oldmail-s-1-u-a'' (CHR ''/'') ''.'' = ''oldmail-s-1-u-a''"
    "oldmailKey ?p ''oldmail-s-1-u-a'' = [''bak'', ''oldmail-s-1-u-a'']" "path_key (folderPath ?p) = [''bak'', ''a'']"
    by code_simp+
  have m: "maildirKeys ?p = {[], [''bak''], [''bak'', ''a''], [''bak'', ''a'', ''new''], [''bak'', ''a'', ''cur''], [''bak'', ''a'', ''tmp'']}"
    by (auto simp: maildirKeys_def k ancestors_def prefix_Cons newMaildir_def curMaildir_def tmpMaildir_def)
  have c: "createMaildir ''oldmail-s-1-u-a'' ?p emptyFs = (examplePrepared, Ok ())"
    using i by (cases rule: initMaildir_cases) (simp_all add: d k)
  show "look examplePrepared j =
     (if j = [''bak'', ''oldmail-s-1-u-a''] then Some (File [])
      else if j \<in> {[], [''bak''], [''bak'', ''a''], [''bak'', ''a'', ''new''], [''bak'', ''a'', ''cur''], [''bak'', ''a'', ''tmp'']}
      then Some Dir else look emptyFs j)"
    using createMaildir_Ok(3) [OF c, of j] unfolding k m .
  show "faults examplePrepared = (\<lambda>op k n. None)"
    using createMaildir_Ok(1) [OF c] by (simp add: emptyFs_def)
qed

lemma emptyFs_look: "look emptyFs j = (if j = [] \<or> j = [[]] then Some Dir else None)"
  by (simp add: look_def emptyFs_def)

lemma exampleStored_look:
  obtains line where "look exampleStored = (\<lambda>j.
     if j = [''bak'', ''oldmail-s-1-u-a''] then Some (File line)
     else if j = [''bak'', ''a'', ''new'', deliveredName] then Some (File ''Hi'')
     else if j \<in> {[], [[]], [''bak''], [''bak'', ''a''], [''bak'', ''a'', ''new''], [''bak'', ''a'', ''cur''], [''bak'', ''a'', ''tmp'']}
     then Some Dir else None)"
  "length line \<le> 100" "faults exampleStored = (\<lambda>op k n. None)"
proof -
  obtain line where e: "exampleStored = put_node [''bak'', ''oldmail-s-1-u-a''] (Some (File line))
     (put_node [''bak'', ''a'', ''new'', deliveredName] (Some (File ''Hi'')) examplePrepared)"
    using exampleStored_eq by blast
  have "length (content exampleStored [''bak'', ''oldmail-s-1-u-a'']) \<le> 100" by code_simp
  then have l: "length line \<le> 100" by (simp add: e)
  show thesis
    by (rule that [OF _ l]) (auto simp: e fun_eq_iff examplePrepared_look emptyFs_look)
qed

lemma storedDir_lists: "lists exampleStored storedDir"
proof -
  obtain line where l: "look exampleStored = (\<lambda>j.
     if j = [''bak'', ''oldmail-s-1-u-a''] then Some (File line)
     else if j = [''bak'', ''a'', ''new'', deliveredName] then Some (File ''Hi'')
     else if j \<in> {[], [[]], [''bak''], [''bak'', ''a''], [''bak'', ''a'', ''new''], [''bak'', ''a'', ''cur''], [''bak'', ''a'', ''tmp'']}
     then Some Dir else None)"
    by (rule exampleStored_look)
  have k: "path_key ''bak'' = [''bak'']" "path_key ''bak/a/new'' = [''bak'', ''a'', ''new'']"
    "path_key ''bak/a/cur'' = [''bak'', ''a'', ''cur'']" by code_simp+
  show ?thesis
    by (auto simp: lists_def storedDir_def k l present_def split: if_splits)
qed

lemma exampleStored_small: "small (fst (fileReader exampleStored p))"
proof -
  obtain line where l: "look exampleStored = (\<lambda>j.
     if j = [''bak'', ''oldmail-s-1-u-a''] then Some (File line)
     else if j = [''bak'', ''a'', ''new'', deliveredName] then Some (File ''Hi'')
     else if j \<in> {[], [[]], [''bak''], [''bak'', ''a''], [''bak'', ''a'', ''new''], [''bak'', ''a'', ''cur''], [''bak'', ''a'', ''tmp'']}
     then Some Dir else None)" "length line \<le> 100" "faults exampleStored = (\<lambda>op k n. None)"
    by (rule exampleStored_look)
  then show ?thesis by (auto simp: fileReader_def os_ReadAll_def small_def maxInt32_def)
qed


end
