(* ===== verification/Commands.thy ===== *)
theory Commands
  imports Cli CliLock
begin

text \<open>
  The commands of the program as the package \<open>cobra\<close> gets them: names, help texts, flags with the
  variables they are bound to, and the functions \<open>PreRunE\<close> and \<open>RunE\<close> as functions on the machine (files
  \<open>root.go\<close>, \<open>list.go\<close>, \<open>download.go\<close>, \<open>serve.go\<close>, \<open>login.go\<close>, \<open>version.go\<close> of \<open>cli/\<close>), and the log of the
  library (\<open>core/log.go\<close>). Parsing the command line and choosing the command is left to \<open>cobra\<close>.
\<close>

section \<open>Logging\<close>

text \<open>The lines are those given to the standard logger, which puts the time in front.\<close>

record logger =
  lg_verbose :: bool
  lg_lines :: "string list"

definition logJoiner :: string where "logJoiner = '', ''"

definition SetVerboseLogs :: "bool \<Rightarrow> logger \<Rightarrow> logger" where
  "SetVerboseLogs verb l = l\<lparr>lg_verbose := verb\<rparr>"

definition logPrintln :: "string \<Rightarrow> logger \<Rightarrow> logger" where
  "logPrintln s l = l\<lparr>lg_lines := lg_lines l @ [s]\<rparr>"

definition logInfo :: "string \<Rightarrow> logger \<Rightarrow> logger" where
  "logInfo msg l = (if lg_verbose l then logPrintln (''INFO '' @ msg) l else l)"

definition logWarning :: "string \<Rightarrow> logger \<Rightarrow> logger" where
  "logWarning msg l = logPrintln (''WARNING '' @ msg) l"

definition logError :: "string \<Rightarrow> logger \<Rightarrow> logger" where
  "logError msg l = logPrintln (''ERROR '' @ msg) l"

section \<open>Variables and flags\<close>

text \<open>The package variables \<open>rootConfig\<close>, \<open>downloadConf\<close> and \<open>serveConfig\<close>.\<close>

record config =
  cf_root :: rootConfigT
  cf_download :: downloadConfigT
  cf_serve :: serveConfigT

definition zeroConfig :: config where
  "zeroConfig =
     \<lparr>cf_root = \<lparr>rc_server = [], rc_port = 0, rc_username = [], rc_password = [], rc_verbose = False, rc_noKeyring = False\<rparr>,
      cf_download = \<lparr>dc_folders = [], dc_path = [], dc_threads = 0, dc_timeoutSeconds = 0\<rparr>,
      cf_serve = \<lparr>sc_path = [], sc_timeoutSeconds = 0, sc_serverPort = 0\<rparr>\<rparr>"

text \<open>
  A flag is bound to a variable by a pointer, here the functions that read and write it, and has a
  default. The constructors are the methods of the flag set.
\<close>

datatype flagVar =
    StringVar "config \<Rightarrow> string" "string \<Rightarrow> config \<Rightarrow> config" string
  | IntVar "config \<Rightarrow> goint" "goint \<Rightarrow> config \<Rightarrow> config" goint
  | BoolVar "config \<Rightarrow> bool" "bool \<Rightarrow> config \<Rightarrow> config" bool
  | StringSliceVar "config \<Rightarrow> string list" "string list \<Rightarrow> config \<Rightarrow> config" "string list"

record flag =
  fl_name :: string
  fl_short :: string
  fl_var :: flagVar
  fl_usage :: string

datatype flagValue = StringValue string | IntValue goint | BoolValue bool | SliceValue "string list"

fun readVar :: "flagVar \<Rightarrow> config \<Rightarrow> flagValue" where
  "readVar (StringVar get upd d) c = StringValue (get c)"
| "readVar (IntVar get upd d) c = IntValue (get c)"
| "readVar (BoolVar get upd d) c = BoolValue (get c)"
| "readVar (StringSliceVar get upd d) c = SliceValue (get c)"

fun writeVar :: "flagVar \<Rightarrow> flagValue \<Rightarrow> config \<Rightarrow> config" where
  "writeVar (StringVar get upd d) (StringValue v) c = upd v c"
| "writeVar (IntVar get upd d) (IntValue v) c = upd v c"
| "writeVar (BoolVar get upd d) (BoolValue v) c = upd v c"
| "writeVar (StringSliceVar get upd d) (SliceValue v) c = upd v c"
| "writeVar _ _ c = c"

fun defaultValue :: "flagVar \<Rightarrow> flagValue" where
  "defaultValue (StringVar get upd d) = StringValue d"
| "defaultValue (IntVar get upd d) = IntValue d"
| "defaultValue (BoolVar get upd d) = BoolValue d"
| "defaultValue (StringSliceVar get upd d) = SliceValue d"

fun fits :: "flagVar \<Rightarrow> flagValue \<Rightarrow> bool" where
  "fits (StringVar get upd d) (StringValue v) = True"
| "fits (IntVar get upd d) (IntValue v) = True"
| "fits (BoolVar get upd d) (BoolValue v) = True"
| "fits (StringSliceVar get upd d) (SliceValue v) = True"
| "fits _ _ = False"

definition rootFlags :: "flag list" where
  "rootFlags =
     [\<lparr>fl_name = ''server'', fl_short = ''s'',
        fl_var = StringVar (\<lambda>c. rc_server (cf_root c)) (\<lambda>v c. c\<lparr>cf_root := (cf_root c)\<lparr>rc_server := v\<rparr>\<rparr>) [],
        fl_usage = ''address of imap server''\<rparr>,
      \<lparr>fl_name = ''port'', fl_short = ''p'',
        fl_var = IntVar (\<lambda>c. rc_port (cf_root c)) (\<lambda>v c. c\<lparr>cf_root := (cf_root c)\<lparr>rc_port := v\<rparr>\<rparr>) defaultPort,
        fl_usage = ''login port for imap server''\<rparr>,
      \<lparr>fl_name = ''user'', fl_short = ''u'',
        fl_var = StringVar (\<lambda>c. rc_username (cf_root c)) (\<lambda>v c. c\<lparr>cf_root := (cf_root c)\<lparr>rc_username := v\<rparr>\<rparr>) [],
        fl_usage = ''login user name''\<rparr>,
      \<lparr>fl_name = ''verbose'', fl_short = ''v'',
        fl_var = BoolVar (\<lambda>c. rc_verbose (cf_root c)) (\<lambda>v c. c\<lparr>cf_root := (cf_root c)\<lparr>rc_verbose := v\<rparr>\<rparr>) False,
        fl_usage = ''verbose output''\<rparr>,
      \<lparr>fl_name = ''no-keyring'', fl_short = ''k'',
        fl_var = BoolVar (\<lambda>c. rc_noKeyring (cf_root c)) (\<lambda>v c. c\<lparr>cf_root := (cf_root c)\<lparr>rc_noKeyring := v\<rparr>\<rparr>) False,
        fl_usage = ''do not use the system keyring''\<rparr>]"

definition defaultTimeoutSeconds :: goint where "defaultTimeoutSeconds = 1"

definition downloadFlags :: "flag list" where
  "downloadFlags =
     [\<lparr>fl_name = ''folder'', fl_short = ''f'',
        fl_var = StringSliceVar (\<lambda>c. dc_folders (cf_download c))
          (\<lambda>v c. c\<lparr>cf_download := (cf_download c)\<lparr>dc_folders := v\<rparr>\<rparr>) [],
        fl_usage =
          ''a folder spec specifying something to download (can be a folder name,'' @ [nl] @
          ''_ALL_ selects all folders, _Gmail_ selects Gmail folders, specify this'' @ [nl] @
          ''flag multiple times for multiple specs, prepend a minus '' @ [CHR 0x27] @ ''-'' @ [CHR 0x27] @ '' to any'' @ [nl] @
          ''spec to deselect instead, specs are interpreted in order)'' @ [nl]\<rparr>,
      \<lparr>fl_name = ''path'', fl_short = [],
        fl_var = StringVar (\<lambda>c. dc_path (cf_download c)) (\<lambda>v c. c\<lparr>cf_download := (cf_download c)\<lparr>dc_path := v\<rparr>\<rparr>) [],
        fl_usage = ''the local path to your maildir'' @ [CHR 0x27] @ ''s parent dir''\<rparr>,
      \<lparr>fl_name = ''threads'', fl_short = ''t'',
        fl_var = IntVar (\<lambda>c. dc_threads (cf_download c)) (\<lambda>v c. c\<lparr>cf_download := (cf_download c)\<lparr>dc_threads := v\<rparr>\<rparr>) 0,
        fl_usage = ''number of download threads to use, one per folder by default''\<rparr>,
      \<lparr>fl_name = ''timeout'', fl_short = [],
        fl_var = IntVar (\<lambda>c. dc_timeoutSeconds (cf_download c))
          (\<lambda>v c. c\<lparr>cf_download := (cf_download c)\<lparr>dc_timeoutSeconds := v\<rparr>\<rparr>) defaultTimeoutSeconds,
        fl_usage = ''time in seconds to wait for acquiring a lock on the download folder''\<rparr>]"

definition defaultServerPort :: goint where "defaultServerPort = 30912"

definition serveFlags :: "flag list" where
  "serveFlags =
     [\<lparr>fl_name = ''path'', fl_short = [],
        fl_var = StringVar (\<lambda>c. sc_path (cf_serve c)) (\<lambda>v c. c\<lparr>cf_serve := (cf_serve c)\<lparr>sc_path := v\<rparr>\<rparr>) [],
        fl_usage = ''the local path to your maildir'' @ [CHR 0x27] @ ''s parent dir''\<rparr>,
      \<lparr>fl_name = ''server-port'', fl_short = [],
        fl_var = IntVar (\<lambda>c. sc_serverPort (cf_serve c)) (\<lambda>v c. c\<lparr>cf_serve := (cf_serve c)\<lparr>sc_serverPort := v\<rparr>\<rparr>)
          defaultServerPort,
        fl_usage = ''port on which the local IMAP server will listen''\<rparr>,
      \<lparr>fl_name = ''timeout'', fl_short = [],
        fl_var = IntVar (\<lambda>c. sc_timeoutSeconds (cf_serve c))
          (\<lambda>v c. c\<lparr>cf_serve := (cf_serve c)\<lparr>sc_timeoutSeconds := v\<rparr>\<rparr>) defaultTimeoutSeconds,
        fl_usage = ''time in seconds to wait for acquiring a lock on the local folder''\<rparr>]"

text \<open>
  Binding a flag stores its default in its variable; parsing stores the given values. The commands
  share the variables of the root flags, so all of them are bound before one of them runs.
\<close>

definition bindFlags :: "flag list \<Rightarrow> config \<Rightarrow> config" where
  "bindFlags flags c = fold (\<lambda>f. writeVar (fl_var f) (defaultValue (fl_var f))) flags c"

definition initialConfig :: config where
  "initialConfig = bindFlags (downloadFlags @ rootFlags @ rootFlags @ rootFlags @ serveFlags @ rootFlags) zeroConfig"

definition assignFlag :: "flag list \<Rightarrow> string \<times> flagValue \<Rightarrow> config \<Rightarrow> config" where
  "assignFlag flags nv c =
     (case find (\<lambda>f. fl_name f = fst nv) flags of None \<Rightarrow> c | Some f \<Rightarrow> writeVar (fl_var f) (snd nv) c)"

definition assign :: "flag list \<Rightarrow> (string \<times> flagValue) list \<Rightarrow> config \<Rightarrow> config" where
  "assign flags vs c = fold (assignFlag flags) vs c"

section \<open>Flags reach their variables\<close>

text \<open>The flags of a command: names that \<open>cobra\<close> can tell apart, and variables that are not shared.\<close>

definition apart :: "flagVar \<Rightarrow> flagVar \<Rightarrow> bool" where
  "apart x y \<longleftrightarrow> (\<forall>v c. readVar x (writeVar y v c) = readVar x c)"

definition faithful :: "flagVar \<Rightarrow> bool" where
  "faithful x \<longleftrightarrow> (\<forall>v c. fits x v \<longrightarrow> readVar x (writeVar x v c) = v)"

lemma find_by_name: "distinct (map fl_name flags) \<Longrightarrow> f \<in> set flags \<Longrightarrow> find (\<lambda>g. fl_name g = fl_name f) flags = Some f"
  by (induction flags) force+

lemma fits_default [simp]: "fits x (defaultValue x)"
  by (cases x) simp_all

lemma faithfulI:
  "(\<And>v c. get (upd v c) = v) \<Longrightarrow> faithful (StringVar get upd d1)"
  "(\<And>v c. get' (upd' v c) = v) \<Longrightarrow> faithful (IntVar get' upd' d2)"
  "(\<And>v c. get'' (upd'' v c) = v) \<Longrightarrow> faithful (BoolVar get'' upd'' d3)"
  "(\<And>v c. get3 (upd3 v c) = v) \<Longrightarrow> faithful (StringSliceVar get3 upd3 d4)"
  unfolding faithful_def by (auto elim!: fits.elims)

lemma apartI:
  "(\<And>v c. readVar x (upd v c) = readVar x c) \<Longrightarrow> apart x (StringVar get upd d1)"
  "(\<And>v c. readVar x (upd' v c) = readVar x c) \<Longrightarrow> apart x (IntVar get' upd' d2)"
  "(\<And>v c. readVar x (upd'' v c) = readVar x c) \<Longrightarrow> apart x (BoolVar get'' upd'' d3)"
  "(\<And>v c. readVar x (upd3 v c) = readVar x c) \<Longrightarrow> apart x (StringSliceVar get3 upd3 d4)"
  unfolding apart_def by (auto intro: flagValue.induct)

locale flag_set =
  fixes flags :: "flag list"
  assumes names: "distinct (map fl_name flags)"
    and own: "f \<in> set flags \<Longrightarrow> faithful (fl_var f)"
    and others: "f \<in> set flags \<Longrightarrow> g \<in> set flags \<Longrightarrow> fl_name f \<noteq> fl_name g \<Longrightarrow> apart (fl_var f) (fl_var g)"
begin

lemma assignFlag_own:
  assumes "f \<in> set flags" "fits (fl_var f) v"
  shows "readVar (fl_var f) (assignFlag flags (fl_name f, v) c) = v"
  using own assms by (simp add: assignFlag_def find_by_name names faithful_def)

lemma assignFlag_other:
  assumes "f \<in> set flags" "fl_name f \<noteq> n"
  shows "readVar (fl_var f) (assignFlag flags (n, v) c) = readVar (fl_var f) c"
  using others [OF assms(1)] assms(2)
  by (auto simp: assignFlag_def apart_def find_Some_iff split: option.split)

lemma assign_value:
  assumes "f \<in> set flags" "distinct (map fst vs)" "\<And>v. (fl_name f, v) \<in> set vs \<Longrightarrow> fits (fl_var f) v"
  shows "readVar (fl_var f) (assign flags vs c) = (case map_of vs (fl_name f) of Some v \<Rightarrow> v | None \<Rightarrow> readVar (fl_var f) c)"
  using assms(2,3)
proof (induction vs arbitrary: c)
  case (Cons nv vs)
  obtain n v where nv: "nv = (n, v)" by fastforce
  show ?case
  proof (cases "n = fl_name f")
    case True
    with Cons.prems nv have "map_of vs (fl_name f) = None" by (auto simp: map_of_eq_None_iff)
    with Cons nv True assms(1) show ?thesis by (auto simp: assign_def assignFlag_own)
  next
    case False
    with Cons nv assms(1) show ?thesis by (auto simp: assign_def assignFlag_other split: option.split)
  qed
qed (simp add: assign_def)

end

lemmas allFlags = rootFlags_def downloadFlags_def serveFlags_def

interpretation rootSet: flag_set rootFlags
  by unfold_locales (auto simp: allFlags intro!: faithfulI apartI)

interpretation downloadSet: flag_set "downloadFlags @ rootFlags"
  by unfold_locales (auto simp: allFlags intro!: faithfulI apartI)

interpretation serveSet: flag_set "serveFlags @ rootFlags"
  by unfold_locales (auto simp: allFlags intro!: faithfulI apartI)

section \<open>Help texts\<close>

definition shortRootHelp :: string where
  "shortRootHelp = ''Back up your IMAP-based email accounts with ease.''"

definition typicalFlowHelp :: string where
  "typicalFlowHelp =
     ''A typical run of go-imapgrab consists of 4 separate invocations. First, you store your'' @ [nl] @
     ''credentials in your system'' @ [CHR 0x27] @ ''s keyring using the '' @ [CHR 0x22] @ ''login'' @ [CHR 0x22] @ '' command. Then, you list all'' @ [nl] @
     ''folders in your inbox using the '' @ [CHR 0x22] @ ''list'' @ [CHR 0x22] @ '' command. Next, you download all emails from'' @ [nl] @
     ''all folders that you wish to back up with the '' @ [CHR 0x22] @ ''download'' @ [CHR 0x22] @ '' command. For future runs in'' @ [nl] @
     ''in order to download only new emails, run the exact same '' @ [CHR 0x22] @ ''download'' @ [CHR 0x22] @ '' command again.'' @ [nl] @
     ''Last but not least, you open a local IMAP server using the '' @ [CHR 0x22] @ ''serve'' @ [CHR 0x22] @ '' command and use'' @ [nl] @
     ''your preferred email client to view your backed-up emails.'' @ [nl] @ [nl] @
     ''For an example Gmail account '' @ [CHR 0x22] @ ''my.example@gmail.com'' @ [CHR 0x22] @ '' with an application-specific'' @ [nl] @
     ''password '' @ [CHR 0x22] @ ''example'' @ [CHR 0x22] @ '', the typical call flow looks like this:'' @ [nl] @ [nl] @
     ''  go-imapgrab login --server imap.gmail.com --user my.example@gmail.com'' @ [nl] @ [nl] @
     ''  go-imapgrab list --server imap.gmail.com --user my.example@gmail.com'' @ [nl] @ [nl] @
     ''  go-imapgrab download --server imap.gmail.com --user my.example@gmail.com'' @
     '' --folder _ALL_ --folder -_Gmail_ --path backup'' @ [nl] @ [nl] @
     ''  go-imapgrab serve --server imap.gmail.com --user my.example@gmail.com'' @
     '' --path backup'' @ [nl] @ [nl] @
     ''Provide your password at the login prompt. Here, we download all folders apart from'' @ [nl] @
     ''Gmail-specific ones. Note that you may have to add the '' @ [CHR 0x22] @ ''--port'' @ [CHR 0x22] @ '' flag if your email'' @ [nl] @
     ''provider does not use the default of 993. The emails are downloaded to the local path'' @ [nl] @
     [CHR 0x22] @ ''backup'' @ [CHR 0x22] @ ''. Connect to an IMAP server '' @ [CHR 0x22] @ ''localhost'' @ [CHR 0x22] @ '' on port 30912 with username'' @ [nl] @
     [CHR 0x22] @ ''my.example@gmail.com'' @ [CHR 0x22] @ '' and password '' @ [CHR 0x22] @ ''example'' @ [CHR 0x22] @ '' after running the '' @ [CHR 0x22] @ ''serve'' @ [CHR 0x22] @ '' command.'' @ [nl]"

definition longHelp :: "string \<Rightarrow> string" where
  "longHelp short = short @ [nl, nl] @ typicalFlowHelp"

definition shortListHelp :: string where
  "shortListHelp = ''Print all folders in your inbox.''"

definition shortDownloadHelp :: string where
  "shortDownloadHelp = ''Download all not yet downloaded emails from a folder to a maildir.''"

definition shortServeHelp :: string where
  "shortServeHelp = ''Serve a locally stored maildir backup via a read-only IMAP server.''"

definition shortLoginHelp :: string where
  "shortLoginHelp = ''Store credentials in your system'' @ [CHR 0x27] @ ''s keyring.''"

section \<open>Commands\<close>

text \<open>
  What the commands work on: the files, the keyring, the variables bound to flags, the log, what was
  printed, and who holds the lock on the local directory.
\<close>

record 'k machine =
  mc_fs :: fsys
  mc_keyring :: 'k
  mc_conf :: config
  mc_log :: logger
  mc_out :: string
  mc_lock :: owner

text \<open>
  What they are given: \<open>os.Args\<close>, the environment variable with the password, the system user,
  \<open>os.ReadFile\<close>, the keyring, the function that reads the password, the function that locks.
\<close>

type_synonym 'k lockFn = "string \<Rightarrow> goint \<Rightarrow> 'k machine \<Rightarrow> 'k machine \<times> (gerr + ('k machine \<Rightarrow> 'k machine))"

record 'k system =
  sy_args :: "string list"
  sy_env :: "string option"
  sy_user :: "gerr + string"
  sy_readFile :: "string \<Rightarrow> gerr + string"
  sy_keyring :: "'k keyringOps"
  sy_errText :: "keyringError \<Rightarrow> string"
  sy_readPassword :: "string \<times> gerr option"
  sy_lock :: "'k lockFn"

record 'k coreOps =
  op_getAllFolders :: "IMAPConfig \<Rightarrow> (string list \<times> gerr option) res"
  op_downloadFolder :: "IMAPConfig \<Rightarrow> string list \<Rightarrow> string \<Rightarrow> goint \<Rightarrow> 'k machine \<Rightarrow> 'k machine \<times> gerr option res"
  op_serveMaildir :: "IMAPConfig \<Rightarrow> goint \<Rightarrow> string \<Rightarrow> 'k machine \<Rightarrow> 'k machine \<times> gerr option res"
  op_tryConnect :: "IMAPConfig \<Rightarrow> gerr option res"

record 'k command =
  cm_use :: string
  cm_long :: string
  cm_short :: string
  cm_flags :: "flag list"
  cm_preRunE :: "('k machine \<Rightarrow> 'k machine \<times> gerr option res) option"
  cm_runE :: "'k machine \<Rightarrow> 'k machine \<times> gerr option res"

definition setVerbose :: "'k machine \<Rightarrow> 'k machine" where
  "setVerbose m = m\<lparr>mc_log := SetVerboseLogs (rc_verbose (cf_root (mc_conf m))) (mc_log m)\<rparr>"

definition print :: "string \<Rightarrow> 'k machine \<Rightarrow> 'k machine" where
  "print s m = m\<lparr>mc_out := mc_out m @ s\<rparr>"

text \<open>What \<open>initCredentials\<close> logs with its \<open>logDebug\<close>.\<close>

definition credentialLog :: "string option \<Rightarrow> bool \<Rightarrow> bool \<Rightarrow> string list" where
  "credentialLog env noKeyring verbose =
     (if \<not> verbose then []
      else (case env of
          Some _ \<Rightarrow> (''password taken from env var '' @ passwdEnvVar) #
            (if noKeyring then [] else [''adding password to keyring''])
        | None \<Rightarrow> (if noKeyring then []
            else [''password not set via env var '' @ passwdEnvVar @ '', taking from keyring''])))"

text \<open>\<open>PreRunE\<close> of \<open>list\<close>, \<open>download\<close> and \<open>serve\<close>.\<close>

definition preRunE :: "'k system \<Rightarrow> 'k machine \<Rightarrow> 'k machine \<times> gerr option res" where
  "preRunE sy m0 =
     (let m = setVerbose m0; rc = cf_root (mc_conf m) in
      case preRun (sy_errText sy) (sy_args sy) (sy_env sy) (sy_readFile sy) (sy_user sy) (sy_keyring sy) (rc, mc_keyring m) of
        ((rc', k), r) \<Rightarrow>
          (m\<lparr>mc_conf := (mc_conf m)\<lparr>cf_root := rc'\<rparr>, mc_keyring := k,
             mc_log := fold logPrintln (credentialLog (sy_env sy) (rc_noKeyring rc) (rc_verbose rc)) (mc_log m)\<rparr>, r))"

definition getListCmd :: "'k system \<Rightarrow> 'k coreOps \<Rightarrow> 'k command" where
  "getListCmd sy ops =
     \<lparr>cm_use = ''list'', cm_long = longHelp shortListHelp, cm_short = shortListHelp, cm_flags = rootFlags,
      cm_preRunE = Some (preRunE sy),
      cm_runE = (\<lambda>m0. let m = setVerbose m0 in
        case listRun (op_getAllFolders ops) (cf_root (mc_conf m)) of
          Ok (text, err) \<Rightarrow> (print text m, Ok err)
        | Err e \<Rightarrow> (m, Err e)
        | Panic p \<Rightarrow> (m, Panic p))\<rparr>"

definition getDownloadCmd :: "'k system \<Rightarrow> 'k coreOps \<Rightarrow> 'k command" where
  "getDownloadCmd sy ops =
     \<lparr>cm_use = ''download'', cm_long = longHelp shortDownloadHelp, cm_short = shortDownloadHelp,
      cm_flags = downloadFlags @ rootFlags, cm_preRunE = Some (preRunE sy),
      cm_runE = (\<lambda>m. downloadRun (sy_lock sy) (op_downloadFolder ops)
        (cf_root (mc_conf m)) (cf_download (mc_conf m)) (setVerbose m))\<rparr>"

definition getServeCmd :: "'k system \<Rightarrow> 'k coreOps \<Rightarrow> 'k command" where
  "getServeCmd sy ops =
     \<lparr>cm_use = ''serve'', cm_long = longHelp shortServeHelp, cm_short = shortServeHelp,
      cm_flags = serveFlags @ rootFlags, cm_preRunE = Some (preRunE sy),
      cm_runE = (\<lambda>m. serveRun (sy_lock sy) (op_serveMaildir ops)
        (cf_root (mc_conf m)) (cf_serve (mc_conf m)) (setVerbose m))\<rparr>"

text \<open>What \<open>login\<close> prints: the prompt, the progress, and the outcome.\<close>

definition passwordPrompt :: "rootConfigT \<Rightarrow> string" where
  "passwordPrompt rc =
     ''Please provide your password for the following service:'' @ [nl] @
     ''  Username: '' @ rc_username rc @ [nl] @ ''  Server: '' @ rc_server rc @ [nl] @
     ''  Port: '' @ showGoint (rc_port rc) @ [nl, nl] @
     ''Your password won'' @ [CHR 0x27] @ ''t be echoed as you type. '' @
     ''You may need to reset your terminal after aborting with Ctrl+C.'' @ [nl] @
     [nl] @ ''Password:''"

fun outcomeText :: "loginMessage \<Rightarrow> string" where
  "outcomeText Stored = ''Credentials successfully validated. Password successfully stored in keyring.'' @ [nl]"
| "outcomeText NotStored = ''Credentials successfully validated. Password not stored in keyring.'' @ [nl]"
| "outcomeText CouldNotStore = ''Credentials successfully validated. Password could not be stored in keyring.'' @ [nl]"
| "outcomeText NotValidated = [nl] @ ''Credentials could not be validated. Keyring unchanged.'' @ [nl, nl]"

definition loginProgress :: "gerr option \<Rightarrow> string" where
  "loginProgress err =
     (if err = None then '' PASSWORD NOT SHOWN'' @ [nl, nl] @ ''Trying to connect to the IMAP server, please wait.'' @ [nl, nl]
      else [])"

definition getLoginCmd :: "'k system \<Rightarrow> 'k coreOps \<Rightarrow> 'k command" where
  "getLoginCmd sy ops =
     \<lparr>cm_use = ''login'', cm_long = longHelp shortLoginHelp, cm_short = shortLoginHelp, cm_flags = rootFlags,
      cm_preRunE = None,
      cm_runE = (\<lambda>m0.
        let m = setVerbose m0; rc = cf_root (mc_conf m);
            m1 = print (passwordPrompt rc @ loginProgress (snd (sy_readPassword sy))) m in
        case loginRun (sy_user sy) (sy_keyring sy) (sy_readPassword sy) (op_tryConnect ops) rc (mc_keyring m) of
          (k, Ok (msg, err)) \<Rightarrow>
            (let m2 = print (outcomeText msg) (m1\<lparr>mc_keyring := k\<rparr>) in
             (if msg = CouldNotStore
              then m2\<lparr>mc_log := logPrintln (''ERROR addding password to keyring: '' @
                (case snd (addToKeyring (sy_user sy) (sy_keyring sy) (mc_keyring m) rc (fst (sy_readPassword sy))) of
                   Some e \<Rightarrow> sy_errText sy e | None \<Rightarrow> [])) (mc_log m2)\<rparr>
              else m2, Ok err))
        | (k, Err e) \<Rightarrow> (m1\<lparr>mc_keyring := k\<rparr>, Err e)
        | (k, Panic p) \<Rightarrow> (m1\<lparr>mc_keyring := k\<rparr>, Panic p))\<rparr>"

definition getVersionCmd :: "string \<Rightarrow> 'k command" where
  "getVersionCmd versionString =
     \<lparr>cm_use = ''version'', cm_long = [], cm_short = ''Print the version number of this executable.'', cm_flags = [],
      cm_preRunE = None, cm_runE = (\<lambda>m. (print (versionText versionString) m, Ok None))\<rparr>"

text \<open>\<open>help\<close> is \<open>cobra\<close>'s method \<open>Help\<close> of the command.\<close>

definition getRootCmd :: "('k machine \<Rightarrow> 'k machine \<times> gerr option res) \<Rightarrow> 'k command" where
  "getRootCmd help =
     \<lparr>cm_use = ''go-imapgrab'', cm_long = longHelp shortRootHelp, cm_short = shortRootHelp, cm_flags = [],
      cm_preRunE = None, cm_runE = help\<rparr>"

text \<open>The commands added to the root command when the program starts, in the order of the files.\<close>

definition commands :: "string \<Rightarrow> 'k system \<Rightarrow> 'k coreOps \<Rightarrow> 'k command list" where
  "commands versionString sy ops =
     [getDownloadCmd sy ops, getListCmd sy ops, getLoginCmd sy ops, getServeCmd sy ops, getVersionCmd versionString]"

section \<open>Properties\<close>

lemma initial_defaults:
  assumes "f \<in> set rootFlags \<union> set downloadFlags \<union> set serveFlags"
  shows "readVar (fl_var f) initialConfig = defaultValue (fl_var f)"
  using assms by (auto simp: allFlags initialConfig_def bindFlags_def zeroConfig_def)


definition exampleFlags :: "(string \<times> flagValue) list" where
  "exampleFlags = [(''server'', StringValue ''s''), (''port'', IntValue 1), (''user'', StringValue ''u''),
     (''folder'', SliceValue [''_ALL_'']), (''path'', StringValue ''bak''), (''threads'', IntValue 1)]"


end
