(* ===== verification/Program.thy ===== *)
theory Program
  imports Serve Commands
begin

text \<open>
  The program as a whole: the library's entry points behind the interface \<open>coreOps\<close> of the commands
  (\<open>cli/coreops.go\<close>), the commands under the lock of \<open>CliLock\<close>, and \<open>main\<close>.
\<close>

section \<open>The production instance of \<open>coreOps\<close>\<close>

text \<open>
  What the library meets outside of the machine: connections (the \<open>k\<close>-th of a run), the lists that
  \<open>getFolderList\<close> and \<open>getAllMessageUUIDs\<close> obtain on a connection, the environment of deliveries, and
  for the server the directory reader, the sorting, the parser and the heap, and how serving ends.
\<close>

record network =
  n_dialTLS :: "nat \<Rightarrow> string \<Rightarrow> imapOps res"
  n_dial :: "nat \<Rightarrow> string \<Rightarrow> imapOps res"
  n_folders :: "imapOps \<Rightarrow> string list \<times> gerr option"
  n_listed :: "nat \<Rightarrow> string \<Rightarrow> mailboxStatus \<Rightarrow> uidExt list \<times> gerr option"
  n_env :: environment
  n_readDir :: "fsys \<Rightarrow> string \<Rightarrow> gerr + dirEntry list"
  n_sortFiles :: "pathAndInfo list \<Rightarrow> pathAndInfo list"
  n_heap :: serverHeap
  n_listen :: "imapServer \<Rightarrow> gerr option"
  n_closeErr :: "gerr option"

definition connect :: "network \<Rightarrow> IMAPConfig \<Rightarrow> nat \<Rightarrow> imapOps res" where
  "connect net cfg k = authenticateClient (n_dialTLS net k) (n_dial net k) cfg"

definition callOf :: "network \<Rightarrow> IMAPConfig \<Rightarrow> string \<Rightarrow> backupCall" where
  "callOf net cfg maildirBase =
     \<lparr>bc_cfg = cfg, bc_base = maildirBase, bc_env = n_env net,
      bc_server = \<lparr>connection = connect net cfg,
        available = (case connect net cfg 0 of Ok c \<Rightarrow> n_folders net c | _ \<Rightarrow> ([], None)),
        downloadErr = (\<lambda>k f. None)\<rparr>,
      bc_listed = n_listed net\<rparr>"

text \<open>
  \<open>DownloadFolder\<close> returns \<open>r\<close> on a disk and leaves another one, for some schedule of its threads; the
  delivery counter is that of a fresh process.
\<close>

definition downloadFolder ::
    "(string list \<Rightarrow> string list) \<Rightarrow> (string list \<Rightarrow> string list) \<Rightarrow> backupCall \<Rightarrow> string list \<Rightarrow> goint \<Rightarrow>
      fsys \<Rightarrow> fsys \<Rightarrow> gerr option res \<Rightarrow> bool" where
  "downloadFolder iter1 iter2 b folders threads fs fs' r \<longleftrightarrow>
     (\<exists>st. (bstep b (downloadPartitions iter1 iter2 (bc_server b) folders threads))\<^sup>*\<^sup>* (backupInit b (fs, \<lparr>count = 0\<rparr>)) st \<and>
        fs' = fst (b_shared st) \<and>
        (d_result (b_main st) = Some r \<or> (\<exists>p. b_crash st = Some p \<and> r = Panic p)))"

text \<open>
  The methods of \<open>corer\<close> are the functions of the library. The last two, when they return, have run with
  one of the possible schedules, and change nothing of the machine but the disk; none of them touches
  the lock.
\<close>

definition corer ::
    "network \<Rightarrow> (string list \<Rightarrow> string list) \<Rightarrow> (string list \<Rightarrow> string list) \<Rightarrow> 'k coreOps \<Rightarrow> bool" where
  "corer net iter1 iter2 ops \<longleftrightarrow>
     (\<forall>cfg. op_getAllFolders ops cfg = getAllFolders (connect net cfg 0) (n_folders net)) \<and>
     (\<forall>cfg. op_tryConnect ops cfg = tryConnect (connect net cfg 0)) \<and>
     (\<forall>cfg folders base threads m m' r. op_downloadFolder ops cfg folders base threads m = (m', r) \<longrightarrow>
        mc_lock m' = mc_lock m \<and>
        (\<forall>e. r = Ok e \<longrightarrow>
          (\<exists>fs'. m' = m\<lparr>mc_fs := fs'\<rparr> \<and>
             downloadFolder iter1 iter2 (callOf net cfg base) folders threads (mc_fs m) fs' (Ok e)))) \<and>
     (\<forall>cfg port base m m' r. op_serveMaildir ops cfg port base m = (m', r) \<longrightarrow>
        mc_lock m' = mc_lock m \<and>
        (\<forall>e. r = Ok e \<longrightarrow>
          m' = m \<and> serveMaildir (n_listen net) (n_closeErr net)
            (prepareServe (mc_fs m) (n_readDir net (mc_fs m)) (n_sortFiles net) cfg port base (n_heap net)) (Ok e)))"

section \<open>The lock and the end of the program\<close>

text \<open>
  The function \<open>lock\<close> returns when its caller in \<open>CliLock\<close> holds the lock, or has an error or timed
  out. While it waits, other processes may change the disk. The function it returns is the last
  step of the caller.
\<close>

definition lockFunction :: "'k lockFn \<Rightarrow> bool" where
  "lockFunction lockFn \<longleftrightarrow>
     (\<forall>path timeout m m' r. lockFn path timeout m = (m', r) \<longrightarrow>
        (\<exists>s fs'. lockStep\<^sup>*\<^sup>* (lockInit (mc_lock m)) s \<and> m' = m\<lparr>mc_fs := fs', mc_lock := owner s\<rparr> \<and>
           (case r of
              Inl e \<Rightarrow> caller s = LockError e \<or> caller s = TimedOut
            | Inr unlock \<Rightarrow> caller s = Holding \<and> (\<forall>n. unlock n = n\<lparr>mc_lock := Free\<rparr>))))"

text \<open>What \<open>cobra\<close> documents for a command with parsed flags: \<open>PreRunE\<close>, and without error \<open>RunE\<close>.\<close>

definition executes :: "'k command \<Rightarrow> (string \<times> flagValue) list \<Rightarrow> 'k machine \<Rightarrow> 'k machine \<times> gerr option res" where
  "executes cmd vs m0 =
     (let m = m0\<lparr>mc_conf := assign (cm_flags cmd) vs (mc_conf m0)\<rparr> in
      case cm_preRunE cmd of
        None \<Rightarrow> cm_runE cmd m
      | Some pre \<Rightarrow>
          (case pre m of
             (m, Ok None) \<Rightarrow> cm_runE cmd m
           | (m, r) \<Rightarrow> (m, r)))"

text \<open>\<open>main\<close> with the method \<open>Execute\<close> of the root command: the exit status, none if it just returns.\<close>

definition mainRun :: "('k machine \<Rightarrow> 'k machine \<times> gerr option res) \<Rightarrow> 'k machine \<Rightarrow> 'k machine \<times> nat option res" where
  "mainRun execute m = (case execute m of (m', r) \<Rightarrow> (m', bind_res r (\<lambda>err. Ok (mainExit err))))"

lemma lockFunction_Inr:
  assumes "lockFunction lockFn" "lockFn path timeout m = (m', Inr unlock)" "mc_lock m \<noteq> Ours"
  obtains fs' where "m' = m\<lparr>mc_fs := fs', mc_lock := Ours\<rparr>" "unlock = (\<lambda>n. n\<lparr>mc_lock := Free\<rparr>)"
proof -
  from assms(1) [unfolded lockFunction_def, rule_format, OF assms(2)]
  obtain s fs' where s: "lockStep\<^sup>*\<^sup>* (lockInit (mc_lock m)) s" "m' = m\<lparr>mc_fs := fs', mc_lock := owner s\<rparr>"
    "caller s = Holding" "\<And>n. unlock n = n\<lparr>mc_lock := Free\<rparr>"
    by auto
  have "lockInv s" by (rule lock_run_inv [OF s(1) lockInit_inv [OF assms(3)]])
  with s(3) have "owner s = Ours" by (auto simp: lockInv_def places_def split: if_splits)
  with s that show thesis by (simp add: ext)
qed

lemma initCredentials_root:
  "\<exists>pw k'. fst (initCredentials env readFile me keyring (rc, k)) = (rc\<lparr>rc_password := pw\<rparr>, k')"
proof -
  have "\<exists>pw. rc = rc\<lparr>rc_password := pw\<rparr>" by (rule exI [of _ "rc_password rc"]) simp
  then show ?thesis
    by (auto simp: initCredentials_def Let_def split: option.split prod.split)
qed

lemma preRunE_frame:
  assumes "preRunE sy m = (m', r)"
  shows "mc_fs m' = mc_fs m" "mc_lock m' = mc_lock m"
    "\<exists>pw. mc_conf m' = (mc_conf m)\<lparr>cf_root := (cf_root (mc_conf m))\<lparr>rc_password := pw\<rparr>\<rparr>"
proof -
  let ?rc = "cf_root (mc_conf m)"
  obtain pw k e where "initCredentials (sy_env sy) (sy_readFile sy) (sy_user sy) (sy_keyring sy) (?rc, mc_keyring m) =
      ((?rc\<lparr>rc_password := pw\<rparr>, k), e)"
    using initCredentials_root by (metis prod.collapse)
  with assms show "mc_fs m' = mc_fs m" "mc_lock m' = mc_lock m"
    "\<exists>pw. mc_conf m' = (mc_conf m)\<lparr>cf_root := ?rc\<lparr>rc_password := pw\<rparr>\<rparr>"
    by (auto simp: preRunE_def preRun_def setVerbose_def Let_def)
qed

section \<open>Work under the lock\<close>

lemma withLock_returns:
  assumes "lockFunction lockFn" "mc_lock m \<noteq> Ours" "withLock lockFn msg path t op m = (m', r)"
  shows "(mc_lock m' = Ours \<longrightarrow> (\<exists>e. r = Ok (Some e))) \<and>
    (r = Ok None \<longrightarrow> (\<exists>fs0 m0 unlock m1. m0 = m\<lparr>mc_fs := fs0, mc_lock := Ours\<rparr> \<and>
       lockFn (joinPath [path, lockfileName]) (t * 1000000000) m = (m0, Inr unlock) \<and>
       op m0 = (m1, Ok None) \<and> m' = m1\<lparr>mc_lock := Free\<rparr>))"
proof -
  let ?l = "lockFn (joinPath [path, lockfileName]) (t * 1000000000) m"
  obtain m0 lr where l: "?l = (m0, lr)" by fastforce
  show ?thesis
  proof (cases lr)
    case (Inr unlock)
    obtain fs' where "m0 = m\<lparr>mc_fs := fs', mc_lock := Ours\<rparr>" "unlock = (\<lambda>n. n\<lparr>mc_lock := Free\<rparr>)"
      by (rule lockFunction_Inr [OF assms(1) l [unfolded Inr] assms(2)])
    with assms(3) l Inr show ?thesis
      by (auto simp: withLock_def split: prod.splits)
  qed (use assms(3) l in \<open>auto simp: withLock_def\<close>)
qed

text \<open>Operations that refuse to work without the lock.\<close>

definition locked :: "('k machine \<Rightarrow> 'k machine \<times> gerr option res) \<Rightarrow> 'k machine \<Rightarrow> 'k machine \<times> gerr option res" where
  "locked op m = (if mc_lock m = Ours then op m else (m, Panic ''not locked''))"

definition underLock :: "'k coreOps \<Rightarrow> 'k coreOps" where
  "underLock ops = ops
     \<lparr>op_downloadFolder := (\<lambda>cfg folders base threads. locked (op_downloadFolder ops cfg folders base threads)),
      op_serveMaildir := (\<lambda>cfg port base. locked (op_serveMaildir ops cfg port base))\<rparr>"

lemma withLock_locked:
  assumes "lockFunction lockFn" "mc_lock m \<noteq> Ours"
  shows "withLock lockFn msg path t (locked op) m = withLock lockFn msg path t op m"
proof -
  let ?l = "lockFn (joinPath [path, lockfileName]) (t * 1000000000) m"
  obtain m0 lr where l: "?l = (m0, lr)" by fastforce
  show ?thesis
  proof (cases lr)
    case (Inr unlock)
    obtain fs' where "m0 = m\<lparr>mc_fs := fs', mc_lock := Ours\<rparr>"
      by (rule lockFunction_Inr [OF assms(1) l [unfolded Inr] assms(2)])
    with l Inr show ?thesis by (simp add: withLock_def locked_def)
  qed (simp add: withLock_def l)
qed

lemma setVerbose_simps [simp]:
  "mc_lock (setVerbose m) = mc_lock m" "mc_fs (setVerbose m) = mc_fs m" "mc_conf (setVerbose m) = mc_conf m"
  by (simp_all add: setVerbose_def)

text \<open>The two commands that work on the local directory.\<close>

definition locking :: "'k system \<Rightarrow> ('k coreOps \<Rightarrow> 'k command) \<Rightarrow> bool" where
  "locking sy getCmd \<longleftrightarrow> getCmd = getDownloadCmd sy \<or> getCmd = getServeCmd sy"

lemma locking_cases:
  assumes "locking sy getCmd"
  obtains msg path t op where
    "\<And>ops. cm_preRunE (getCmd ops) = Some (preRunE sy)"
    "\<And>ops. cm_flags (getCmd ops) = cm_flags (getCmd undefined)"
    "\<And>ops m. cm_runE (getCmd ops) m =
      withLock (sy_lock sy) msg (path (mc_conf m)) (t (mc_conf m)) (op ops (mc_conf m)) (setVerbose m)"
    "\<And>ops c. op (underLock ops) c = locked (op ops c)"
  using assms unfolding locking_def
proof (elim disjE)
  assume "getCmd = getDownloadCmd sy"
  then show thesis
    by (intro that [of "''cannot get lock on download folder, another process might be downloading: ''"
        "\<lambda>c. dc_path (cf_download c)" "\<lambda>c. dc_timeoutSeconds (cf_download c)"
        "\<lambda>ops c. op_downloadFolder ops (commandConfig (cf_root c)) (dc_folders (cf_download c))
           (dc_path (cf_download c)) (dc_threads (cf_download c))"])
      (simp_all add: getDownloadCmd_def downloadRun_def underLock_def)
next
  assume "getCmd = getServeCmd sy"
  then show thesis
    by (intro that [of "''cannot get lock on local folder, another process might be using it: ''"
        "\<lambda>c. sc_path (cf_serve c)" "\<lambda>c. sc_timeoutSeconds (cf_serve c)"
        "\<lambda>ops c. op_serveMaildir ops (commandConfig (cf_root c)) (sc_serverPort (cf_serve c)) (sc_path (cf_serve c))"])
      (simp_all add: getServeCmd_def serveRun_def underLock_def)
qed

lemma executes_run:
  assumes "executes cmd vs m = (m', r)" "cm_preRunE cmd = Some (preRunE sy)" "mc_lock m \<noteq> Ours"
  obtains (pre) "mc_lock m' \<noteq> Ours" "r \<noteq> Ok None"
    | (run) m1 where "preRunE sy (m\<lparr>mc_conf := assign (cm_flags cmd) vs (mc_conf m)\<rparr>) = (m1, Ok None)"
      "cm_runE cmd m1 = (m', r)" "mc_lock m1 = mc_lock m" "mc_fs m1 = mc_fs m"
proof -
  let ?m = "m\<lparr>mc_conf := assign (cm_flags cmd) vs (mc_conf m)\<rparr>"
  obtain m1 r1 where p: "preRunE sy ?m = (m1, r1)" by fastforce
  note f = preRunE_frame [OF p]
  show thesis
  proof (cases "r1 = Ok None")
    case True
    with f show thesis using assms(1,2) p by (intro run [of m1]) (auto simp: executes_def Let_def)
  next
    case False
    then have "m' = m1" "r = r1"
      using assms(1,2) p by (auto simp: executes_def Let_def split: res.splits option.splits)
    with False f(2) assms(3) show thesis by (intro pre) simp_all
  qed
qed

section \<open>An example\<close>

text \<open>A lock that is obtained at once if it is free, and otherwise times out.\<close>

definition tryLock :: "'k lockFn" where
  "tryLock path timeout m =
     (if mc_lock m = Free then (m\<lparr>mc_lock := Ours\<rparr>, Inr (\<lambda>n. n\<lparr>mc_lock := Free\<rparr>)) else (m, Inl ''timeout''))"

lemma lock_can_time_out: "\<exists>s. lockStep\<^sup>*\<^sup>* (lockInit ow) s \<and> owner s = ow \<and> caller s = TimedOut"
proof -
  let ?s1 = "(lockInit ow)\<lparr>caller := Waiting, acquirer := Acquiring\<rparr>"
  let ?s2 = "?s1\<lparr>caller := TimedOut, cleaner := Receiving\<rparr>"
  have "lockStep (lockInit ow) ?s1"
    using callerStep.mkdirAll [of "lockInit ow"] by (simp add: lockStep_def lockInit_def)
  moreover have "lockStep ?s1 ?s2" using callerStep.timeout [of ?s1] by (simp add: lockStep_def lockInit_def)
  ultimately have "lockStep\<^sup>*\<^sup>* (lockInit ow) ?s2" by (meson rtranclp.rtrancl_into_rtrancl rtranclp.rtrancl_refl)
  then show ?thesis by (intro exI [of _ ?s2]) (simp add: lockInit_def)
qed

lemma lock_can_succeed: "\<exists>s. lockStep\<^sup>*\<^sup>* (lockInit Free) s \<and> owner s = Ours \<and> caller s = Holding"
proof -
  let ?s1 = "(lockInit Free)\<lparr>caller := Waiting, acquirer := Acquiring\<rparr>"
  let ?s2 = "?s1\<lparr>owner := Ours, acquirer := Sending Locked\<rparr>"
  let ?s3 = "?s2\<lparr>resultChan := Some Locked, acquirer := Sent\<rparr>"
  let ?s4 = "?s3\<lparr>resultChan := None, caller := Holding\<rparr>"
  have "lockStep (lockInit Free) ?s1"
    using callerStep.mkdirAll [of "lockInit Free"] by (simp add: lockStep_def lockInit_def)
  moreover have "lockStep ?s1 ?s2" using acquireStep.doLock [of ?s1] by (simp add: lockStep_def lockInit_def)
  moreover have "lockStep ?s2 ?s3" using acquireStep.send [of ?s2 Locked] by (simp add: lockStep_def lockInit_def)
  moreover have "lockStep ?s3 ?s4" using callerStep.gotLock [of ?s3] by (simp add: lockStep_def lockInit_def)
  ultimately have "lockStep\<^sup>*\<^sup>* (lockInit Free) ?s4"
    by (meson rtranclp.rtrancl_into_rtrancl rtranclp.rtrancl_refl)
  then show ?thesis by (intro exI [of _ ?s4]) simp
qed

lemma tryLock_ok: "lockFunction tryLock"
  unfolding lockFunction_def
proof (intro allI impI)
  fix path timeout and m m' :: "'k machine" and r
  assume t: "tryLock path timeout m = (m', r)"
  show "\<exists>s fs'. lockStep\<^sup>*\<^sup>* (lockInit (mc_lock m)) s \<and> m' = m\<lparr>mc_fs := fs', mc_lock := owner s\<rparr> \<and>
      (case r of Inl e \<Rightarrow> caller s = LockError e \<or> caller s = TimedOut
       | Inr unlock \<Rightarrow> caller s = Holding \<and> (\<forall>n. unlock n = n\<lparr>mc_lock := Free\<rparr>))"
  proof (cases "mc_lock m = Free")
    case True
    obtain s where s: "lockStep\<^sup>*\<^sup>* (lockInit Free) s" "owner s = Ours" "caller s = Holding"
      using lock_can_succeed by blast
    with t True show ?thesis by (intro exI [of _ s] exI [of _ "mc_fs m"]) (auto simp: tryLock_def)
  next
    case False
    obtain s where "lockStep\<^sup>*\<^sup>* (lockInit (mc_lock m)) s" "owner s = mc_lock m" "caller s = TimedOut"
      using lock_can_time_out by blast
    with t False show ?thesis by (intro exI [of _ s] exI [of _ "mc_fs m"]) (auto simp: tryLock_def)
  qed
qed

definition exampleNetwork :: network where
  "exampleNetwork =
     \<lparr>n_dialTLS = (\<lambda>k addr. Ok exampleOps), n_dial = (\<lambda>k addr. Err ''refused''), n_folders = (\<lambda>c. ([''a''], None)),
      n_listed = (\<lambda>k f. s_listed exampleSession), n_env = exampleEnv, n_readDir = (\<lambda>fs p. Inl ''unreadable''),
      n_sortFiles = sort_key pi_modTime, n_heap = exampleHeap, n_listen = (\<lambda>srv. None), n_closeErr = None\<rparr>"

definition exampleCore :: "'k coreOps" where
  "exampleCore =
     \<lparr>op_getAllFolders = (\<lambda>cfg. getAllFolders (connect exampleNetwork cfg 0) (n_folders exampleNetwork)),
      op_downloadFolder = (\<lambda>cfg folders path threads m.
        if (cfg, folders, path, threads) = (exampleConfig, [''_ALL_''], ''bak'', 1) \<and> mc_fs m = emptyFs
        then (m\<lparr>mc_fs := exampleStored\<rparr>, Ok None) else (m, Panic ''other example'')),
      op_serveMaildir = (\<lambda>cfg port path m. (m, Panic ''other example'')),
      op_tryConnect = (\<lambda>cfg. tryConnect (connect exampleNetwork cfg 0))\<rparr>"

lemma exampleCall_of: "callOf exampleNetwork exampleConfig ''bak'' = exampleCall"
proof -
  have "connect exampleNetwork exampleConfig = (\<lambda>k. Ok exampleOps)"
    by (simp add: fun_eq_iff connect_def exampleNetwork_def authenticateClient_def exampleConfig_def newImapClient_def
        exampleOps_def)
  then show ?thesis
    by (simp add: callOf_def exampleCall_def exampleNetwork_def)
qed

lemma exampleCore_ok: "corer exampleNetwork (\<lambda>ks. ks) (\<lambda>ks. ks) exampleCore"
proof -
  have "downloadFolder (\<lambda>ks. ks) (\<lambda>ks. ks) exampleCall [''_ALL_''] 1 emptyFs exampleStored (Ok None)"
    unfolding downloadFolder_def examplePartitions [symmetric] using exampleBackup by fastforce
  then show ?thesis
    by (auto simp: corer_def exampleCore_def exampleCall_of split: if_splits intro!: exI [of _ exampleStored])
qed

definition exampleSystem :: "(string \<times> string \<Rightarrow> string option) system" where
  "exampleSystem =
     \<lparr>sy_args = [''go-imapgrab'', ''download''], sy_env = Some ''p'', sy_user = Inr ''me'', sy_readFile = (\<lambda>p. Inl ''none''),
      sy_keyring = mapKeyring, sy_errText = (\<lambda>e. ''error''), sy_readPassword = (''p'', None), sy_lock = tryLock\<rparr>"

definition exampleMachine :: "(string \<times> string \<Rightarrow> string option) machine" where
  "exampleMachine =
     \<lparr>mc_fs = emptyFs, mc_keyring = (\<lambda>_. None), mc_conf = initialConfig, mc_log = \<lparr>lg_verbose = False, lg_lines = []\<rparr>,
      mc_out = [], mc_lock = Free\<rparr>"

lemma example_conf:
  "assign (downloadFlags @ rootFlags) exampleFlags initialConfig =
     \<lparr>cf_root = \<lparr>rc_server = ''s'', rc_port = 1, rc_username = ''u'', rc_password = [], rc_verbose = False, rc_noKeyring = False\<rparr>,
      cf_download = \<lparr>dc_folders = [''_ALL_''], dc_path = ''bak'', dc_threads = 1, dc_timeoutSeconds = 1\<rparr>,
      cf_serve = \<lparr>sc_path = [], sc_timeoutSeconds = 1, sc_serverPort = 30912\<rparr>\<rparr>"
  by code_simp

lemma example_pre:
  "\<exists>k log. preRunE exampleSystem (exampleMachine\<lparr>mc_conf := assign (downloadFlags @ rootFlags) exampleFlags (mc_conf exampleMachine)\<rparr>) =
     ((exampleMachine\<lparr>mc_conf := assign (downloadFlags @ rootFlags) exampleFlags (mc_conf exampleMachine)\<rparr>)
       \<lparr>mc_conf := (assign (downloadFlags @ rootFlags) exampleFlags (mc_conf exampleMachine))
          \<lparr>cf_root := (cf_root (assign (downloadFlags @ rootFlags) exampleFlags (mc_conf exampleMachine)))\<lparr>rc_password := ''p''\<rparr>\<rparr>,
        mc_keyring := k, mc_log := log\<rparr>, Ok None)"
proof -
  have "mc_conf exampleMachine = initialConfig" by (simp add: exampleMachine_def)
  then show ?thesis
    by (auto simp: preRunE_def preRun_def initCredentials_def setVerbose_def exampleSystem_def example_conf
        addToKeyring_def mapKeyring_def credentialsNotFound_def Let_def)
qed

lemma example_run:
  obtains m' where "executes (getDownloadCmd exampleSystem exampleCore) exampleFlags exampleMachine = (m', Ok None)"
proof -
  have c: "mc_conf exampleMachine = initialConfig" by (simp add: exampleMachine_def)
  obtain k log where "preRunE exampleSystem (exampleMachine\<lparr>mc_conf := assign (downloadFlags @ rootFlags) exampleFlags initialConfig\<rparr>) =
      (exampleMachine\<lparr>mc_conf := (assign (downloadFlags @ rootFlags) exampleFlags initialConfig)
          \<lparr>cf_root := (cf_root (assign (downloadFlags @ rootFlags) exampleFlags initialConfig))\<lparr>rc_password := ''p''\<rparr>\<rparr>,
        mc_keyring := k, mc_log := log\<rparr>, Ok None)"
    using example_pre unfolding c by auto
  then show thesis
    using that by (auto simp: executes_def getDownloadCmd_def downloadRun_def withLock_def exampleSystem_def tryLock_def
        setVerbose_def exampleMachine_def exampleCore_def example_conf commandConfig_def exampleConfig_def localhost_def)
qed

section \<open>Properties\<close>

text \<open>
  C5: \<open>download\<close> and \<open>serve\<close> work on the local directory only while they hold its lock: with operations that
  refuse to work without the lock the commands do exactly the same. And the lock is given back: a
  command that succeeds leaves it free, and after any other end it is still ours only if the command
  reported an error (the lock came after the timeout and is on its way to be released).
\<close>

theorem commands_work_under_the_lock:
  assumes "lockFunction (sy_lock sy)" "locking sy getCmd" "mc_lock m \<noteq> Ours"
    and "executes (getCmd ops) vs m = (m', r)"
  shows "executes (getCmd (underLock ops)) vs m = (m', r) \<and>
    (r = Ok None \<longrightarrow> mc_lock m' = Free) \<and> (mc_lock m' = Ours \<longrightarrow> (\<exists>e. r = Ok (Some e)))"
proof -
  obtain msg path t op where c: "\<And>ops. cm_preRunE (getCmd ops) = Some (preRunE sy)"
    "\<And>ops. cm_flags (getCmd ops) = cm_flags (getCmd undefined)"
    "\<And>ops m. cm_runE (getCmd ops) m =
      withLock (sy_lock sy) msg (path (mc_conf m)) (t (mc_conf m)) (op ops (mc_conf m)) (setVerbose m)"
    "\<And>ops c. op (underLock ops) c = locked (op ops c)"
    by (rule locking_cases [OF assms(2)]) blast
  let ?m = "m\<lparr>mc_conf := assign (cm_flags (getCmd undefined)) vs (mc_conf m)\<rparr>"
  obtain m1 r1 where p: "preRunE sy ?m = (m1, r1)" by fastforce
  have "mc_lock (setVerbose m1) \<noteq> Ours" using preRunE_frame [OF p] assms(3) by simp
  then have "cm_runE (getCmd (underLock ops)) m1 = cm_runE (getCmd ops) m1"
    unfolding c(3,4) by (rule withLock_locked [OF assms(1)])
  then have "executes (getCmd (underLock ops)) vs m = executes (getCmd ops) vs m"
    by (simp add: executes_def c(1) c(2) [of ops] c(2) [of "underLock ops"] p)
  moreover from assms(4) c(1) assms(3)
  have "(r = Ok None \<longrightarrow> mc_lock m' = Free) \<and> (mc_lock m' = Ours \<longrightarrow> (\<exists>e. r = Ok (Some e)))"
  proof (cases rule: executes_run)
    case (run m1)
    have "mc_lock (setVerbose m1) \<noteq> Ours" using run(3) assms(3) by simp
    from withLock_returns [OF assms(1) this run(2) [unfolded c(3)]] show ?thesis by auto
  qed simp
  ultimately show ?thesis using assms(4) by simp
qed

lemma commands_work_under_the_lock_witness:
  "\<exists>m'. executes (getDownloadCmd exampleSystem (underLock exampleCore)) exampleFlags exampleMachine = (m', Ok None) \<and>
     mc_lock m' = Free"
proof -
  obtain m' where m: "executes (getDownloadCmd exampleSystem exampleCore) exampleFlags exampleMachine = (m', Ok None)"
    by (rule example_run)
  have l: "lockFunction (sy_lock exampleSystem)" "locking exampleSystem (getDownloadCmd exampleSystem)"
    "mc_lock exampleMachine \<noteq> Ours"
    by (simp_all add: exampleSystem_def tryLock_ok locking_def exampleMachine_def)
  from commands_work_under_the_lock [OF l m] show ?thesis by blast
qed

text \<open>
  C4: Exit status zero means that the backup is there. If \<open>main\<close> returns normally from \<open>download\<close>, then the
  library was called with the server, port and user of the flags and the password that was found, while
  the lock was held, and every folder that the folder specs select has been backed up completely: on the
  disk as it was when the lock was obtained, nothing of which is lost. The lock is free again.
\<close>

theorem exit_zero_means_backed_up:
  assumes "iterates iter1" and "iterates iter2" and "corer net iter1 iter2 ops"
    and "lockFunction (sy_lock sy)" and "mc_lock m \<noteq> Ours"
    and "execute m = executes (getDownloadCmd sy ops) vs m" and "mainRun execute m = (m', Ok None)"
    and conf: "conf = assign (downloadFlags @ rootFlags) vs (mc_conf m)"
    and pre: "m1 = fst (preRunE sy (m\<lparr>mc_conf := conf\<rparr>))"
    and b: "b = callOf net (commandConfig (cf_root (mc_conf m1))) (dc_path (cf_download conf))"
    and lock: "(m2, l) = sy_lock sy (joinPath [dc_path (cf_download conf), lockfileName])
      (dc_timeoutSeconds (cf_download conf) * 1000000000) (setVerbose m1)"
    and "separateNames (bc_cfg b) (set (fst (available (bc_server b))))"
    and "\<And>k f. complete (content (mc_fs m2) (oldmailOf (sessionOf b (k, f))))"
    and ps: "ps = downloadPartitions iter1 iter2 (bc_server b) (dc_folders (cf_download conf)) (dc_threads (cf_download conf))"
  shows "mc_lock m2 = Ours \<and> mc_lock m' = Free \<and>
    (\<exists>pw. cf_root (mc_conf m1) = (cf_root conf)\<lparr>rc_password := pw\<rparr>) \<and>
    (\<forall>f \<in> set (expandFolders iter1 iter2 (dc_folders (cf_download conf)) (fst (available (bc_server b)))).
       \<exists>k < length ps. f \<in> set (ps ! k) \<and> savedFolder (sessionOf b (k, f)) (mc_fs m2) (mc_fs m')) \<and>
    keeps (oldmailOf ` sessionOf b ` jobsOf ps) (mc_fs m2) (mc_fs m')"
proof -
  let ?cmd = "getDownloadCmd sy ops" and ?d = "cf_download conf"
  have c: "cm_preRunE ?cmd = Some (preRunE sy)" "cm_flags ?cmd = downloadFlags @ rootFlags"
    by (simp_all add: getDownloadCmd_def)
  have "executes ?cmd vs m = (m', Ok None)"
    using assms(6,7) by (auto simp: mainRun_def mainExit_def bind_res_eq_Ok split: prod.splits if_splits)
  from this c(1) assms(5) show ?thesis
  proof (cases rule: executes_run)
    case (run m1')
    then have m1: "m1' = m1" using pre by (simp add: c(2) conf)
    note frame = preRunE_frame [OF run(1), unfolded c(2), folded conf, unfolded m1]
    have d: "cf_download (mc_conf m1) = ?d" using frame(3) by auto
    have n: "mc_lock (setVerbose m1) \<noteq> Ours" using run(3) assms(5) m1 by simp
    from run(2) have w: "withLock (sy_lock sy) ''cannot get lock on download folder, another process might be downloading: ''
        (dc_path ?d) (dc_timeoutSeconds ?d)
        (op_downloadFolder ops (bc_cfg b) (dc_folders ?d) (dc_path ?d) (dc_threads ?d)) (setVerbose m1) = (m', Ok None)"
      by (simp add: getDownloadCmd_def downloadRun_def d b callOf_def m1)
    obtain m3 where r: "mc_lock m2 = Ours"
      "op_downloadFolder ops (bc_cfg b) (dc_folders ?d) (dc_path ?d) (dc_threads ?d) m2 = (m3, Ok None)"
      "m' = m3\<lparr>mc_lock := Free\<rparr>"
      using withLock_returns [OF assms(4) n w] lock by auto
    from assms(3) r(2) have "downloadFolder iter1 iter2 b (dc_folders ?d) (dc_threads ?d) (mc_fs m2) (mc_fs m3) (Ok None)"
      unfolding corer_def b by (fastforce simp: callOf_def)
    then obtain st where st: "(bstep b ps)\<^sup>*\<^sup>* (backupInit b (mc_fs m2, \<lparr>count = 0\<rparr>)) st"
      "mc_fs m' = fst (b_shared st)" "d_result (b_main st) = Some (Ok None)"
      unfolding downloadFolder_def r(3) ps by auto
    have k: "complete (content (fst (mc_fs m2, \<lparr>count = 0\<rparr>)) (oldmailOf (sessionOf b (k, f))))" for k f
      using assms(13) by simp
    from backup_inv [OF st(1) call_sideBySide(1) [OF assms(1,2) ps assms(12)]]
    have "keeps (oldmailOf ` sessionOf b ` jobsOf ps) (mc_fs m2) (mc_fs m')" unfolding st(2) by simp
    with backup_saves [OF assms(1,2) ps assms(12) k st(1,3)] st(2) r(1,3) frame(3) show ?thesis by auto
  qed simp
qed

lemma exit_zero_means_backed_up_witness:
  "\<exists>m'. mainRun (executes (getDownloadCmd exampleSystem exampleCore) exampleFlags) exampleMachine = (m', Ok None) \<and>
     mc_lock m' = Free \<and> savedFolder exampleSession emptyFs (mc_fs m')"
proof -
  let ?run = "executes (getDownloadCmd exampleSystem exampleCore) exampleFlags"
  obtain m' where "?run exampleMachine = (m', Ok None)" by (rule example_run)
  then have m: "mainRun ?run exampleMachine = (m', Ok None)" by (simp add: mainRun_def mainExit_def)
  have l: "lockFunction (sy_lock exampleSystem)" "mc_lock exampleMachine \<noteq> Ours"
    by (simp_all add: exampleSystem_def tryLock_ok exampleMachine_def)
  obtain conf where conf: "conf = assign (downloadFlags @ rootFlags) exampleFlags (mc_conf exampleMachine)" by simp
  then have c: "conf = assign (downloadFlags @ rootFlags) exampleFlags initialConfig" by (simp add: exampleMachine_def)
  obtain m1 where pre: "m1 = fst (preRunE exampleSystem (exampleMachine\<lparr>mc_conf := conf\<rparr>))" by simp
  obtain k log where p: "m1 = exampleMachine\<lparr>mc_conf := conf\<lparr>cf_root := (cf_root conf)\<lparr>rc_password := ''p''\<rparr>\<rparr>,
      mc_keyring := k, mc_log := log\<rparr>"
    using example_pre unfolding pre conf by auto
  have b: "exampleCall = callOf exampleNetwork (commandConfig (cf_root (mc_conf m1))) (dc_path (cf_download conf))"
    unfolding exampleCall_of [symmetric]
    by (simp add: p c example_conf commandConfig_def exampleConfig_def localhost_def)
  have k: "(setVerbose m1\<lparr>mc_lock := Ours\<rparr>, Inr (\<lambda>n. n\<lparr>mc_lock := Free\<rparr>)) = sy_lock exampleSystem
      (joinPath [dc_path (cf_download conf), lockfileName]) (dc_timeoutSeconds (cf_download conf) * 1000000000) (setVerbose m1)"
    unfolding p by (simp add: exampleSystem_def tryLock_def setVerbose_def exampleMachine_def)
  have f: "mc_fs (setVerbose m1\<lparr>mc_lock := Ours\<rparr>) = emptyFs" unfolding p by (simp add: setVerbose_def exampleMachine_def)
  have e: "complete (content (mc_fs (setVerbose m1\<lparr>mc_lock := Ours\<rparr>)) x)" for x
    unfolding f by (simp add: emptyFs_def content_def complete_def)
  have d: "dc_folders (cf_download conf) = [''_ALL_'']" "dc_threads (cf_download conf) = 1"
    unfolding c example_conf by simp_all
  have "set (expandFolders (\<lambda>ks. ks) (\<lambda>ks. ks) [''_ALL_''] [''a'']) = {''a''}" by code_simp
  with exit_zero_means_backed_up [OF iterates_id iterates_id exampleCore_ok l refl m conf pre b k exampleNames e,
      unfolded d f, OF examplePartitions]
  have "mc_lock m' = Free" "savedFolder (sessionOf exampleCall (0, ''a'')) emptyFs (mc_fs m')" by simp_all
  with m show ?thesis unfolding exampleCall_session by blast
qed

end
