(* ===== verification/Spec2Isabelle.thy ===== *)
theory Spec2Isabelle
  imports Folder Threading Download Core CacheLocks Server CliLock Cli Jobs Backup Schedules Again WellFormed Serve
    Commands Program
begin

text \<open>
  Verification of go-imapgrab, a program that backs up IMAP mailboxes: it downloads the emails of the
  selected folders into maildirs, remembers in one oldmail file per folder what it has downloaded,
  and serves the backup through a local read-only IMAP server. The library is \<open>src/core\<close>, the command
  line program \<open>src/cli\<close>.

  \<^bold>\<open>The parts of the program and how they interact.\<close> \<open>cli/main.go\<close> runs a command (\<open>login\<close>, \<open>list\<close>,
  \<open>download\<close>, \<open>serve\<close>, \<open>version\<close>). \<open>download\<close> finds the password (\<open>cli/keyring.go\<close>), locks the local
  directory (\<open>cli/lock.go\<close>) and calls \<open>DownloadFolder\<close> (\<open>core/core.go\<close>). This logs in, lists the folders,
  expands the folder specs (\<open>core/folder.go\<close>), distributes the folders over threads, and each thread
  downloads its folders one by one (\<open>core/download.go\<close>): it initialises the maildir
  (\<open>core/maildir.go\<close>), reads the oldmail file (\<open>core/oldmail.go\<close>), lists the messages of the server,
  determines which are missing (\<open>core/ids.go\<close>), and runs a pipeline of goroutines that retrieve
  messages (\<open>core/imap_client.go\<close>), deliver them (\<open>core/deliver.go\<close>, \<open>core/email.go\<close>) and append to the
  oldmail file. Ctrl+C is seen through \<open>core/interrupt.go\<close>. \<open>serve\<close> takes the same lock and calls
  \<open>ServeMaildir\<close>, whose backend (\<open>core/srvbackend*.go\<close>) offers every maildir as a mailbox and keeps
  messages in a shared memory with a limit.

  \<^bold>\<open>Theories, from the bottom.\<close>

  \<^item> \<open>Prelude\<close>: words for Go's \<open>int\<close> (64 bits) and \<open>uint32\<close>, results \<open>Ok\<close>, \<open>Err\<close>, \<open>Panic\<close> of Go
    functions, the functions of \<open>strings\<close> and \<open>fmt\<close> that the sources call, shared lemmas.
  \<^item> \<open>OrderedSet\<close> (\<open>ordered_set.go\<close>), \<open>Folder\<close> (\<open>folder.go\<close>), \<open>Threading\<close> (\<open>threading.go\<close>, \<open>once\<close>),
    \<open>Ids\<close> (\<open>ids.go\<close>), \<open>Email\<close> (\<open>email.go\<close>), \<open>Interrupt\<close> (\<open>interrupt.go\<close>): each with its state as a record,
    one definition per method, and its specification. The order in which Go iterates over maps is a
    parameter.
  \<^item> \<open>Paths\<close> (\<open>maildir_path.go\<close>, package \<open>filepath\<close>), \<open>Filesys\<close> (\<open>fs.go\<close> on a model of the operating system
    with arbitrary failures), \<open>Scan\<close> (line scanner, \<open>Sscanf\<close>), \<open>Oldmail\<close> (\<open>oldmail.go\<close>), \<open>Maildir\<close>
    (\<open>maildir.go\<close>): what is on disk after every operation, on success and after every failure.
  \<^item> \<open>Pipeline\<close> and \<open>Delivery\<close>: the goroutines of the pipeline as a step relation \<open>pstep\<close>, first on
    abstract stages (the locale of stages that keep a good store), then on the file system. The
    lemmas bound the channels, show progress, and relate every interleaving to a sequential run.
  \<^item> \<open>ImapClient\<close> (\<open>imap_client.go\<close>): connecting, listing, the request. The IMAP library is the record
    \<open>imapOps\<close>, as it is an interface for the program.
  \<^item> \<open>Download\<close> (\<open>download.go\<close>): one folder, as a relation from disk to disk and result.
  \<^item> \<open>Core\<close> (\<open>core.go\<close>): the entry points; \<open>dstep\<close> are the steps of the threads of \<open>DownloadFolder\<close> in which
    the download of a folder is one step, \<open>serveStep\<close> those of \<open>ServeMaildir\<close>.
  \<^item> \<open>Jobs\<close>: the download of a folder in steps on a disk that others change (\<open>jobStep\<close>). A job alone is
    the relation of \<open>Download\<close>; jobs of different folders keep each other's invariants (the locale
    \<open>interference_free\<close>).
  \<^item> \<open>Backup\<close>: \<open>DownloadFolder\<close> as a whole (\<open>bstep\<close>): the threads of \<open>Core\<close> with the jobs of \<open>Jobs\<close> on one
    disk and one delivery counter, a refinement of \<open>dstep\<close>. Here are the main results: what a run
    without error has stored, what is true of the disk in every state whatever fails, and that the
    program never deadlocks. \<open>Schedules\<close>: a measure of the work that is left, and with it that an infinite
    schedule of a backup only waits from some step on. \<open>Again\<close>: a second backup of an unchanged server
    changes nothing. \<open>WellFormed\<close>: the file system stays a tree.
  \<^item> \<open>Cache\<close> and \<open>CacheLocks\<close> (\<open>srvbackend_message.go\<close>): the memory of the server, as functions, and the
    same code in steps of several connections under the mutexes. \<open>Server\<close> (\<open>srvbackend_mailbox.go\<close>,
    \<open>srvbackend_user.go\<close>, \<open>srvbackend.go\<close>). \<open>Serve\<close>: \<open>ServeMaildir\<close> from the set-up to the result, and the
    property that what \<open>DownloadFolder\<close> has stored is served.
  \<^item> \<open>CliLock\<close> (\<open>cli/lock.go\<close>): the goroutines of the lock and another process. \<open>Cli\<close>: credentials, the hint
    to log in, and what the commands do with their configuration. \<open>Commands\<close>: flags with the variables
    they are bound to, help texts, the functions \<open>PreRunE\<close> and \<open>RunE\<close> of each command on a machine, and
    the log (\<open>core/log.go\<close>). \<open>Program\<close>: \<open>cli/coreops.go\<close> and \<open>main\<close>, with the property that exit status
    zero of \<open>download\<close> means a complete backup.

  \<^bold>\<open>Granularity and bounds.\<close> Steps of goroutines are operations on channels, wait groups and mutexes, and
  the code between them, which is sequentially consistent. The channels have the capacities of the
  code (20 messages, 10 delivered entries, 10 folder names). Preparing a download (initialising the
  maildir, listing, comparing) is one step: it works on files of its own folder only, apart from the
  directories above. No fuel is used: runs are reflexive transitive closures of step relations, loops
  over lists are recursive, and that runs end is stated as such (\<open>dstep\<close> terminates; from every
  state of \<open>bstep\<close> the end can be reached, and in an infinite run of \<open>bstep\<close> only signals and the polling of
  a closed channel go on for ever; the download of a folder has a result). Integers are words,
  and the places where they overflow or are refused (\<open>intToUint32\<close>) are part of the statements.

  \<^bold>\<open>Assumptions.\<close> The IMAP library closes its channel when it returns; the folder names of a backup do not
  lead out of the base directory, and no two of them share an oldmail file (\<open>separateNames\<close>; the
  program does not check this); the oldmail files end in a complete line when the download starts;
  package \<open>lockedfile\<close> excludes other processes; the keyring returns what was stored; \<open>cobra\<close> stores
  the values of flags and calls \<open>PreRunE\<close> and then \<open>RunE\<close>.

  \<^bold>\<open>Not modelled.\<close> The calls of the log functions inside the library and \<open>oldmail.String\<close>, which only
  appears there: nothing reads the log. The network and TLS, the parsing of IMAP and of emails: part of
  libraries. The parsing of command lines and the printing of help and errors, part of \<open>cobra\<close>. The
  terminal. File permissions and links. Other processes that change the maildir against the lock.
  Weak memory: the code has data races (for example on the result of a listing), which the
  models resolve as interleavings.
\<close>

end
